(* ===== verification/Prelude.thy ===== *)
theory Prelude
  imports Complex_Main "HOL-Library.Multiset" "HOL-Library.Word"
begin

section \<open>Shared types, the result type and generic lemmas\<close>

text \<open>
  What every component uses: the conversions between C integer types, the
  faults a C++ program can run into with the result type that carries them,
  vector access with its range, and the lemmas on lists and sums that the
  component proofs share. Facts about results are collected in \<open>res_simps\<close>.
\<close>

named_theorems res_simps

subsection \<open>C integers\<close>

type_synonym u8 = "8 word"
type_synonym u32 = "32 word"
type_synonym u64 = "64 word"

text \<open>
  \<open>size_t\<close> values are list lengths. Storing one in an \<open>int\<close> keeps the low 32
  bits, read as two's complement; storing an \<open>int\<close> in an \<open>unsigned\<close> keeps the
  low 32 bits; comparing a \<open>size_t\<close> with an \<open>unsigned\<close> widens the latter.
\<close>

definition size_to_int :: "nat \<Rightarrow> int" where
  "size_to_int n = sint (word_of_nat n :: u32)"

definition int_to_unsigned :: "int \<Rightarrow> u32" where
  "int_to_unsigned i = word_of_int i"

definition size_eq_unsigned :: "nat \<Rightarrow> u32 \<Rightarrow> bool" where
  "size_eq_unsigned n u \<longleftrightarrow> (word_of_nat n :: u64) = ucast u"

lemma size_to_int_small: "n < 2 ^ 31 \<Longrightarrow> size_to_int n = int n"
  by (simp add: size_to_int_def signed_of_nat signed_take_bit_int_eq_self)

lemma uint_int_to_unsigned_small: "0 \<le> i \<Longrightarrow> i < 2 ^ 32 \<Longrightarrow> uint (int_to_unsigned i) = i"
  by (simp add: int_to_unsigned_def uint_word_of_int)

lemma uint_word_of_int_u64: "0 \<le> i \<Longrightarrow> i < 2 ^ 64 \<Longrightarrow> uint (word_of_int i :: u64) = i"
  by (simp add: uint_word_of_int)

lemma size_eq_unsigned_small:
  assumes "n < 2 ^ 31" "0 \<le> i" "i < 2 ^ 31"
  shows "size_eq_unsigned n (int_to_unsigned i) \<longleftrightarrow> int n = i"
proof -
  have "uint (word_of_nat n :: u64) = int n"
    using assms by (simp add: unsigned_of_nat take_bit_nat_eq_self)
  moreover have "uint (ucast (int_to_unsigned i) :: u64) = i"
    using assms by (simp add: uint_int_to_unsigned_small unsigned_ucast_eq take_bit_int_eq_self)
  ultimately show ?thesis
    by (metis size_eq_unsigned_def word_uint_eqI)
qed

lemma int_to_unsigned_less:
  assumes "0 \<le> i" "i < 2 ^ 32" "0 \<le> j" "j < 2 ^ 32"
  shows "int_to_unsigned i < int_to_unsigned j \<longleftrightarrow> i < j"
  using assms by (simp add: word_less_def uint_int_to_unsigned_small)

lemma int_to_unsigned_minus:
  assumes "0 \<le> j" "j \<le> i" "i < 2 ^ 32"
  shows "int_to_unsigned i - int_to_unsigned j = int_to_unsigned (i - j)"
  by (simp add: int_to_unsigned_def)

lemma int_to_unsigned_eq:
  "0 \<le> i \<Longrightarrow> i < 2 ^ 32 \<Longrightarrow> 0 \<le> j \<Longrightarrow> j < 2 ^ 32 \<Longrightarrow> int_to_unsigned i = int_to_unsigned j \<longleftrightarrow> i = j"
  by (metis uint_int_to_unsigned_small)

subsection \<open>Results\<close>

text \<open>
  What stops a C++ function short of its \<open>return\<close>: an index outside a vector
  or array (undefined behaviour), \<open>map::at\<close> on a missing key (it throws),
  dereferencing an end iterator or a null pointer (undefined behaviour), freeing
  memory a second time (undefined behaviour), an exception nobody catches, and
  \<open>exit\<close>. A conversion whose value does not fit, and signed overflow, count as out of
  range.
\<close>

datatype fault = Out_Of_Range | Missing_Key | Bad_Iterator | Null_Pointer | Bad_Free | Uncaught | Exit int

type_synonym 'a res = "fault + 'a"

definition bind_res :: "'a res \<Rightarrow> ('a \<Rightarrow> 'b res) \<Rightarrow> 'b res" where
  "bind_res m f = (case m of Inl e \<Rightarrow> Inl e | Inr x \<Rightarrow> f x)"

lemma bind_res_Inr [simp, res_simps]: "bind_res (Inr x) f = f x"
  by (simp add: bind_res_def)

lemma bind_res_Inl [simp, res_simps]: "bind_res (Inl e) f = Inl e"
  by (simp add: bind_res_def)

lemma bind_res_eq_Inr [res_simps]:
  "bind_res m f = Inr y \<longleftrightarrow> (\<exists>x. m = Inr x \<and> f x = Inr y)"
  by (cases m) simp_all

lemma bind_res_eq_Inl [res_simps]:
  "bind_res m f = Inl e \<longleftrightarrow> m = Inl e \<or> (\<exists>x. m = Inr x \<and> f x = Inl e)"
  by (cases m) simp_all

lemma bind_res_cong [fundef_cong]:
  "m = m' \<Longrightarrow> (\<And>x. m' = Inr x \<Longrightarrow> f x = f' x) \<Longrightarrow> bind_res m f = bind_res m' f'"
  by (cases m') simp_all

text \<open>\<open>v[i]\<close>: the index is converted to \<open>size_t\<close>, so a negative one is out of range too.\<close>

definition vec_at :: "'a list \<Rightarrow> int \<Rightarrow> 'a res" where
  "vec_at xs i = (if 0 \<le> i \<and> nat i < length xs then Inr (xs ! nat i) else Inl Out_Of_Range)"

lemma vec_at_ok [res_simps]: "0 \<le> i \<Longrightarrow> i < int (length xs) \<Longrightarrow> vec_at xs i = Inr (xs ! nat i)"
  by (simp add: vec_at_def nat_less_iff)

lemma vec_at_nat [res_simps]: "n < length xs \<Longrightarrow> vec_at xs (int n) = Inr (xs ! n)"
  by (simp add: vec_at_def)

lemma vec_at_eq_Inr [res_simps]:
  "vec_at xs i = Inr x \<longleftrightarrow> 0 \<le> i \<and> i < int (length xs) \<and> x = xs ! nat i"
  by (auto simp: vec_at_def nat_less_iff)

text \<open>A loop over a sequence that carries a state and may stop at a fault.\<close>

fun fold_res :: "('a \<Rightarrow> 's \<Rightarrow> 's res) \<Rightarrow> 'a list \<Rightarrow> 's \<Rightarrow> 's res" where
  "fold_res f [] s = Inr s"
| "fold_res f (x # xs) s = bind_res (f x s) (\<lambda>s'. fold_res f xs s')"

lemma fold_res_append:
  "fold_res f (xs @ ys) s = bind_res (fold_res f xs s) (fold_res f ys)"
  by (induction xs arbitrary: s) (auto simp: bind_res_def split: sum.splits)

lemma fold_res_single: "fold_res f [x] = f x"
  by (rule ext) (simp add: bind_res_def split: sum.splits)

text \<open>A loop that indexes a vector over its whole range is a loop over its elements.\<close>

lemma fold_res_vec_at:
  "fold_res (\<lambda>i s. bind_res (vec_at xs i) (\<lambda>x. f x s)) (map int [0..<length xs]) s = fold_res f xs s"
proof -
  have "n \<le> length xs \<Longrightarrow>
      fold_res (\<lambda>i s. bind_res (vec_at xs i) (\<lambda>x. f x s)) (map int [0..<n]) s = fold_res f (take n xs) s" for n
    by (induction n) (simp_all add: fold_res_append fold_res_single vec_at_nat take_Suc_conv_app_nth del: fold_res.simps(2))
  then show ?thesis by simp
qed

lemma fold_res_inv:
  assumes "fold_res f xs s = Inr s'" "P s"
    and "\<And>x s t. x \<in> set xs \<Longrightarrow> P s \<Longrightarrow> f x s = Inr t \<Longrightarrow> P t"
  shows "P s'"
  using assms by (induction xs arbitrary: s) (auto simp: res_simps)

lemma fold_res_total:
  assumes "P s" and "\<And>x s. x \<in> set xs \<Longrightarrow> P s \<Longrightarrow> \<exists>t. f x s = Inr t \<and> P t"
  shows "\<exists>s'. fold_res f xs s = Inr s' \<and> P s'"
  using assms
proof (induction xs arbitrary: s)
  case (Cons x xs)
  obtain t where t: "f x s = Inr t" "P t" using Cons.prems by force
  then show ?case using Cons.IH [of t] Cons.prems(2) by auto
qed simp

subsection \<open>Lists\<close>

lemma sum_list_update:
  fixes f :: "'a \<Rightarrow> int"
  shows "i < length xs \<Longrightarrow> sum_list (map f (xs[i := y])) = sum_list (map f xs) - f (xs ! i) + f y"
proof (induction xs arbitrary: i)
  case (Cons x xs)
  then show ?case by (cases i) auto
qed simp

lemma mset_concat_update:
  assumes "i < length xss"
  shows "mset (concat (xss[i := ys])) + mset (xss ! i) = mset (concat xss) + mset ys"
  using assms
proof (induction xss arbitrary: i)
  case (Cons xs xss)
  then show ?case by (cases i) (auto simp: ac_simps)
qed simp

lemma set_concat_update:
  "set (concat (xss[i := ys])) \<subseteq> set (concat xss) \<union> set ys"
  using set_update_subset_insert [of xss i ys] by auto

subsection \<open>Loops that wait for something\<close>

text \<open>
  A loop that counts up from \<open>k\<close> until a condition holds. Wherever the condition
  holds at some later number the loop returns, at the first such number.
\<close>

locale waiting_loop =
  fixes cond :: "nat \<Rightarrow> bool" and result :: "nat \<Rightarrow> 'r" and loop :: "nat \<Rightarrow> 'r option"
  assumes loop_step: "loop k = (if cond k then Some (result k) else loop (Suc k))"
begin

lemma loop_skips: "(\<And>i. k \<le> i \<Longrightarrow> i < k + n \<Longrightarrow> \<not> cond i) \<Longrightarrow> loop k = loop (k + n)"
proof (induction n)
  case (Suc n)
  then show ?case using loop_step [of "k + n"] by simp
qed simp

lemma returns_first:
  assumes "cond j" "k \<le> j"
  shows "\<exists>a. k \<le> a \<and> a \<le> j \<and> (\<forall>i. k \<le> i \<and> i < a \<longrightarrow> \<not> cond i) \<and> cond a \<and> loop k = Some (result a)"
proof -
  define a where "a = (LEAST a. k \<le> a \<and> cond a)"
  have a: "k \<le> a" "cond a" "a \<le> j"
    using LeastI [of "\<lambda>a. k \<le> a \<and> cond a" j] Least_le [of "\<lambda>a. k \<le> a \<and> cond a" j] assms by (auto simp: a_def)
  have first: "\<not> cond i" if "k \<le> i" "i < a" for i
    using that not_less_Least [of i "\<lambda>a. k \<le> a \<and> cond a"] by (auto simp: a_def)
  then have "loop k = loop (k + (a - k))" using a(1) by (intro loop_skips) auto
  then have "loop k = Some (result a)" using a loop_step [of a] by simp
  then show ?thesis using a first by blast
qed

end

end
