(* ===== verification/Binary64.thy ===== *)
theory Binary64
  imports Prelude "HOL-Library.Log_Nat"
begin

section \<open>The C++ type double\<close>

text \<open>
  \<open>double\<close> as the sources use it: IEEE 754 binary64 with rounding to nearest,
  ties to even. A value is a finite rational, an infinity or NaN, and every
  arithmetic operation rounds the exact result. The sign of zero is not kept;
  it only shows when dividing by a negative zero, and every divisor in the
  sources is a converted unsigned integer or a quotient of one. The lemmas show
  that rounding is monotone, symmetric, and exact on small integers.
\<close>

datatype dbl = Fin rat | PInf | NInf | NaN

subsection \<open>Rounding\<close>

text \<open>\<open>ilog2 x\<close> is the exponent of \<open>x > 0\<close>: \<open>2 powi ilog2 x \<le> x < 2 powi (ilog2 x + 1)\<close>.\<close>

definition ilog2 :: "rat \<Rightarrow> int" where
  "ilog2 x =
     (let (p, q) = quotient_of x; k = bitlen p - bitlen q
      in if 2 powi k \<le> x then k else k - 1)"

definition round_half_even :: "rat \<Rightarrow> int" where
  "round_half_even x =
     (let f = \<lfloor>x\<rfloor>; d = x - of_int f
      in if d < 1/2 then f else if 1/2 < d then f + 1 else if even f then f else f + 1)"

text \<open>The unit in the last place: 53 significant bits, and no exponent below \<open>-1074\<close>.\<close>

definition ulp :: "rat \<Rightarrow> rat" where
  "ulp x = 2 powi (max (ilog2 \<bar>x\<bar>) (-1022) - 52)"

definition round_exact :: "rat \<Rightarrow> rat" where
  "round_exact x = (if x = 0 then 0 else of_int (round_half_even (x / ulp x)) * ulp x)"

definition rnd :: "rat \<Rightarrow> dbl" where
  "rnd x =
     (let r = round_exact x
      in if 2 ^ 1024 \<le> r then PInf else if r \<le> - (2 ^ 1024) then NInf else Fin r)"

lemma bitlen_bounds_rat:
  assumes "0 < p"
  shows "2 powi (bitlen p - 1) \<le> (of_int p :: rat)" "(of_int p :: rat) < 2 powi bitlen p"
proof -
  have b: "0 < bitlen p" and l: "2 ^ nat (bitlen p - 1) \<le> p" and u: "p < 2 ^ nat (bitlen p)"
    using assms bitlen_bounds [of p] by (auto simp: bitlen_nonneg order.strict_iff_order bitlen_eq_zero_iff)
  have "(of_int (2 ^ nat (bitlen p - 1)) :: rat) \<le> of_int p" using l by (simp only: of_int_le_iff)
  then show "2 powi (bitlen p - 1) \<le> (of_int p :: rat)" using b by (simp add: power_int_def)
  have "(of_int p :: rat) < of_int (2 ^ nat (bitlen p))" using u by (simp only: of_int_less_iff)
  then show "(of_int p :: rat) < 2 powi bitlen p" using b by (simp add: power_int_def)
qed

lemma ilog2_bounds:
  assumes "0 < x"
  shows "2 powi ilog2 x \<le> x" "x < 2 powi (ilog2 x + 1)"
proof -
  obtain p q where pq: "quotient_of x = (p, q)" by fastforce
  have q: "0 < q" using pq by (rule quotient_of_denom_pos)
  have x: "x = of_int p / of_int q" using pq by (rule quotient_of_div)
  have p: "0 < p" using assms q by (simp add: x zero_less_divide_iff)
  define k where "k = bitlen p - bitlen q"
  note bp = bitlen_bounds_rat [OF p] and bq = bitlen_bounds_rat [OF q]
  have "(of_int p :: rat) < 2 powi (k + 1) * 2 powi (bitlen q - 1)"
    using bp(2) by (simp add: k_def flip: power_int_add)
  also have "\<dots> \<le> 2 powi (k + 1) * of_int q" using bq(1) by simp
  finally have up: "x < 2 powi (k + 1)" using q by (simp add: x divide_simps mult.commute)
  have "2 powi (k - 1) * (of_int q :: rat) \<le> 2 powi (k - 1) * 2 powi bitlen q" using bq(2) by simp
  also have "\<dots> \<le> of_int p" using bp(1) by (simp add: k_def flip: power_int_add)
  finally have lo: "2 powi (k - 1) \<le> x" using q by (simp add: x divide_simps mult.commute)
  have e: "ilog2 x = (if 2 powi k \<le> x then k else k - 1)"
    by (simp add: ilog2_def pq Let_def k_def)
  show "2 powi ilog2 x \<le> x" using lo by (simp add: e)
  show "x < 2 powi (ilog2 x + 1)" using up by (simp add: e)
qed

lemma round_half_even_of_int [simp]: "round_half_even (of_int n) = n"
  by (simp add: round_half_even_def)

lemma round_half_even_bounds:
  "\<lfloor>x\<rfloor> \<le> round_half_even x" "round_half_even x \<le> \<lfloor>x\<rfloor> + 1"
  by (simp_all add: round_half_even_def Let_def)

lemma round_half_even_mono:
  assumes "x \<le> y" shows "round_half_even x \<le> round_half_even y"
proof (cases "\<lfloor>x\<rfloor> = \<lfloor>y\<rfloor>")
  case True
  then show ?thesis using assms by (auto simp: round_half_even_def Let_def)
next
  case False
  then have "\<lfloor>x\<rfloor> + 1 \<le> \<lfloor>y\<rfloor>" using floor_mono [OF assms] by linarith
  then show ?thesis using round_half_even_bounds [of x] round_half_even_bounds [of y] by linarith
qed

lemma round_half_even_minus: "round_half_even (- x) = - round_half_even x"
proof (cases "x = of_int \<lfloor>x\<rfloor>")
  case True
  then show ?thesis by (metis of_int_minus round_half_even_of_int)
next
  case False
  then have fl: "\<lfloor>- x\<rfloor> = - \<lfloor>x\<rfloor> - 1" by linarith
  show ?thesis by (auto simp: round_half_even_def fl Let_def)
qed

lemma ulp_pos: "0 < ulp x"
  by (simp add: ulp_def)

lemma ulp_minus [simp]: "ulp (- x) = ulp x"
  by (simp add: ulp_def)

lemma round_exact_0 [simp]: "round_exact 0 = 0"
  by (simp add: round_exact_def)

lemma round_exact_minus: "round_exact (- x) = - round_exact x"
  by (simp add: round_exact_def round_half_even_minus)

lemma round_exact_nonneg: "0 \<le> x \<Longrightarrow> 0 \<le> round_exact x"
  using round_half_even_mono [of 0 "x / ulp x"] round_half_even_of_int [of 0] ulp_pos [of x]
  by (simp add: round_exact_def)

lemma round_exact_fixed:
  assumes "x = of_int m * ulp x" shows "round_exact x = x"
proof -
  have "x / ulp x = of_int m" using assms ulp_pos [of x] by (metis less_irrefl nonzero_mult_div_cancel_right)
  then show ?thesis using assms by (simp add: round_exact_def)
qed

lemma round_exact_below:
  assumes "0 < x"
  shows "round_exact x \<le> 2 powi (max (ilog2 x) (-1022) + 1)"
proof -
  define e where "e = max (ilog2 x) (-1022)"
  have u: "ulp x = 2 powi (e - 52)" using assms by (simp add: ulp_def e_def)
  have "x < 2 powi (ilog2 x + 1)" by (rule ilog2_bounds [OF assms])
  also have "\<dots> \<le> 2 powi (e + 1)" by (intro power_int_increasing) (auto simp: e_def)
  also have "\<dots> = 2 powi (e - 52) * (2 ^ 53 :: rat)"
    using power_int_add [of "2 :: rat" "e - 52" 53] by (simp add: add.commute)
  finally have "x / ulp x \<le> of_int (2 ^ 53)" by (simp add: u divide_simps mult.commute)
  then have "round_half_even (x / ulp x) \<le> 2 ^ 53"
    by (metis round_half_even_mono round_half_even_of_int)
  then have "(of_int (round_half_even (x / ulp x)) :: rat) \<le> of_int (2 ^ 53)"
    by (simp only: of_int_le_iff)
  then have "round_exact x \<le> of_int (2 ^ 53) * ulp x"
    using assms ulp_pos [of x] by (simp add: round_exact_def)
  also have "\<dots> = 2 powi (e + 1)"
    using power_int_add [of "2 :: rat" "e - 52" 53] by (simp add: u add.commute)
  finally show ?thesis by (simp add: e_def)
qed

lemma round_exact_above:
  assumes "0 < x" "-1022 \<le> ilog2 x"
  shows "2 powi (ilog2 x) \<le> round_exact x"
proof -
  have u: "ulp x = 2 powi (ilog2 x - 52)" using assms by (simp add: ulp_def max_def)
  have sc: "2 powi (ilog2 x) = of_int (2 ^ 52) * ulp x"
    using power_int_add [of "2 :: rat" "ilog2 x - 52" 52] by (simp add: u)
  have "of_int (2 ^ 52) \<le> x / ulp x"
    using ilog2_bounds(1) [OF assms(1)] ulp_pos [of x] by (simp add: sc pos_le_divide_eq)
  then have "2 ^ 52 \<le> round_half_even (x / ulp x)"
    by (metis round_half_even_mono round_half_even_of_int)
  then have "(of_int (2 ^ 52) :: rat) \<le> of_int (round_half_even (x / ulp x))"
    by (simp only: of_int_le_iff)
  then show ?thesis
    using assms(1) ulp_pos [of x] by (simp add: round_exact_def sc)
qed

lemma ilog2_mono:
  assumes "0 < x" "x \<le> y" shows "ilog2 x \<le> ilog2 y"
proof (rule ccontr)
  assume "\<not> ilog2 x \<le> ilog2 y"
  then have "(2 :: rat) powi (ilog2 y + 1) \<le> 2 powi ilog2 x"
    by (intro power_int_increasing) auto
  then show False
    using ilog2_bounds(1) [OF assms(1)] ilog2_bounds(2) [of y] assms by linarith
qed

lemma round_exact_mono_pos:
  assumes "0 < x" "x \<le> y" shows "round_exact x \<le> round_exact y"
proof -
  define ex where "ex = max (ilog2 x) (-1022)"
  define ey where "ey = max (ilog2 y) (-1022)"
  have le: "ex \<le> ey" using ilog2_mono [OF assms] by (simp add: ex_def ey_def)
  show ?thesis
  proof (cases "ex = ey")
    case True
    then have u: "ulp x = ulp y" using assms by (simp add: ulp_def ex_def ey_def)
    have "x / ulp y \<le> y / ulp y" using assms ulp_pos [of y] by (simp add: divide_right_mono)
    then have "round_half_even (x / ulp y) \<le> round_half_even (y / ulp y)"
      by (rule round_half_even_mono)
    then show ?thesis using assms ulp_pos [of y] by (simp add: round_exact_def u)
  next
    case False
    then have "ex + 1 \<le> ey" "ey = ilog2 y" "-1022 \<le> ilog2 y"
      using le by (auto simp: ex_def ey_def)
    then have "(2 :: rat) powi (ex + 1) \<le> 2 powi ilog2 y" by (intro power_int_increasing) auto
    then show ?thesis
      using round_exact_below [OF assms(1)] round_exact_above [of y] assms \<open>-1022 \<le> ilog2 y\<close>
      by (simp add: ex_def)
  qed
qed

lemma round_exact_mono:
  assumes "x \<le> y" shows "round_exact x \<le> round_exact y"
proof -
  consider "0 < x" | "x \<le> 0" "0 \<le> y" | "y < 0" by linarith
  then show ?thesis
  proof cases
    case 1
    then show ?thesis using assms by (rule round_exact_mono_pos)
  next
    case 2
    then show ?thesis
      using round_exact_nonneg [of y] round_exact_nonneg [of "- x"] by (simp add: round_exact_minus)
  next
    case 3
    then show ?thesis
      using round_exact_mono_pos [of "- y" "- x"] assms by (simp add: round_exact_minus)
  qed
qed

lemma round_exact_of_int:
  assumes "\<bar>n\<bar> \<le> 2 ^ 53" shows "round_exact (of_int n) = of_int n"
proof -
  have pos: "round_exact (of_int m) = of_int m" if "0 < m" "m \<le> 2 ^ 53" for m :: int
  proof -
    define l where "l = ilog2 (of_int m)"
    have m: "(0 :: rat) < of_int m" using that by simp
    have l0: "0 \<le> l"
    proof (rule ccontr)
      assume "\<not> 0 \<le> l"
      then have "(2 :: rat) powi (l + 1) \<le> 2 powi 0" by (intro power_int_increasing) auto
      then have "(of_int m :: rat) < 1" using ilog2_bounds(2) [OF m] by (simp add: l_def)
      then show False using that by simp
    qed
    have u: "ulp (of_int m) = 2 powi (l - 52)" using that l0 by (simp add: ulp_def l_def)
    show ?thesis
    proof (cases "l \<le> 52")
      case True
      have "(2 :: rat) powi (l - 52) * 2 powi (52 - l) = 1" by (simp flip: power_int_add)
      moreover have "(2 :: rat) powi (52 - l) = of_int (2 ^ nat (52 - l))"
        using True by (simp add: power_int_def)
      ultimately have "of_int m = of_int (m * 2 ^ nat (52 - l)) * ulp (of_int m)"
        by (simp add: u mult.assoc mult.left_commute mult.commute)
      then show ?thesis by (rule round_exact_fixed)
    next
      case False
      then have "(2 :: rat) powi 53 \<le> 2 powi l" by (intro power_int_increasing) auto
      then have "of_int (2 ^ 53) \<le> (of_int m :: rat)"
        using ilog2_bounds(1) [OF m] by (simp add: l_def)
      then have m53: "m = 2 ^ 53" using that(2) by (simp only: of_int_le_iff)
      have "(2 :: rat) powi l \<le> 2 powi 53"
        using ilog2_bounds(1) [OF m] by (simp add: l_def m53)
      then have "l = 53" using False power_int_strict_increasing [of 53 l "2 :: rat"] by force
      then have "of_int m = of_int (2 ^ 52) * ulp (of_int m)" using u by (simp add: m53)
      then show ?thesis by (rule round_exact_fixed)
    qed
  qed
  consider "0 < n" | "n = 0" | "n < 0" by linarith
  then show ?thesis
  proof cases
    case 3
    then show ?thesis using pos [of "- n"] assms by (simp add: round_exact_minus)
  qed (use pos [of n] assms in simp_all)
qed

text \<open>The rational that a decimal literal or a converted integer of at most 53 bits denotes.\<close>

lemma rnd_of_int:
  assumes "\<bar>n\<bar> \<le> 2 ^ 53" shows "rnd (of_int n) = Fin (of_int n)"
proof -
  have "(of_int n :: rat) \<le> of_int (2 ^ 53)" "of_int (- (2 ^ 53)) \<le> (of_int n :: rat)"
    using assms by (simp_all only: of_int_le_iff)
  then show ?thesis using round_exact_of_int [OF assms] by (simp add: rnd_def)
qed

text \<open>Rounding a concrete rational: give the exponent and the significand.\<close>

lemma round_exact_abs: "\<bar>round_exact x\<bar> = round_exact \<bar>x\<bar>"
  using round_exact_nonneg [of "\<bar>x\<bar>"] by (auto simp: abs_if round_exact_minus)

lemma rnd_eqI:
  assumes "2 powi (k + 52) \<le> \<bar>x\<bar>" "\<bar>x\<bar> < 2 powi (k + 53)" "-1074 \<le> k" "k \<le> 970"
    and "round_half_even (x / 2 powi k) = m"
  shows "rnd x = Fin (of_int m * 2 powi k)"
proof -
  have x0: "0 < \<bar>x\<bar>" using assms(1) zero_less_power_int [of "2 :: rat" "k + 52"] by linarith
  note b = ilog2_bounds [OF x0]
  have "(2 :: rat) powi (k + 52) < 2 powi (ilog2 \<bar>x\<bar> + 1)" using b(2) assms(1) by simp
  then have 1: "k + 52 < ilog2 \<bar>x\<bar> + 1"
    by (rule contrapos_pp) (simp add: not_less power_int_increasing)
  have "(2 :: rat) powi (ilog2 \<bar>x\<bar>) < 2 powi (k + 53)" using b(1) assms(2) by simp
  then have 2: "ilog2 \<bar>x\<bar> < k + 53"
    by (rule contrapos_pp) (simp add: not_less power_int_increasing)
  have e: "ilog2 \<bar>x\<bar> = k + 52" using 1 2 by linarith
  have u: "ulp x = 2 powi k" using assms(3) by (simp add: ulp_def e)
  have r: "round_exact x = of_int m * 2 powi k" using x0 assms(5) by (auto simp: round_exact_def u)
  have "round_exact \<bar>x\<bar> \<le> 2 powi (max (ilog2 \<bar>x\<bar>) (-1022) + 1)" by (rule round_exact_below [OF x0])
  also have "\<dots> \<le> 2 powi 1023" using 2 assms(4) by (intro power_int_increasing) auto
  also have "\<dots> < (2 :: rat) ^ 1024" by simp
  finally have "\<bar>round_exact x\<bar> < 2 ^ 1024" by (simp only: round_exact_abs)
  then show ?thesis using r by (simp add: rnd_def Let_def abs_less_iff del: power_numeral)
qed

lemma rnd_0 [simp]: "rnd 0 = Fin 0"
  using rnd_of_int [of 0] by simp

lemma rnd_1 [simp]: "rnd 1 = Fin 1"
  using rnd_of_int [of 1] by simp

lemma rnd_numeral [simp]: "(numeral n :: int) \<le> 2 ^ 53 \<Longrightarrow> rnd (numeral n) = Fin (numeral n)"
  using rnd_of_int [of "numeral n"] by simp

lemma round_half_even_near:
  assumes "\<bar>x - of_int m\<bar> < 1/2" shows "round_half_even x = m"
proof -
  have x: "x < of_int m + 1/2" "of_int m - 1/2 < x" using assms by linarith+
  consider "\<lfloor>x\<rfloor> = m" | "\<lfloor>x\<rfloor> = m - 1" using assms by linarith
  then show ?thesis
    by cases (use x in \<open>auto simp: round_half_even_def Let_def\<close>)
qed

lemma rnd_nearI:
  assumes "2 powi (k + 52) \<le> \<bar>x\<bar>" "\<bar>x\<bar> < 2 powi (k + 53)" "-1074 \<le> k" "k \<le> 970"
    and "\<bar>x / 2 powi k - of_int m\<bar> < 1/2"
  shows "rnd x = Fin (of_int m * 2 powi k)"
  by (rule rnd_eqI [OF assms(1-4) round_half_even_near [OF assms(5)]])

subsection \<open>Arithmetic and comparison\<close>

definition dbl_sgn_inf :: "rat \<Rightarrow> dbl" where
  "dbl_sgn_inf s = (if s = 0 then NaN else if 0 < s then PInf else NInf)"

fun dbl_sgn :: "dbl \<Rightarrow> rat" where
  "dbl_sgn (Fin x) = sgn x"
| "dbl_sgn PInf = 1"
| "dbl_sgn NInf = -1"
| "dbl_sgn NaN = 0"

fun dbl_add :: "dbl \<Rightarrow> dbl \<Rightarrow> dbl" where
  "dbl_add (Fin x) (Fin y) = rnd (x + y)"
| "dbl_add NaN _ = NaN"
| "dbl_add _ NaN = NaN"
| "dbl_add PInf NInf = NaN"
| "dbl_add NInf PInf = NaN"
| "dbl_add PInf _ = PInf"
| "dbl_add _ PInf = PInf"
| "dbl_add NInf _ = NInf"
| "dbl_add _ NInf = NInf"

fun dbl_neg :: "dbl \<Rightarrow> dbl" where
  "dbl_neg (Fin x) = Fin (- x)"
| "dbl_neg PInf = NInf"
| "dbl_neg NInf = PInf"
| "dbl_neg NaN = NaN"

fun dbl_mult :: "dbl \<Rightarrow> dbl \<Rightarrow> dbl" where
  "dbl_mult (Fin x) (Fin y) = rnd (x * y)"
| "dbl_mult NaN _ = NaN"
| "dbl_mult _ NaN = NaN"
| "dbl_mult a b = dbl_sgn_inf (dbl_sgn a * dbl_sgn b)"

text \<open>Division by a zero taken as positive; \<open>0 / 0\<close> and \<open>\<infinity> / \<infinity>\<close> are NaN.\<close>

fun dbl_div :: "dbl \<Rightarrow> dbl \<Rightarrow> dbl" where
  "dbl_div (Fin x) (Fin y) = (if y = 0 then dbl_sgn_inf x else rnd (x / y))"
| "dbl_div NaN _ = NaN"
| "dbl_div _ NaN = NaN"
| "dbl_div (Fin x) _ = Fin 0"
| "dbl_div a (Fin y) = dbl_sgn_inf (dbl_sgn a * (if y = 0 then 1 else sgn y))"
| "dbl_div _ _ = NaN"

fun dbl_less :: "dbl \<Rightarrow> dbl \<Rightarrow> bool" where
  "dbl_less NaN _ = False"
| "dbl_less _ NaN = False"
| "dbl_less (Fin x) (Fin y) = (x < y)"
| "dbl_less NInf b = (b \<noteq> NInf)"
| "dbl_less a PInf = (a \<noteq> PInf)"
| "dbl_less _ _ = False"

fun dbl_le :: "dbl \<Rightarrow> dbl \<Rightarrow> bool" where
  "dbl_le NaN _ = False"
| "dbl_le _ NaN = False"
| "dbl_le (Fin x) (Fin y) = (x \<le> y)"
| "dbl_le NInf _ = True"
| "dbl_le _ PInf = True"
| "dbl_le _ _ = False"

instantiation dbl :: "{plus, minus, uminus, times, inverse, ord}"
begin
definition plus_dbl :: "dbl \<Rightarrow> dbl \<Rightarrow> dbl" where "plus_dbl = dbl_add"
definition uminus_dbl :: "dbl \<Rightarrow> dbl" where "uminus_dbl = dbl_neg"
definition minus_dbl :: "dbl \<Rightarrow> dbl \<Rightarrow> dbl" where "minus_dbl a b = dbl_add a (dbl_neg b)"
definition times_dbl :: "dbl \<Rightarrow> dbl \<Rightarrow> dbl" where "times_dbl = dbl_mult"
definition divide_dbl :: "dbl \<Rightarrow> dbl \<Rightarrow> dbl" where "divide_dbl = dbl_div"
definition inverse_dbl :: "dbl \<Rightarrow> dbl" where "inverse_dbl = dbl_div (Fin 1)"
definition less_dbl :: "dbl \<Rightarrow> dbl \<Rightarrow> bool" where "less_dbl = dbl_less"
definition less_eq_dbl :: "dbl \<Rightarrow> dbl \<Rightarrow> bool" where "less_eq_dbl = dbl_le"
instance ..
end

text \<open>Conversions: a decimal literal, an \<open>int\<close>, and an \<open>unsigned long long\<close>.\<close>

definition dbl_lit :: "int \<Rightarrow> int \<Rightarrow> dbl" where
  "dbl_lit n d = rnd (of_int n / of_int d)"

definition dbl_of_int :: "int \<Rightarrow> dbl" where
  "dbl_of_int i = rnd (of_int i)"

definition dbl_of_u64 :: "u64 \<Rightarrow> dbl" where
  "dbl_of_u64 w = rnd (of_int (uint w))"

lemmas dbl_op_defs =
  plus_dbl_def minus_dbl_def uminus_dbl_def times_dbl_def divide_dbl_def less_dbl_def less_eq_dbl_def

lemma dbl_of_int_small: "\<bar>i\<bar> \<le> 2 ^ 53 \<Longrightarrow> dbl_of_int i = Fin (of_int i)"
  by (simp add: dbl_of_int_def rnd_of_int)

subsection \<open>Order facts\<close>

lemma dbl_less_irrefl [simp]: "\<not> (a :: dbl) < a"
  by (cases a) (simp_all add: less_dbl_def)

lemma dbl_less_trans: "(a :: dbl) < b \<Longrightarrow> b < c \<Longrightarrow> a < c"
  by (cases a; cases b; cases c) (simp_all add: less_dbl_def)

lemma dbl_le_trans: "(a :: dbl) \<le> b \<Longrightarrow> b \<le> c \<Longrightarrow> a \<le> c"
  by (cases a; cases b; cases c) (simp_all add: less_eq_dbl_def)

lemma dbl_le_less_trans: "(a :: dbl) \<le> b \<Longrightarrow> b < c \<Longrightarrow> a < c"
  by (cases a; cases b; cases c) (simp_all add: less_eq_dbl_def less_dbl_def)

lemma dbl_less_le_trans: "(a :: dbl) < b \<Longrightarrow> b \<le> c \<Longrightarrow> a < c"
  by (cases a; cases b; cases c) (simp_all add: less_eq_dbl_def less_dbl_def)

lemma dbl_not_less: "a \<noteq> NaN \<Longrightarrow> b \<noteq> NaN \<Longrightarrow> \<not> (a :: dbl) < b \<longleftrightarrow> b \<le> a"
  by (cases a; cases b) (auto simp: less_eq_dbl_def less_dbl_def)

lemma rnd_not_NaN [simp]: "rnd x \<noteq> NaN"
  by (simp add: rnd_def Let_def)

lemma rnd_mono: "x \<le> y \<Longrightarrow> rnd x \<le> rnd y"
  using round_exact_mono [of x y] by (auto simp: rnd_def Let_def less_eq_dbl_def)

subsection \<open>Monotone arithmetic\<close>

lemma dbl_extremes:
  "a \<noteq> NaN \<Longrightarrow> dbl_le a PInf" "a \<noteq> NaN \<Longrightarrow> dbl_le NInf a"
  by (cases a; simp)+

lemma rnd_le_Fin: "rnd y = Fin y \<Longrightarrow> x \<le> y \<Longrightarrow> rnd x \<le> Fin y"
  using rnd_mono [of x y] by simp

lemma Fin_le_rnd: "rnd y = Fin y \<Longrightarrow> y \<le> x \<Longrightarrow> Fin y \<le> rnd x"
  using rnd_mono [of y x] by simp

lemma dbl_mult_mono:
  assumes "a \<le> b" "0 < f" shows "a * Fin f \<le> b * Fin f"
proof -
  have "x * f \<le> y * f" if "x \<le> y" for x y using that assms(2) by simp
  then show ?thesis
    using assms by (cases a; cases b)
      (auto simp: less_eq_dbl_def times_dbl_def dbl_sgn_inf_def rnd_mono [unfolded less_eq_dbl_def]
        sgn_if dbl_extremes)
qed

lemma dbl_mult_commute: "a * b = b * (a :: dbl)"
  by (cases a; cases b) (simp_all add: times_dbl_def mult.commute)

lemma dbl_add_below:
  assumes "a \<le> Fin x" "b \<le> Fin y" shows "a + b \<le> rnd (x + y)"
  using assms by (cases a; cases b)
    (auto simp: less_eq_dbl_def plus_dbl_def rnd_mono [unfolded less_eq_dbl_def] add_mono dbl_extremes)

lemma dbl_add_above:
  assumes "Fin x \<le> a" "Fin y \<le> b" shows "rnd (x + y) \<le> a + b"
  using assms by (cases a; cases b)
    (auto simp: less_eq_dbl_def plus_dbl_def rnd_mono [unfolded less_eq_dbl_def] add_mono dbl_extremes)

subsection \<open>Ranges\<close>

lemma rnd_power2:
  assumes "-1022 \<le> e" "e \<le> 1022" shows "rnd (2 powi e) = Fin (2 powi e)"
proof -
  have eq: "(2 :: rat) powi e = 2 ^ 52 * 2 powi (e - 52)"
    by (simp add: power_int_diff)
  have "rnd (2 powi e) = Fin (of_int (2 ^ 52) * 2 powi (e - 52))"
  proof (rule rnd_eqI)
    show "\<bar>2 powi e :: rat\<bar> < 2 powi (e - 52 + 53)"
      by (simp add: power_int_strict_increasing)
    show "round_half_even (2 powi e / 2 powi (e - 52)) = 2 ^ 52"
      using round_half_even_of_int [of "2 ^ 52"] by (simp add: eq del: round_half_even_of_int)
  qed (use assms in simp_all)
  then show ?thesis by (simp add: eq)
qed

lemma rnd_enclose:
  assumes "a \<le> x" "x \<le> b" "rnd a = Fin a" "rnd b = Fin b"
  obtains y where "rnd x = Fin y" "a \<le> y" "y \<le> b"
  using rnd_mono [OF assms(1)] rnd_mono [OF assms(2)] assms(3,4)
  by (cases "rnd x") (auto simp: less_eq_dbl_def)

lemma rnd_u64_max: "rnd 18446744073709551616 = Fin 18446744073709551616"
  using rnd_power2 [of 64] by simp

lemma dbl_of_u64_range:
  obtains y where "dbl_of_u64 w = Fin y" "0 \<le> y" "y \<le> 18446744073709551616"
    "0 < uint w \<longrightarrow> 1 \<le> y"
proof -
  have u: "uint w < 18446744073709551616" using uint_lt2p [of w] by simp
  then have b: "of_int (uint w) \<le> (18446744073709551616 :: rat)"
    by (metis of_int_le_iff of_int_numeral less_imp_le)
  obtain y where y: "rnd (of_int (uint w)) = Fin y" "0 \<le> y" "y \<le> 18446744073709551616"
    by (rule rnd_enclose [OF _ b _ rnd_u64_max, of 0]) (auto simp del: of_int_uint)
  have "1 \<le> y" if "0 < uint w"
  proof -
    have "(1 :: rat) \<le> of_int (uint w)" using that
      by (simp del: of_int_uint add: of_int_1_le_iff)
    from rnd_mono [OF this] show ?thesis using y(1) by (simp add: less_eq_dbl_def)
  qed
  then show ?thesis using that y by (simp add: dbl_of_u64_def)
qed

lemma dbl_of_u64_mono:
  "uint v \<le> uint w \<Longrightarrow> dbl_of_u64 v \<le> dbl_of_u64 w"
  by (simp add: dbl_of_u64_def rnd_mono del: of_int_uint)

lemma dbl_of_u64_0: "dbl_of_u64 0 = Fin 0"
  by (simp add: dbl_of_u64_def)

end
