(* ===== verification/StdLib.thy ===== *)
theory StdLib
  imports Binary64
begin

section \<open>The standard library containers and algorithms the sources use\<close>

text \<open>
  \<open>std::sort\<close> with the comparison of \<open>include/utils.h\<close>, and \<open>std::map<int, T>\<close>
  as a list of pairs in increasing key order, which is also its iteration order.
  The order in which \<open>std::sort\<close> leaves equivalent elements is unspecified, so
  the definitions that sort take the sorting function as an argument and the
  locale \<open>std_sort\<close> states its contract. Both interfaces are interpreted here.
\<close>

subsection \<open>std::sort\<close>

definition compare_pairs_second :: "'k \<times> 'v::ord \<Rightarrow> 'k \<times> 'v \<Rightarrow> bool" where
  "compare_pairs_second lhs rhs = (snd lhs < snd rhs)"

text \<open>The precondition of \<open>std::sort\<close>: a strict weak order on the elements of the range.\<close>

definition strict_weak_on :: "('a \<Rightarrow> 'a \<Rightarrow> bool) \<Rightarrow> 'a set \<Rightarrow> bool" where
  "strict_weak_on lt A \<longleftrightarrow>
     (\<forall>x\<in>A. \<not> lt x x) \<and>
     (\<forall>x\<in>A. \<forall>y\<in>A. \<forall>z\<in>A. lt x y \<longrightarrow> lt y z \<longrightarrow> lt x z) \<and>
     (\<forall>x\<in>A. \<forall>y\<in>A. \<forall>z\<in>A. \<not> lt x y \<longrightarrow> \<not> lt y z \<longrightarrow> \<not> lt x z)"

lemma swo_irrefl: "strict_weak_on lt A \<Longrightarrow> x \<in> A \<Longrightarrow> \<not> lt x x"
  unfolding strict_weak_on_def by (elim conjE) (rule bspec)

lemma swo_trans:
  "strict_weak_on lt A \<Longrightarrow> x \<in> A \<Longrightarrow> y \<in> A \<Longrightarrow> z \<in> A \<Longrightarrow> lt x y \<Longrightarrow> lt y z \<Longrightarrow> lt x z"
  unfolding strict_weak_on_def by (elim conjE) metis

lemma swo_not_trans:
  "strict_weak_on lt A \<Longrightarrow> x \<in> A \<Longrightarrow> y \<in> A \<Longrightarrow> z \<in> A \<Longrightarrow> \<not> lt x y \<Longrightarrow> \<not> lt y z \<Longrightarrow> \<not> lt x z"
  unfolding strict_weak_on_def by (elim conjE) metis

lemma swo_asym:
  "strict_weak_on lt A \<Longrightarrow> x \<in> A \<Longrightarrow> y \<in> A \<Longrightarrow> lt x y \<Longrightarrow> \<not> lt y x"
  by (metis swo_irrefl swo_trans)

locale std_sort =
  fixes lt :: "'a \<Rightarrow> 'a \<Rightarrow> bool" and srt :: "'a list \<Rightarrow> 'a list"
  assumes srt_perm: "strict_weak_on lt (set xs) \<Longrightarrow> mset (srt xs) = mset xs"
    and srt_sorted: "strict_weak_on lt (set xs) \<Longrightarrow> sorted_wrt (\<lambda>x y. \<not> lt y x) (srt xs)"
begin

lemma srt_length: "strict_weak_on lt (set xs) \<Longrightarrow> length (srt xs) = length xs"
  using srt_perm by (metis size_mset)

lemma srt_set: "strict_weak_on lt (set xs) \<Longrightarrow> set (srt xs) = set xs"
  using srt_perm by (metis set_mset_mset)

lemma srt_first_least:
  assumes "strict_weak_on lt (set xs)" "x \<in> set xs" shows "\<not> lt x (hd (srt xs))"
proof -
  obtain y ys where s: "srt xs = y # ys" using assms srt_set [of xs] by (cases "srt xs") auto
  then have "x = y \<or> x \<in> set ys" "y \<in> set xs" using assms srt_set [of xs] by auto
  then show ?thesis
    using srt_sorted [OF assms(1)] swo_irrefl [OF assms(1)] s by auto
qed

lemma srt_last_greatest:
  assumes "strict_weak_on lt (set xs)" "x \<in> set xs" shows "\<not> lt (last (srt xs)) x"
proof -
  obtain ys y where s: "srt xs = ys @ [y]"
    using assms srt_set [of xs] by (cases "srt xs" rule: rev_cases) auto
  then have "x = y \<or> x \<in> set ys" "y \<in> set xs" using assms srt_set [of xs] by auto
  then show ?thesis
    using srt_sorted [OF assms(1)] swo_irrefl [OF assms(1)] s by (auto simp: sorted_wrt_append)
qed

end

lemma strict_weak_on_int [simp, intro]:
  "strict_weak_on (compare_pairs_second :: 'k \<times> int \<Rightarrow> 'k \<times> int \<Rightarrow> bool) A"
  by (auto simp: strict_weak_on_def compare_pairs_second_def)

lemma strict_weak_on_dbl:
  fixes A :: "('k \<times> dbl) set"
  assumes "\<forall>p\<in>A. snd p \<noteq> NaN"
  shows "strict_weak_on compare_pairs_second A"
  unfolding strict_weak_on_def compare_pairs_second_def
proof (intro conjI ballI impI)
  fix x y z assume "x \<in> A" "y \<in> A" "z \<in> A" "\<not> snd x < snd y" "\<not> snd y < snd z"
  then have "snd y \<le> snd x" "snd z \<le> snd y" using assms by (auto simp: dbl_not_less)
  then show "\<not> snd x < snd z" by (meson dbl_le_less_trans dbl_le_trans dbl_less_irrefl)
qed (auto intro: dbl_less_trans)

text \<open>
  A conforming sort: stable insertion, which is what \<open>std::sort\<close> does on short
  ranges in common implementations.
\<close>

fun linear_insert :: "('a \<Rightarrow> 'a \<Rightarrow> bool) \<Rightarrow> 'a \<Rightarrow> 'a list \<Rightarrow> 'a list" where
  "linear_insert lt x [] = [x]"
| "linear_insert lt x (y # ys) = (if lt x y then x # y # ys else y # linear_insert lt x ys)"

definition insertion_sort :: "('a \<Rightarrow> 'a \<Rightarrow> bool) \<Rightarrow> 'a list \<Rightarrow> 'a list" where
  "insertion_sort lt xs = foldl (\<lambda>ys x. linear_insert lt x ys) [] xs"

lemma mset_linear_insert: "mset (linear_insert lt x ys) = add_mset x (mset ys)"
  by (induction ys) auto

lemma set_linear_insert: "set (linear_insert lt x ys) = insert x (set ys)"
  by (induction ys) auto

lemma mset_foldl_insert:
  "mset (foldl (\<lambda>ys x. linear_insert lt x ys) acc xs) = mset acc + mset xs"
  by (induction xs arbitrary: acc) (auto simp: mset_linear_insert)

lemma sorted_linear_insert:
  assumes "strict_weak_on lt A" "insert x (set ys) \<subseteq> A" "sorted_wrt (\<lambda>x y. \<not> lt y x) ys"
  shows "sorted_wrt (\<lambda>x y. \<not> lt y x) (linear_insert lt x ys)"
  using assms(2,3)
proof (induction ys)
  case (Cons y ys)
  show ?case
  proof (cases "lt x y")
    case True
    then have yx: "\<not> lt y x" using swo_asym [OF assms(1), of x y] Cons.prems by simp
    then have "\<not> lt z x" if "z \<in> set ys" for z
      using swo_not_trans [OF assms(1), of z y x] that Cons.prems by auto
    then show ?thesis using True yx Cons.prems by auto
  next
    case False
    then show ?thesis using Cons by (auto simp: set_linear_insert)
  qed
qed simp

lemma sorted_foldl_insert:
  assumes "strict_weak_on lt A"
  shows "set acc \<union> set xs \<subseteq> A \<Longrightarrow> sorted_wrt (\<lambda>x y. \<not> lt y x) acc \<Longrightarrow>
    sorted_wrt (\<lambda>x y. \<not> lt y x) (foldl (\<lambda>ys x. linear_insert lt x ys) acc xs)"
proof (induction xs arbitrary: acc)
  case (Cons x xs)
  then show ?case
    using sorted_linear_insert [OF assms, of x acc] by (simp add: set_linear_insert)
qed simp

interpretation insertion: std_sort lt "insertion_sort lt" for lt
proof
  fix xs :: "'a list"
  show "mset (insertion_sort lt xs) = mset xs"
    by (simp add: insertion_sort_def mset_foldl_insert)
  assume "strict_weak_on lt (set xs)"
  then show "sorted_wrt (\<lambda>x y. \<not> lt y x) (insertion_sort lt xs)"
    unfolding insertion_sort_def by (rule sorted_foldl_insert) simp_all
qed

subsection \<open>std::map with int keys\<close>

type_synonym 'v cpp_map = "(int \<times> 'v) list"

definition map_find :: "'v cpp_map \<Rightarrow> int \<Rightarrow> 'v option" where
  "map_find m k = map_of m k"

text \<open>\<open>m[k] = v\<close>\<close>

fun map_assign :: "int \<Rightarrow> 'v \<Rightarrow> 'v cpp_map \<Rightarrow> 'v cpp_map" where
  "map_assign k v [] = [(k, v)]"
| "map_assign k v ((j, w) # m) =
     (if k < j then (k, v) # (j, w) # m
      else if k = j then (k, v) # m
      else (j, w) # map_assign k v m)"

text \<open>\<open>m.insert(make_pair(k, v))\<close> keeps an entry that is there.\<close>

definition map_insert :: "int \<Rightarrow> 'v \<Rightarrow> 'v cpp_map \<Rightarrow> 'v cpp_map" where
  "map_insert k v m = (if map_find m k = None then map_assign k v m else m)"

definition map_erase :: "int \<Rightarrow> 'v cpp_map \<Rightarrow> 'v cpp_map" where
  "map_erase k m = filter (\<lambda>p. fst p \<noteq> k) m"

definition map_keys :: "'v cpp_map \<Rightarrow> int list" where
  "map_keys m = map fst m"

text \<open>The representation invariant: the keys are in increasing order, without duplicates.\<close>

definition map_ok :: "'v cpp_map \<Rightarrow> bool" where
  "map_ok m \<longleftrightarrow> sorted_wrt (<) (map fst m)"

locale ordered_map =
  fixes find :: "'m \<Rightarrow> int \<Rightarrow> 'v option"
    and assign :: "int \<Rightarrow> 'v \<Rightarrow> 'm \<Rightarrow> 'm"
    and erase :: "int \<Rightarrow> 'm \<Rightarrow> 'm"
    and keys :: "'m \<Rightarrow> int list"
    and ok :: "'m \<Rightarrow> bool"
  assumes find_assign: "ok m \<Longrightarrow> find (assign k v m) = (find m)(k \<mapsto> v)"
    and find_erase: "ok m \<Longrightarrow> find (erase k m) = (find m)(k := None)"
    and ok_assign: "ok m \<Longrightarrow> ok (assign k v m)"
    and ok_erase: "ok m \<Longrightarrow> ok (erase k m)"
    and keys_dom: "ok m \<Longrightarrow> set (keys m) = dom (find m)"
    and keys_sorted: "ok m \<Longrightarrow> sorted_wrt (<) (keys m)"
begin

lemma keys_distinct: "ok m \<Longrightarrow> distinct (keys m)"
  using keys_sorted [of m] by (simp add: strict_sorted_iff)

lemma keys_eqI: "ok m \<Longrightarrow> ok n \<Longrightarrow> dom (find m) = dom (find n) \<Longrightarrow> keys m = keys n"
  using keys_dom keys_sorted strict_sorted_equal by metis

lemma keys_assign_present: "ok m \<Longrightarrow> find m k = Some w \<Longrightarrow> keys (assign k v m) = keys m"
  by (rule keys_eqI) (auto simp: find_assign ok_assign)

lemma keys_erase: "ok m \<Longrightarrow> set (keys (erase k m)) = set (keys m) - {k}"
  by (auto simp: keys_dom ok_erase find_erase split: if_splits)

end

lemma map_find_eq: "map_find m = map_of m"
  by (simp add: map_find_def fun_eq_iff)

lemma dom_map_of_assign: "fst ` set (map_assign k v m) = insert k (fst ` set m)"
  by (induction k v m rule: map_assign.induct) auto

lemma map_of_assign: "map_ok m \<Longrightarrow> map_of (map_assign k v m) = (map_of m)(k \<mapsto> v)"
  by (induction k v m rule: map_assign.induct) (auto simp: map_ok_def fun_eq_iff)

lemma map_ok_assign: "map_ok m \<Longrightarrow> map_ok (map_assign k v m)"
proof (induction k v m rule: map_assign.induct)
  case (2 k v j w m)
  then show ?case using dom_map_of_assign [of k v m] by (auto simp: map_ok_def)
qed (simp add: map_ok_def)

lemma map_of_erase: "map_of (map_erase k m) = (map_of m)(k := None)"
  by (induction m) (auto simp: map_erase_def fun_eq_iff)

interpretation vmap: ordered_map map_find map_assign map_erase map_keys map_ok
proof
  fix m :: "'v cpp_map" and k :: int and v :: 'v
  assume ok: "map_ok m"
  show "map_find (map_assign k v m) = (map_find m)(k \<mapsto> v)"
    using map_of_assign [OF ok] by (simp add: map_find_def fun_eq_iff)
  show "map_find (map_erase k m) = (map_find m)(k := None)"
    using map_of_erase [of k m] by (simp add: map_find_def fun_eq_iff)
  show "map_ok (map_assign k v m)" by (rule map_ok_assign [OF ok])
  show "map_ok (map_erase k m)"
    using ok by (auto simp: map_ok_def map_erase_def sorted_wrt_map intro: sorted_wrt_filter)
  show "set (map_keys m) = dom (map_find m)"
    by (simp add: map_keys_def map_find_eq dom_map_of_conv_image_fst)
  show "sorted_wrt (<) (map_keys m)" using ok by (simp add: map_keys_def map_ok_def)
qed

lemma map_find_insert:
  "map_ok m \<Longrightarrow> map_find (map_insert k v m) j =
     (if j = k \<and> map_find m k = None then Some v else map_find m j)"
  by (auto simp: map_insert_def vmap.find_assign)

lemma map_ok_insert: "map_ok m \<Longrightarrow> map_ok (map_insert k v m)"
  by (simp add: map_insert_def vmap.ok_assign)

lemma map_ok_Nil [simp]: "map_ok []"
  by (simp add: map_ok_def)

lemma map_find_Nil [simp]: "map_find [] k = None"
  by (simp add: map_find_def)

lemma map_find_in_set: "map_ok m \<Longrightarrow> map_find m k = Some v \<longleftrightarrow> (k, v) \<in> set m"
  by (auto simp: map_find_def map_ok_def strict_sorted_iff intro: map_of_SomeD map_of_is_SomeI)

text \<open>A loop over the map that changes each value in place keeps the keys.\<close>

lemma map_ok_map_values:
  "map_ok m \<Longrightarrow> map_ok (map (\<lambda>(k, v). (k, f k v)) m)"
  by (simp add: map_ok_def o_def case_prod_unfold)

lemma map_find_map_values:
  "map_find (map (\<lambda>(k, v). (k, f k v)) m) k = map_option (f k) (map_find m k)"
  by (induction m) (auto simp: map_find_def)

end
