(* ===== verification/CLib.thy ===== *)
theory CLib
  imports StdLib
begin

section \<open>The C library functions the sources parse text with\<close>

text \<open>
  A C string is the list of its characters before the terminating NUL, a
  pointer into it the rest of the list, a file its contents. \<open>strtol\<close> and
  \<open>strtoul\<close> are those of a 64-bit Linux in the C locale, with the end pointer
  as second result; the conversions of the \<open>scanf\<close> family are the same
  functions followed by the store at the width of the argument.
\<close>

subsection \<open>Characters\<close>

abbreviation NUL :: char where "NUL \<equiv> CHR 0x00"
abbreviation newline :: char where "newline \<equiv> CHR 0x0A"
abbreviation quote :: char where "quote \<equiv> CHR 0x27"

definition isspace :: "char \<Rightarrow> bool" where
  "isspace c \<longleftrightarrow> c = CHR 0x20 \<or> c = CHR 0x09 \<or> c = CHR 0x0A \<or> c = CHR 0x0B \<or> c = CHR 0x0C \<or> c = CHR 0x0D"

definition isalpha :: "char \<Rightarrow> bool" where
  "isalpha c \<longleftrightarrow>
     (let n = of_char c :: nat in 65 \<le> n \<and> n \<le> 90 \<or> 97 \<le> n \<and> n \<le> 122)"

text \<open>The value of a digit or letter as a digit, 36 for every other character.\<close>

definition digit_val :: "char \<Rightarrow> nat" where
  "digit_val c =
     (let n = of_char c :: nat
      in if 48 \<le> n \<and> n \<le> 57 then n - 48
         else if 65 \<le> n \<and> n \<le> 90 then n - 55
         else if 97 \<le> n \<and> n \<le> 122 then n - 87 else 36)"

text \<open>\<open>p[0]\<close>, and the string a buffer holds.\<close>

definition char_at :: "string \<Rightarrow> char" where
  "char_at s = (case s of [] \<Rightarrow> NUL | c # _ \<Rightarrow> c)"

definition c_str :: "string \<Rightarrow> string" where
  "c_str s = takeWhile (\<lambda>c. c \<noteq> NUL) s"

lemma char_at_replicate: "n \<noteq> 0 \<Longrightarrow> char_at (replicate n c) = c"
  by (cases n) (auto simp: char_at_def)

subsection \<open>Numbers\<close>

definition skip_space :: "string \<Rightarrow> string" where
  "skip_space s = dropWhile isspace s"

definition scan_sign :: "string \<Rightarrow> bool \<times> string" where
  "scan_sign s =
     (if char_at s = CHR ''-'' then (True, tl s)
      else if char_at s = CHR ''+'' then (False, tl s) else (False, s))"

definition hex_prefix :: "string \<Rightarrow> bool" where
  "hex_prefix s \<longleftrightarrow>
     char_at s = CHR ''0'' \<and> (char_at (tl s) = CHR ''x'' \<or> char_at (tl s) = CHR ''X'') \<and>
     digit_val (char_at (drop 2 s)) < 16"

definition scan_prefix :: "nat \<Rightarrow> string \<Rightarrow> nat \<times> string" where
  "scan_prefix base s =
     (if (base = 0 \<or> base = 16) \<and> hex_prefix s then (16, drop 2 s)
      else if base = 0 then (if char_at s = CHR ''0'' then 8 else 10, s)
      else (base, s))"

fun scan_digits :: "nat \<Rightarrow> nat \<Rightarrow> string \<Rightarrow> nat \<times> string" where
  "scan_digits b n [] = (n, [])"
| "scan_digits b n (c # cs) =
     (if digit_val c < b then scan_digits b (n * b + digit_val c) cs else (n, c # cs))"

text \<open>Sign, magnitude and rest, or \<open>None\<close> when there is nothing to convert.\<close>

definition scan_number :: "nat \<Rightarrow> string \<Rightarrow> (bool \<times> nat \<times> string) option" where
  "scan_number base s =
     (let (neg, r) = scan_sign (skip_space s); (b, d) = scan_prefix base r
      in if digit_val (char_at d) < b then Some (neg, scan_digits b 0 d) else None)"

definition strtol :: "nat \<Rightarrow> string \<Rightarrow> int \<times> string" where
  "strtol base s =
     (case scan_number base s of
        None \<Rightarrow> (0, s)
      | Some (neg, n, r) \<Rightarrow>
          (max (- 9223372036854775808) (min 9223372036854775807 (if neg then - int n else int n)), r))"

definition strtoul :: "nat \<Rightarrow> string \<Rightarrow> u64 \<times> string" where
  "strtoul base s =
     (case scan_number base s of
        None \<Rightarrow> (0, s)
      | Some (neg, n, r) \<Rightarrow>
          (if 18446744073709551616 \<le> n then - 1
           else if neg then - of_nat n else of_nat n, r))"

text \<open>A \<open>long\<close> stored in an \<open>int\<close>.\<close>

definition long_to_int :: "int \<Rightarrow> int" where
  "long_to_int v = sint (word_of_int v :: u32)"

text \<open>The conversions \<open>%d\<close>, \<open>%u\<close> and \<open>%llu\<close>; \<open>None\<close> is a matching failure.\<close>

definition scan_d :: "string \<Rightarrow> (int \<times> string) option" where
  "scan_d s =
     (if scan_number 10 s = None then None
      else Some (long_to_int (fst (strtol 10 s)), snd (strtol 10 s)))"

definition scan_u :: "string \<Rightarrow> (u32 \<times> string) option" where
  "scan_u s =
     (if scan_number 10 s = None then None
      else Some (ucast (fst (strtoul 10 s)), snd (strtoul 10 s)))"

definition scan_llu :: "string \<Rightarrow> (u64 \<times> string) option" where
  "scan_llu s = (if scan_number 10 s = None then None else Some (strtoul 10 s))"

text \<open>A run of \<open>n\<close> conversions \<open>%llu\<close>: the values up to the first failure.\<close>

fun scan_llus :: "nat \<Rightarrow> string \<Rightarrow> u64 list" where
  "scan_llus 0 s = []"
| "scan_llus (Suc n) s =
     (case scan_llu s of None \<Rightarrow> [] | Some (v, r) \<Rightarrow> v # scan_llus n r)"

text \<open>Literal text of a format, and the conversion \<open>%s\<close>.\<close>

fun scan_lit :: "string \<Rightarrow> string \<Rightarrow> string option" where
  "scan_lit [] s = Some s"
| "scan_lit (c # cs) s =
     (case s of [] \<Rightarrow> None | d # ds \<Rightarrow> if c = d then scan_lit cs ds else None)"

definition scan_s :: "string \<Rightarrow> string option" where
  "scan_s s =
     (let w = takeWhile (\<lambda>c. \<not> isspace c) (skip_space s) in if w = [] then None else Some w)"

subsection \<open>Printing\<close>

fun show_nat :: "nat \<Rightarrow> string" where
  "show_nat n =
     (if n < 10 then [char_of (48 + n)] else show_nat (n div 10) @ [char_of (48 + n mod 10)])"

declare show_nat.simps [simp del]

definition show_int :: "int \<Rightarrow> string" where
  "show_int i = (if i < 0 then CHR ''-'' # show_nat (nat (- i)) else show_nat (nat i))"

text \<open>\<open>snprintf\<close> into a buffer of \<open>n\<close> bytes keeps the first \<open>n - 1\<close> characters.\<close>

definition snprintf :: "nat \<Rightarrow> string \<Rightarrow> string" where
  "snprintf n s = take (n - 1) s"

subsection \<open>Searching and splitting\<close>

fun strstr :: "string \<Rightarrow> string \<Rightarrow> string option" where
  "strstr [] pat = (if pat = [] then Some [] else None)"
| "strstr (c # cs) pat =
     (if take (length pat) (c # cs) = pat then Some (c # cs) else strstr cs pat)"

text \<open>The tokens \<open>strtok\<close> returns one after the other.\<close>

function strtok :: "(char \<Rightarrow> bool) \<Rightarrow> string \<Rightarrow> string list" where
  "strtok delim s =
     (case dropWhile delim s of
        [] \<Rightarrow> []
      | c # cs \<Rightarrow> (c # takeWhile (\<lambda>x. \<not> delim x) cs) # strtok delim (dropWhile (\<lambda>x. \<not> delim x) cs))"
  by pat_completeness auto
termination
proof (relation "measure (length \<circ> snd)", goal_cases)
  case (2 delim s c cs)
  then show ?case
    using length_dropWhile_le [of "\<lambda>x. \<not> delim x" cs] length_dropWhile_le [of delim s] by simp
qed simp

declare strtok.simps [simp del]

text \<open>
  One \<open>fgets\<close> with room for \<open>n\<close> characters, and the lines a loop over \<open>fgets\<close>
  sees, for a buffer of \<open>n + 1\<close> bytes.
\<close>

fun fgets :: "nat \<Rightarrow> string \<Rightarrow> string \<times> string" where
  "fgets 0 s = ([], s)"
| "fgets (Suc n) [] = ([], [])"
| "fgets (Suc n) (c # cs) =
     (if c = newline then ([c], cs) else (let (l, r) = fgets n cs in (c # l, r)))"

lemma fgets_append: "fgets n s = (l, r) \<Longrightarrow> l @ r = s"
  by (induction n s arbitrary: l r rule: fgets.induct) (auto split: if_splits prod.splits)

lemma fgets_length: "fgets n s = (l, r) \<Longrightarrow> length l \<le> n"
  by (induction n s arbitrary: l r rule: fgets.induct) (auto split: if_splits prod.splits)

lemma fgets_less: "s \<noteq> [] \<Longrightarrow> n \<noteq> 0 \<Longrightarrow> length (snd (fgets n s)) < length s"
proof (induction n s rule: fgets.induct)
  case (3 n c cs)
  then show ?case
    using fgets_append [of n cs] by (cases "fgets n cs") auto
qed auto

function fgets_loop :: "nat \<Rightarrow> string \<Rightarrow> string list" where
  "fgets_loop n s =
     (if s = [] \<or> n = 0 then []
      else fst (fgets n s) # fgets_loop n (snd (fgets n s)))"
  by pat_completeness auto
termination by (relation "measure (length \<circ> snd)") (auto simp: fgets_less)

declare fgets_loop.simps [simp del]

subsection \<open>What the functions promise\<close>

lemma fgets_loop_concat: "n \<noteq> 0 \<Longrightarrow> concat (fgets_loop n s) = s"
proof (induction n s rule: fgets_loop.induct)
  case (1 n s)
  then show ?case
    by (subst fgets_loop.simps) (auto simp: fgets_append prod_eq_iff)
qed

lemma fgets_loop_length: "l \<in> set (fgets_loop n s) \<Longrightarrow> length l \<le> n"
proof (induction n s rule: fgets_loop.induct)
  case (1 n s)
  then show ?case
    using fgets_length [of n s "fst (fgets n s)" "snd (fgets n s)"]
    by (auto simp: fgets_loop.simps [of n s] split: if_splits)
qed

lemma fgets_line: "length l < n \<Longrightarrow> newline \<notin> set l \<Longrightarrow> fgets n (l @ newline # r) = (l @ [newline], r)"
proof (induction l arbitrary: n)
  case Nil
  then show ?case by (cases n) auto
next
  case (Cons c l)
  then obtain m where "n = Suc m" by (cases n) auto
  then show ?case using Cons.IH [of m] Cons.prems by auto
qed

text \<open>A file of lines that fit the buffer is read line by line.\<close>

lemma fgets_loop_lines:
  assumes "\<And>l. l \<in> set ls \<Longrightarrow> length l < n \<and> newline \<notin> set l"
  shows "fgets_loop n (concat (map (\<lambda>l. l @ [newline]) ls)) = map (\<lambda>l. l @ [newline]) ls"
  using assms
proof (induction ls)
  case (Cons l ls)
  then have "0 < n" by fastforce
  then show ?case using Cons by (subst fgets_loop.simps) (simp add: fgets_line)
qed (simp add: fgets_loop.simps)

text \<open>Digits: printing and reading a number.\<close>

text \<open>The digits, for evaluating printed numbers.\<close>

lemma digit_chars:
  "char_of (48 :: nat) = CHR ''0''" "char_of (49 :: nat) = CHR ''1''" "char_of (50 :: nat) = CHR ''2''" "char_of (51 :: nat) = CHR ''3''" "char_of (52 :: nat) = CHR ''4''"
    "char_of (53 :: nat) = CHR ''5''" "char_of (54 :: nat) = CHR ''6''" "char_of (55 :: nat) = CHR ''7''" "char_of (56 :: nat) = CHR ''8''" "char_of (57 :: nat) = CHR ''9''"
  by (simp_all add: char_of_eq_iff take_bit_eq_mod)

lemma digit_val_char: "d < 10 \<Longrightarrow> digit_val (char_of (48 + d)) = d"
  by (simp add: digit_val_def of_char_of)

lemma scan_digits_append:
  "(\<And>c. c \<in> set ds \<Longrightarrow> digit_val c < b) \<Longrightarrow>
   scan_digits b n (ds @ r) = scan_digits b (fst (scan_digits b n ds)) r"
  by (induction ds arbitrary: n) auto

lemma show_nat_digits: "c \<in> set (show_nat n) \<Longrightarrow> digit_val c < 10"
proof (induction n rule: show_nat.induct)
  case (1 n)
  then show ?case
    by (cases "n < 10") (auto simp: show_nat.simps [of n] digit_val_char)
qed

lemma scan_show_nat: "fst (scan_digits 10 0 (show_nat n)) = n"
proof (induction n rule: show_nat.induct)
  case (1 n)
  show ?case
  proof (cases "n < 10")
    case True
    then show ?thesis by (simp add: show_nat.simps [of n] digit_val_char)
  next
    case False
    then show ?thesis
      using 1 by (simp add: show_nat.simps [of n] scan_digits_append [OF show_nat_digits]
        digit_val_char mult.commute)
  qed
qed

lemma scan_digits_stop: "\<not> digit_val (char_at r) < b \<Longrightarrow> scan_digits b n r = (n, r)"
  by (cases r) (auto simp: char_at_def)

lemma scan_show_nat_append:
  "\<not> digit_val (char_at r) < 10 \<Longrightarrow> scan_digits 10 0 (show_nat n @ r) = (n, r)"
  by (simp add: scan_digits_append [OF show_nat_digits] scan_show_nat scan_digits_stop)

lemma show_nat_nonempty [simp]: "show_nat n \<noteq> []"
  by (subst show_nat.simps) simp

lemma digit_not_space_sign:
  "digit_val c < 10 \<Longrightarrow> \<not> isspace c \<and> c \<noteq> CHR ''-'' \<and> c \<noteq> CHR ''+'' \<and> c \<noteq> NUL"
  by (auto simp: isspace_def digit_val_def)

lemma scan_number_show_nat:
  assumes "\<not> digit_val (char_at r) < 10" "\<forall>c\<in>set sp. isspace c"
  shows "scan_number 10 (sp @ show_nat n @ r) = Some (False, n, r)"
proof -
  obtain c cs where s: "show_nat n = c # cs" by (cases "show_nat n") auto
  then have c: "digit_val c < 10" using show_nat_digits [of c n] by simp
  have "skip_space (sp @ show_nat n @ r) = show_nat n @ r"
    using assms(2) c by (simp add: skip_space_def dropWhile_append2 s digit_not_space_sign)
  moreover have "scan_sign (show_nat n @ r) = (False, show_nat n @ r)"
    using c by (simp add: scan_sign_def char_at_def s digit_not_space_sign)
  moreover have "digit_val (char_at (show_nat n @ r)) < 10" using c by (simp add: char_at_def s)
  ultimately show ?thesis
    by (simp add: scan_number_def scan_prefix_def scan_show_nat_append [OF assms(1)])
qed

lemma strtol_show_nat:
  assumes "n < 2 ^ 63" "\<not> digit_val (char_at r) < 10"
  shows "strtol 10 (show_nat n @ r) = (int n, r)"
  using scan_number_show_nat [OF assms(2), of "[]" n] assms(1) by (simp add: strtol_def)

lemma strtoul_show_nat:
  assumes "n < 2 ^ 64" "\<not> digit_val (char_at r) < 10" "\<forall>c\<in>set sp. isspace c"
  shows "strtoul 10 (sp @ show_nat n @ r) = (of_nat n, r)"
  using scan_number_show_nat [OF assms(2,3), of n] assms(1) by (simp add: strtoul_def)

lemma scan_llu_show_nat:
  assumes "n < 2 ^ 64" "\<not> digit_val (char_at r) < 10" "\<forall>c\<in>set sp. isspace c"
  shows "scan_llu (sp @ show_nat n @ r) = Some (of_nat n, r)"
  using scan_number_show_nat [OF assms(2,3), of n] strtoul_show_nat [OF assms]
  by (simp add: scan_llu_def)

text \<open>A line of numbers separated by blanks.\<close>

definition spaced :: "nat list \<Rightarrow> string" where
  "spaced ns = concat (map (\<lambda>n. CHR '' '' # show_nat n) ns)"

lemma spaced_not_digit: "\<not> digit_val (char_at r) < 10 \<Longrightarrow> \<not> digit_val (char_at (spaced ns @ r)) < 10"
  by (cases ns) (auto simp: spaced_def char_at_def digit_val_def)

lemma scan_llus_spaced:
  assumes "\<And>n. n \<in> set ns \<Longrightarrow> n < 2 ^ 64" "\<not> digit_val (char_at r) < 10"
  shows "scan_llus (length ns) (spaced ns @ r) = map of_nat ns"
  using assms(1)
proof (induction ns)
  case (Cons n ns)
  have "scan_llu ([CHR '' ''] @ show_nat n @ (spaced ns @ r)) = Some (of_nat n, spaced ns @ r)"
    by (rule scan_llu_show_nat) (use Cons.prems spaced_not_digit [OF assms(2)] in \<open>auto simp: isspace_def\<close>)
  then show ?case using Cons by (simp add: spaced_def)
qed simp

lemma scan_llus_length: "length (scan_llus n s) \<le> n"
  by (induction n s rule: scan_llus.induct) (auto split: option.splits)

lemma scan_lit_append: "scan_lit l (l @ s) = Some s"
  by (induction l) auto

lemma strstr_none: "c \<in> set pat \<Longrightarrow> c \<notin> set s \<Longrightarrow> strstr s pat = None"
proof (induction s)
  case (Cons d s)
  then have "take (length pat) (d # s) \<noteq> pat"
    using set_take_subset [of "length pat" "d # s"] by auto
  then show ?case using Cons by simp
qed auto

lemma strstr_prefix: "strstr (pat @ s) pat = Some (pat @ s)"
  by (cases "pat @ s") (auto dest: arg_cong [where f = "take (length pat)"])

lemma fgets_loop_line:
  "length l < n \<Longrightarrow> newline \<notin> set l \<Longrightarrow>
   fgets_loop n (l @ newline # r) = (l @ [newline]) # fgets_loop n r"
  by (subst fgets_loop.simps) (simp add: fgets_line)

lemma fgets_loop_Nil [simp]: "fgets_loop n [] = []"
  by (simp add: fgets_loop.simps)

lemma scan_number_space: "isspace c \<Longrightarrow> scan_number b (c # s) = scan_number b s"
  by (simp add: scan_number_def skip_space_def)

lemma scan_llus_space: "isspace c \<Longrightarrow> scan_llus n (c # s) = scan_llus n s"
  by (cases n) (auto simp: scan_llu_def strtoul_def scan_number_space split: option.splits)

lemma c_str_id: "NUL \<notin> set s \<Longrightarrow> c_str s = s"
  by (auto simp: c_str_def takeWhile_eq_all_conv)

lemma show_nat_clean: "newline \<notin> set (show_nat n)" "NUL \<notin> set (show_nat n)"
  using show_nat_digits [of newline n] show_nat_digits [of NUL n] by (auto simp: digit_val_def)

lemma spaced_clean: "newline \<notin> set (spaced ns)" "NUL \<notin> set (spaced ns)"
  by (auto simp: spaced_def show_nat_clean)

lemma show_nat_length: "n < 10 ^ Suc d \<Longrightarrow> length (show_nat n) \<le> Suc d"
proof (induction d arbitrary: n)
  case 0
  then show ?case by (simp add: show_nat.simps [of n])
next
  case (Suc d)
  then have "n div 10 < 10 ^ Suc d" by (simp add: less_mult_imp_div_less)
  then show ?case using Suc.IH [of "n div 10"] by (subst show_nat.simps) simp
qed

lemma spaced_length:
  assumes "\<And>n. n \<in> set ns \<Longrightarrow> n < 2 ^ 64"
  shows "length (spaced ns) \<le> 21 * length ns"
  using assms
proof (induction ns)
  case (Cons n ns)
  then have "n < 10 ^ Suc 19" by fastforce
  then show ?case using Cons show_nat_length [of n 19] by (simp add: spaced_def)
qed (simp add: spaced_def)

lemma fgets_full: "newline \<notin> set l \<Longrightarrow> fgets (length l) (l @ r) = (l, r)"
  by (induction l) auto

lemma fgets_loop_full:
  "l \<noteq> [] \<Longrightarrow> newline \<notin> set l \<Longrightarrow> length l = n \<Longrightarrow> fgets_loop n (l @ r) = l # fgets_loop n r"
  by (subst fgets_loop.simps) (auto simp: fgets_full)

subsection \<open>Floating point numbers in text\<close>

text \<open>
  \<open>%f\<close> prints six decimals, rounded half to even from the exact value. \<open>%lf\<close> reads
  the decimal notation with an optional exponent, and \<open>inf\<close> and \<open>nan\<close>; the
  hexadecimal notation, which the program never writes, is not covered, and the
  sign of a NaN is not kept.
\<close>

definition show_decimals :: "nat \<Rightarrow> string" where
  "show_decimals m =
     (let f = show_nat (m mod 1000000)
      in show_nat (m div 1000000) @ CHR ''.'' # replicate (6 - length f) (CHR ''0'') @ f)"

fun show_f :: "dbl \<Rightarrow> string" where
  "show_f (Fin x) =
     (if x < 0 then CHR ''-'' # show_decimals (nat (round_half_even (- x * 1000000)))
      else show_decimals (nat (round_half_even (x * 1000000))))"
| "show_f PInf = ''inf''"
| "show_f NInf = ''-inf''"
| "show_f NaN = ''nan''"

definition is_dec_digit :: "char \<Rightarrow> bool" where
  "is_dec_digit c \<longleftrightarrow> digit_val c < 10"

definition span_digits :: "string \<Rightarrow> string \<times> string" where
  "span_digits s = (takeWhile is_dec_digit s, dropWhile is_dec_digit s)"

definition digits_value :: "string \<Rightarrow> nat" where
  "digits_value ds = fst (scan_digits 10 0 ds)"

definition scan_exponent :: "string \<Rightarrow> (int \<times> string) option" where
  "scan_exponent s =
     (if char_at s = CHR ''e'' \<or> char_at s = CHR ''E''
      then (let (neg, r) = scan_sign (tl s); (d, r') = span_digits r
            in if d = [] then None
               else Some (if neg then - int (digits_value d) else int (digits_value d), r'))
      else Some (0, s))"

definition to_lower :: "char \<Rightarrow> char" where
  "to_lower c = (let n = of_char c :: nat in if 65 \<le> n \<and> n \<le> 90 then char_of (n + 32) else c)"

definition scan_special :: "bool \<Rightarrow> string \<Rightarrow> (dbl \<times> string) option" where
  "scan_special neg s =
     (if map to_lower (take 8 s) = ''infinity'' then Some (if neg then NInf else PInf, drop 8 s)
      else if map to_lower (take 3 s) = ''inf'' then Some (if neg then NInf else PInf, drop 3 s)
      else if map to_lower (take 3 s) = ''nan'' then Some (NaN, drop 3 s)
      else None)"

definition scan_lf :: "string \<Rightarrow> (dbl \<times> string) option" where
  "scan_lf s =
     (let (neg, r) = scan_sign (skip_space s);
          (a, r1) = span_digits r;
          (b, r2) = (if char_at r1 = CHR ''.'' then span_digits (tl r1) else ([], r1))
      in if a = [] \<and> b = [] then scan_special neg r
         else (case scan_exponent r2 of
                 None \<Rightarrow> None
               | Some (e, r3) \<Rightarrow>
                   (let m = of_nat (digits_value (a @ b)) * 10 powi (e - int (length b))
                    in Some (rnd (if neg then - m else m), r3))))"

text \<open>What is read back is the number rounded to six decimals.\<close>

definition six_decimals :: "dbl \<Rightarrow> dbl" where
  "six_decimals d =
     (case d of Fin x \<Rightarrow> rnd (of_int (round_half_even (x * 1000000)) / 1000000) | _ \<Rightarrow> d)"

lemma scan_digits_value:
  "\<forall>c\<in>set ds. is_dec_digit c \<Longrightarrow> fst (scan_digits 10 n ds) = n * 10 ^ length ds + digits_value ds"
proof (induction ds arbitrary: n)
  case (Cons c ds)
  have "fst (scan_digits 10 (n * 10 + digit_val c) ds) =
      (n * 10 + digit_val c) * 10 ^ length ds + digits_value ds"
    using Cons by simp
  moreover have "fst (scan_digits 10 (digit_val c) ds) = digit_val c * 10 ^ length ds + digits_value ds"
    using Cons by simp
  ultimately show ?case using Cons.prems by (simp add: digits_value_def is_dec_digit_def algebra_simps)
qed (simp add: digits_value_def)

lemma digits_value_append:
  assumes "\<forall>c\<in>set (as @ bs). is_dec_digit c"
  shows "digits_value (as @ bs) = digits_value as * 10 ^ length bs + digits_value bs"
  using scan_digits_append [of as 10 0 bs] scan_digits_value [of bs "digits_value as"] assms
  by (auto simp: digits_value_def is_dec_digit_def)

lemma show_nat_dec: "\<forall>c\<in>set (show_nat n). is_dec_digit c"
  using show_nat_digits by (auto simp: is_dec_digit_def)

lemma digits_value_show_nat [simp]: "digits_value (show_nat n) = n"
  by (simp add: digits_value_def scan_show_nat)

lemma digits_value_zeros: "digits_value (replicate k (CHR ''0'')) = 0"
  by (induction k) (auto simp: digits_value_def digit_val_def)

lemma span_digits_append:
  "\<forall>c\<in>set ds. is_dec_digit c \<Longrightarrow> \<not> is_dec_digit (char_at r) \<Longrightarrow> span_digits (ds @ r) = (ds, r)"
  by (cases r) (auto simp: span_digits_def takeWhile_append2 dropWhile_append2 char_at_def
      takeWhile_eq_all_conv)

text \<open>Integer part and six decimals of what \<open>%f\<close> prints.\<close>

lemma show_decimals_parts:
  obtains q b where "show_decimals m = q @ CHR ''.'' # b" "q \<noteq> []" "length b = 6"
    "\<forall>c\<in>set q. is_dec_digit c" "\<forall>c\<in>set b. is_dec_digit c" "digits_value (q @ b) = m"
proof -
  let ?q = "show_nat (m div 1000000)"
  let ?f = "show_nat (m mod 1000000)"
  let ?b = "replicate (6 - length ?f) (CHR ''0'') @ ?f"
  have len: "length ?b = 6" using show_nat_length [of "m mod 1000000" 5] by simp
  have dig: "\<forall>c\<in>set ?b. is_dec_digit c" "\<forall>c\<in>set (?q @ ?b). is_dec_digit c"
    using show_nat_dec by (auto simp: is_dec_digit_def digit_val_def)
  have vb: "digits_value ?b = m mod 1000000"
    using digits_value_append [OF dig(1)] by (simp add: digits_value_zeros)
  have "digits_value (?q @ ?b) = digits_value ?q * 10 ^ length ?b + digits_value ?b"
    by (rule digits_value_append [OF dig(2)])
  then have v: "digits_value (?q @ ?b) = m" unfolding len vb digits_value_show_nat by simp
  show ?thesis
    by (rule that [OF _ _ len _ dig(1) v]) (simp_all add: show_decimals_def Let_def show_nat_dec)
qed

lemma scan_show_decimals:
  assumes "\<not> is_dec_digit (char_at r)" "char_at r \<noteq> CHR ''e''" "char_at r \<noteq> CHR ''E''"
  shows "scan_lf (show_decimals m @ r) = Some (rnd (of_nat m / 1000000), r)" (is "?A")
    "scan_lf (CHR ''-'' # show_decimals m @ r) = Some (rnd (- (of_nat m / 1000000)), r)" (is "?B")
proof -
  obtain q b where p: "show_decimals m = q @ CHR ''.'' # b" "q \<noteq> []" "length b = 6"
    "\<forall>c\<in>set q. is_dec_digit c" "\<forall>c\<in>set b. is_dec_digit c" "digits_value (q @ b) = m"
    by (rule show_decimals_parts)
  let ?s = "q @ CHR ''.'' # b @ r"
  obtain c cs where q: "q = c # cs" using p(2) by (cases q) auto
  then have c: "digit_val c < 10" using p(4) by (simp add: is_dec_digit_def)
  have 1: "skip_space ?s = ?s" "scan_sign ?s = (False, ?s)"
    "skip_space (CHR ''-'' # ?s) = CHR ''-'' # ?s" "scan_sign (CHR ''-'' # ?s) = (True, ?s)"
    using digit_not_space_sign [OF c] unfolding q
    by (simp_all add: skip_space_def scan_sign_def char_at_def isspace_def)
  have "\<not> is_dec_digit (char_at (CHR ''.'' # b @ r))"
    by (simp add: char_at_def is_dec_digit_def digit_val_def)
  then have 2: "span_digits ?s = (q, CHR ''.'' # b @ r)"
    by (rule span_digits_append [OF p(4)])
  have 3: "span_digits (b @ r) = (b, r)" by (rule span_digits_append [OF p(5) assms(1)])
  have 4: "scan_exponent r = Some (0, r)" using assms by (simp add: scan_exponent_def)
  have 5: "(of_nat m :: rat) * 10 powi - int (length b) = of_nat m / 1000000"
    unfolding p(3) by (simp add: power_int_def field_simps)
  show ?A ?B
    unfolding p(1) scan_lf_def
    by (simp_all add: 1 2 3 4 p(2,6) 5 char_at_def Let_def)
qed

lemma scan_show_f:
  assumes "\<not> is_dec_digit (char_at r)" "char_at r \<noteq> CHR ''e''" "char_at r \<noteq> CHR ''E''"
  shows "scan_lf (show_f (Fin x) @ r) = Some (six_decimals (Fin x), r)"
proof (cases "x < 0")
  case True
  then have "0 \<le> round_half_even (- x * 1000000)"
    using round_half_even_mono [of 0 "- x * 1000000"] round_half_even_of_int [of 0] by simp
  then show ?thesis
    using True scan_show_decimals(2) [OF assms, of "nat (round_half_even (- x * 1000000))"]
    by (simp add: six_decimals_def round_half_even_minus)
next
  case False
  then have "0 \<le> round_half_even (x * 1000000)"
    using round_half_even_mono [of 0 "x * 1000000"] round_half_even_of_int [of 0] by simp
  then show ?thesis
    using False scan_show_decimals(1) [OF assms, of "nat (round_half_even (x * 1000000))"]
    by (simp add: six_decimals_def)
qed

lemma six_decimals_mono:
  assumes "x \<le> y" shows "six_decimals (Fin x) \<le> six_decimals (Fin y)"
  unfolding six_decimals_def
  using assms by (auto intro!: rnd_mono divide_right_mono round_half_even_mono mult_right_mono)

end
