(* ===== verification/VMInfo.thy ===== *)
theory VMInfo
  imports StdLib
begin

section \<open>The data the components exchange\<close>

text \<open>
  The classes of \<open>include/VM_info.h\<close>, \<open>include/Numa_node.h\<close> and
  \<open>include/Decision.h\<close>. A field that a constructor leaves uninitialised keeps
  what the storage held before, so the constructor of \<open>VM_info\<close> is a function of
  the previous contents. A \<open>std::set<int>\<close> is the list of its elements in
  iteration order. A libvirt pointer is an opaque handle, \<open>None\<close> being \<open>NULL\<close>.
\<close>

type_synonym vir_ptr = "int option"

text \<open>The domain life-cycle events of libvirt, in the order of its enumeration.\<close>

datatype vir_event =
    VIR_DOMAIN_EVENT_DEFINED | VIR_DOMAIN_EVENT_UNDEFINED | VIR_DOMAIN_EVENT_STARTED
  | VIR_DOMAIN_EVENT_SUSPENDED | VIR_DOMAIN_EVENT_RESUMED | VIR_DOMAIN_EVENT_STOPPED
  | VIR_DOMAIN_EVENT_SHUTDOWN | VIR_DOMAIN_EVENT_PMSUSPENDED | VIR_DOMAIN_EVENT_CRASHED

record vm_info =
  vm_name :: string
  netdev_pci_slot_str :: string
  netdev_pci_funct_str :: string
  vf_no :: int
  rx_packets :: u64
  tx_packets :: u64
  total_packets :: u64
  total_packets_history :: u64
  packets_per_sec_history :: dbl
  packets_per_sec :: dbl
  rx_bytes :: u64
  tx_bytes :: u64
  total_KB :: dbl
  total_KB_history :: dbl
  KB_per_sec :: dbl
  KB_per_sec_history :: dbl
  io_timestamp_usec :: u64
  cycles :: u64
  instructions :: u64
  LLC_data_rd_miss :: u64
  LLC_data_rd_hit :: u64
  LLC_all_reference :: u64
  LLC_all_miss :: u64
  dom_ptr :: vir_ptr
  dom_id :: int
  vcpu_affi_maps :: "u32 list"
  real_cpu_no :: int
  real_cpu_usage :: dbl
  mem_node_distr :: "u32 list"
  mem_main_node_id :: int
  pid :: u32
  vm_event_state :: vir_event

definition VM_info_init :: "vm_info \<Rightarrow> vm_info" where
  "VM_info_init g = g\<lparr>
     real_cpu_no := -1, dom_id := -1, pid := word_of_int (-1), vf_no := -1,
     total_packets := 0, tx_packets := 0, rx_packets := 0,
     total_KB := Fin 0, tx_bytes := 0, rx_bytes := 0,
     dom_ptr := None, io_timestamp_usec := 0,
     vm_event_state := VIR_DOMAIN_EVENT_UNDEFINED,
     vcpu_affi_maps := [], mem_node_distr := []\<rparr>"

text \<open>Storage that happens to be all zero, to give closed examples.\<close>

definition zeroed_vm :: vm_info where
  "zeroed_vm = \<lparr>vm_name = [], netdev_pci_slot_str = [], netdev_pci_funct_str = [], vf_no = 0,
     rx_packets = 0, tx_packets = 0, total_packets = 0, total_packets_history = 0,
     packets_per_sec_history = Fin 0, packets_per_sec = Fin 0, rx_bytes = 0, tx_bytes = 0,
     total_KB = Fin 0, total_KB_history = Fin 0, KB_per_sec = Fin 0, KB_per_sec_history = Fin 0,
     io_timestamp_usec = 0, cycles = 0, instructions = 0, LLC_data_rd_miss = 0,
     LLC_data_rd_hit = 0, LLC_all_reference = 0, LLC_all_miss = 0, dom_ptr = None, dom_id = 0,
     vcpu_affi_maps = [], real_cpu_no = 0, real_cpu_usage = Fin 0, mem_node_distr = [],
     mem_main_node_id = 0, pid = 0, vm_event_state = VIR_DOMAIN_EVENT_DEFINED\<rparr>"

lemma VM_info_init_simps [simp]:
  "dom_id (VM_info_init g) = -1" "real_cpu_no (VM_info_init g) = -1"
  "mem_node_distr (VM_info_init g) = []" "mem_main_node_id (VM_info_init g) = mem_main_node_id g"
  "dom_ptr (VM_info_init g) = None"
  by (simp_all add: VM_info_init_def)

text \<open>A NUMA node; \<open>sorted_lat_node_list\<close> pairs a target node with the latency to it.\<close>

record numa_node =
  node_id :: int
  cpu_ids :: "int list"
  sorted_lat_node_list :: "(int \<times> dbl) list"
  free_mems :: u64

definition Numa_node_init :: numa_node where
  "Numa_node_init = \<lparr>node_id = -1, cpu_ids = [], sorted_lat_node_list = [], free_mems = 0\<rparr>"

record decision =
  d_dom_id :: int
  cpu_node_id :: int
  mem_node_id :: int

end
