(* ===== verification/NumaInfo.thy ===== *)
theory NumaInfo
  imports CLib VMInfo
begin

section \<open>The NUMA nodes and their latencies\<close>

text \<open>
  The last part of \<open>src/Nuiod.cpp\<close>: the CPUs of every node, the latency matrix,
  which is read from a file when an earlier run has left one and measured
  otherwise, and the list of nodes by latency that the strategy searches.
  \<open>numa_node_to_cpus\<close> is a parameter (its status and the bits of the mask), and so
  is here \<open>get_numa_latency\<close>, which \<open>Mgen\<close> models. The lemmas show what a successful
  initialisation leaves, and that a latency file is read back as it was written,
  up to the six decimals it keeps.
\<close>

type_synonym node_cpus_fun = "int \<Rightarrow> int \<times> bool list"
type_synonym latency_fun = "int \<Rightarrow> int \<Rightarrow> dbl"
type_synonym latency_sort = "(int \<times> dbl) list \<Rightarrow> (int \<times> dbl) list"

record numa_info =
  numa_number :: int
  numa_nodes :: "numa_node list"
  cpu_node_mapping :: "int cpp_map"
  numa_latency :: "dbl list list"

subsection \<open>CPUs of a node\<close>

definition mask_cpus :: "bool list \<Rightarrow> int list" where
  "mask_cpus cpus = map int (filter (\<lambda>i. cpus ! i) [0..<length cpus])"

definition get_node_first_cpu :: "node_cpus_fun \<Rightarrow> int \<Rightarrow> int" where
  "get_node_first_cpu node_to_cpus node =
     (let (err, cpus) = node_to_cpus node
      in if 0 \<le> err then (case mask_cpus cpus of [] \<Rightarrow> 0 | i # _ \<Rightarrow> i) else 0)"

definition get_node_cpus :: "node_cpus_fun \<Rightarrow> int \<Rightarrow> int \<times> int list" where
  "get_node_cpus node_to_cpus node =
     (let (err, cpus) = node_to_cpus node
      in if 0 \<le> err then (0, mask_cpus cpus) else (err, []))"

subsection \<open>The latency matrix\<close>

definition measure_latency :: "node_cpus_fun \<Rightarrow> latency_fun \<Rightarrow> nat \<Rightarrow> dbl list list" where
  "measure_latency node_to_cpus lat n =
     (let cpu_set = map (\<lambda>i. get_node_first_cpu node_to_cpus (int i)) [0..<n]
      in map (\<lambda>i. map (\<lambda>j. lat (int i) (cpu_set ! j)) [0..<n]) [0..<n])"

definition latency_row :: "dbl list \<Rightarrow> string" where
  "latency_row row = concat (map (\<lambda>x. show_f x @ '' '') row) @ [newline]"

definition latency_file :: "int \<Rightarrow> dbl list list \<Rightarrow> string" where
  "latency_file number m = show_int number @ newline # concat (map latency_row m)"

text \<open>The matrix and, when the file can be created, what is written to it.\<close>

definition cal_and_create_numa_lat ::
  "node_cpus_fun \<Rightarrow> latency_fun \<Rightarrow> bool \<Rightarrow> int \<Rightarrow> dbl list list \<times> string option" where
  "cal_and_create_numa_lat node_to_cpus lat can_write number =
     (let m = measure_latency node_to_cpus lat (nat number)
      in (m, if can_write then Some (latency_file number m) else None))"

text \<open>One \<open>fscanf("%lf ")\<close>; a failed conversion leaves the entry as it was.\<close>

definition read_entry :: "nat \<times> nat \<Rightarrow> string \<times> dbl list list \<Rightarrow> string \<times> dbl list list" where
  "read_entry ij s =
     (case scan_lf (fst s) of
        None \<Rightarrow> (skip_space (fst s), snd s)
      | Some (v, r) \<Rightarrow>
          (skip_space r, (snd s)[fst ij := (snd s ! fst ij)[snd ij := v]]))"

definition read_latency :: "nat \<Rightarrow> string \<Rightarrow> dbl list list \<Rightarrow> dbl list list" where
  "read_latency n s m = snd (fold read_entry (List.product [0..<n] [0..<n]) (s, m))"

text \<open>\<open>g i j\<close> is what the allocated matrix holds; \<open>file\<close> is \<open>/etc/nuiod.latency\<close>.\<close>

definition init_numa_latency ::
  "node_cpus_fun \<Rightarrow> latency_fun \<Rightarrow> (nat \<Rightarrow> nat \<Rightarrow> dbl) \<Rightarrow> string option \<Rightarrow> bool \<Rightarrow> int \<Rightarrow>
   dbl list list \<times> string option" where
  "init_numa_latency node_to_cpus lat g file can_write number =
     (case file of
        None \<Rightarrow> cal_and_create_numa_lat node_to_cpus lat can_write number
      | Some s \<Rightarrow>
          (let (numa_num, r) = (case scan_d s of None \<Rightarrow> (0, s) | Some (v, r) \<Rightarrow> (v, r))
           in if numa_num \<noteq> number then cal_and_create_numa_lat node_to_cpus lat can_write number
              else (read_latency (nat number) r
                      (map (\<lambda>i. map (g i) [0..<nat number]) [0..<nat number]), None)))"

subsection \<open>Initialisation\<close>

text \<open>The first loop of \<open>init_numa_info\<close>; it stops at the first node without a mask.\<close>

fun init_nodes :: "node_cpus_fun \<Rightarrow> nat list \<Rightarrow> numa_info \<Rightarrow> bool \<times> numa_info" where
  "init_nodes node_to_cpus [] nu = (True, nu)"
| "init_nodes node_to_cpus (i # is) nu =
     (let (ret, ids) = get_node_cpus node_to_cpus (int i);
          node = (numa_nodes nu ! i)\<lparr>node_id := int i, cpu_ids := ids\<rparr>;
          nu1 = nu\<lparr>numa_nodes := (numa_nodes nu)[i := node]\<rparr>
      in if ret < 0 then (False, nu1)
         else init_nodes node_to_cpus is
                (nu1\<lparr>cpu_node_mapping := fold (\<lambda>c. map_insert c (int i)) ids (cpu_node_mapping nu1)\<rparr>))"

definition sort_latencies :: "latency_sort \<Rightarrow> numa_info \<Rightarrow> numa_info" where
  "sort_latencies srt nu =
     (let n = nat (numa_number nu)
      in nu\<lparr>numa_nodes := map (\<lambda>i. (numa_nodes nu ! i)\<lparr>sorted_lat_node_list :=
               srt (sorted_lat_node_list (numa_nodes nu ! i) @
                    map (\<lambda>j. (int j, numa_latency nu ! i ! j)) [0..<n])\<rparr>) [0..<n]\<rparr>)"

text \<open>The return value, what is written to the latency file, and the state.\<close>

definition init_numa_info ::
  "latency_sort \<Rightarrow> node_cpus_fun \<Rightarrow> latency_fun \<Rightarrow> (nat \<Rightarrow> nat \<Rightarrow> dbl) \<Rightarrow> string option \<Rightarrow> bool \<Rightarrow>
   numa_info \<Rightarrow> int \<times> string option \<times> numa_info" where
  "init_numa_info srt node_to_cpus lat g file can_write nu =
     (let n = nat (numa_number nu);
          (ok, nu1) = init_nodes node_to_cpus [0..<n] (nu\<lparr>numa_nodes := replicate n Numa_node_init\<rparr>)
      in if \<not> ok then (-1, None, nu1)
         else (let (m, written) = init_numa_latency node_to_cpus lat g file can_write (numa_number nu)
               in (0, written, sort_latencies srt (nu1\<lparr>numa_latency := m\<rparr>))))"

subsection \<open>CPUs and their nodes\<close>

lemma mask_cpus_iff: "c \<in> set (mask_cpus cpus) \<longleftrightarrow> 0 \<le> c \<and> nat c < length cpus \<and> cpus ! nat c"
  by (auto simp: mask_cpus_def image_iff intro!: bexI [of _ "nat c"])

lemma find_insert_all:
  "map_ok m \<Longrightarrow> map_ok (fold (\<lambda>c. map_insert c v) cs m) \<and>
   map_find (fold (\<lambda>c. map_insert c v) cs m) d =
     (case map_find m d of Some w \<Rightarrow> Some w | None \<Rightarrow> if d \<in> set cs then Some v else None)"
proof (induction cs arbitrary: m)
  case (Cons c cs)
  then show ?case
    using Cons.IH [OF map_ok_insert [OF Cons.prems, of c v]]
    by (auto simp: map_find_insert [OF Cons.prems] split: option.splits)
qed (auto split: option.splits)

text \<open>The mapping that the loop over the nodes builds.\<close>

definition map_node :: "node_cpus_fun \<Rightarrow> nat \<Rightarrow> int cpp_map \<Rightarrow> int cpp_map" where
  "map_node node_to_cpus i = fold (\<lambda>c. map_insert c (int i)) (mask_cpus (snd (node_to_cpus (int i))))"

lemma map_nodes:
  assumes "map_ok m"
  shows "map_ok (fold (map_node nc) is m) \<and>
    (\<forall>d. map_find m d \<noteq> None \<longrightarrow> map_find (fold (map_node nc) is m) d = map_find m d) \<and>
    (\<forall>d. map_find m d = None \<longrightarrow> (\<forall>i\<in>set is. d \<notin> set (mask_cpus (snd (nc (int i))))) \<longrightarrow>
       map_find (fold (map_node nc) is m) d = None)"
  using assms
proof (induction "is" arbitrary: m)
  case (Cons i "is")
  have "map_ok (map_node nc i m)"
    "\<And>d. map_find (map_node nc i m) d = (case map_find m d of Some w \<Rightarrow> Some w | None \<Rightarrow>
        if d \<in> set (mask_cpus (snd (nc (int i)))) then Some (int i) else None)"
    using find_insert_all [OF Cons.prems] by (simp_all add: map_node_def)
  then show ?case using Cons.IH [of "map_node nc i m"] by (auto split: option.splits)
qed simp

lemma map_nodes_owner:
  assumes "map_ok m" "distinct is" "i \<in> set is" "c \<in> set (mask_cpus (snd (nc (int i))))" "map_find m c = None"
    "\<forall>j\<in>set is. j \<noteq> i \<longrightarrow> c \<notin> set (mask_cpus (snd (nc (int j))))"
  shows "map_find (fold (map_node nc) is m) c = Some (int i)"
  using assms
proof (induction "is" arbitrary: m)
  case (Cons j "is")
  have m: "map_ok (map_node nc j m)"
    "map_find (map_node nc j m) c = (if c \<in> set (mask_cpus (snd (nc (int j)))) then Some (int j) else None)"
    using find_insert_all [OF Cons.prems(1), of "int j" "mask_cpus (snd (nc (int j)))" c] Cons.prems(5)
    by (simp_all add: map_node_def)
  show ?case
  proof (cases "j = i")
    case True
    then show ?thesis using m map_nodes [OF m(1), of nc "is"] Cons.prems by auto
  next
    case False
    then show ?thesis using Cons m by auto
  qed
qed simp

text \<open>The loop over the nodes, when every node has a mask.\<close>

lemma init_nodes_ok:
  assumes "\<forall>i\<in>set is. 0 \<le> fst (nc (int i)) \<and> i < length (numa_nodes nu)" "distinct is"
  shows "\<exists>nodes. init_nodes nc is nu =
      (True, nu\<lparr>numa_nodes := nodes, cpu_node_mapping := fold (map_node nc) is (cpu_node_mapping nu)\<rparr>) \<and>
    length nodes = length (numa_nodes nu) \<and>
    (\<forall>i. nodes ! i = (if i \<in> set is
       then (numa_nodes nu ! i)\<lparr>node_id := int i, cpu_ids := mask_cpus (snd (nc (int i)))\<rparr>
       else numa_nodes nu ! i))"
  using assms
proof (induction "is" arbitrary: nu)
  case Nil
  then show ?case by (intro exI [of _ "numa_nodes nu"]) simp
next
  case (Cons i "is")
  let ?node = "(numa_nodes nu ! i)\<lparr>node_id := int i, cpu_ids := mask_cpus (snd (nc (int i)))\<rparr>"
  let ?nu = "nu\<lparr>numa_nodes := (numa_nodes nu)[i := ?node],
                cpu_node_mapping := map_node nc i (cpu_node_mapping nu)\<rparr>"
  have step: "init_nodes nc (i # is) nu = init_nodes nc is ?nu"
    using Cons.prems(1) by (auto simp: get_node_cpus_def map_node_def Let_def split: prod.splits)
  obtain nodes where "init_nodes nc is ?nu =
      (True, ?nu\<lparr>numa_nodes := nodes, cpu_node_mapping := fold (map_node nc) is (cpu_node_mapping ?nu)\<rparr>)"
    "length nodes = length (numa_nodes ?nu)"
    "\<forall>j. nodes ! j = (if j \<in> set is
       then (numa_nodes ?nu ! j)\<lparr>node_id := int j, cpu_ids := mask_cpus (snd (nc (int j)))\<rparr>
       else numa_nodes ?nu ! j)"
    using Cons.IH [of ?nu] Cons.prems by auto
  then show ?case
    unfolding step using Cons.prems by (intro exI [of _ nodes]) (auto simp: nth_list_update)
qed

lemma init_nodes_fails:
  "i \<in> set is \<Longrightarrow> fst (nc (int i)) < 0 \<Longrightarrow> \<not> fst (init_nodes nc is nu)"
proof (induction "is" arbitrary: nu)
  case (Cons j "is")
  then show ?case by (cases "nc (int j)") (auto simp: get_node_cpus_def Let_def)
qed simp

subsection \<open>The latency file\<close>

text \<open>The text of the entries at the given positions, in order.\<close>

definition entry_text :: "nat \<Rightarrow> dbl list list \<Rightarrow> nat \<times> nat \<Rightarrow> string" where
  "entry_text n m ij = show_f (m ! fst ij ! snd ij) @ '' '' @ (if Suc (snd ij) = n then [newline] else [])"

definition entries_text :: "nat \<Rightarrow> dbl list list \<Rightarrow> (nat \<times> nat) list \<Rightarrow> string" where
  "entries_text n m ps = concat (map (entry_text n m) ps)"

lemma row_text:
  assumes "length (m ! i) = n" "0 < n"
  shows "latency_row (m ! i) = entries_text n m (map (Pair i) [0..<n])"
proof -
  obtain k where n: "n = Suc k" using assms(2) by (cases n) auto
  have "map (\<lambda>x. show_f x @ '' '') (m ! i) = map (\<lambda>j. show_f (m ! i ! j) @ '' '') [0..<n]"
    using assms(1) by (intro nth_equalityI) auto
  moreover have "concat (map (entry_text (Suc k) m \<circ> Pair i) [0..<k]) =
      concat (map (\<lambda>j. show_f (m ! i ! j) @ '' '') [0..<k])"
    by (rule arg_cong [where f = concat]) (auto simp: entry_text_def)
  ultimately show ?thesis by (simp add: latency_row_def entries_text_def n) (simp add: entry_text_def)
qed

lemma rows_text:
  assumes "\<forall>i\<in>set is. length (m ! i) = n" "0 < n"
  shows "concat (map (\<lambda>i. latency_row (m ! i)) is) = entries_text n m (List.product is [0..<n])"
  using assms by (induction "is") (auto simp: row_text entries_text_def)

lemma scan_number_skip_space: "scan_number b (skip_space s) = scan_number b s"
  by (simp add: scan_number_def skip_space_def)

lemma skip_space_idem [simp]: "skip_space (skip_space s) = skip_space s"
  by (simp add: skip_space_def)

lemma scan_lf_skip_space: "skip_space s = skip_space t \<Longrightarrow> scan_lf s = scan_lf t"
  by (simp add: scan_lf_def)

lemma read_entry_text:
  assumes "skip_space s = skip_space (entries_text n m ((i, j) # ps))" "\<exists>x. m ! i ! j = Fin x"
  shows "\<exists>s'. read_entry (i, j) (s, a) = (s', a[i := (a ! i)[j := six_decimals (m ! i ! j)]]) \<and>
    skip_space s' = skip_space (entries_text n m ps)"
proof -
  obtain x where x: "m ! i ! j = Fin x" using assms(2) by auto
  let ?r = "CHR '' '' # (if Suc j = n then [newline] else []) @ entries_text n m ps"
  have "scan_lf s = scan_lf (show_f (Fin x) @ ?r)"
    by (rule scan_lf_skip_space) (simp add: assms(1) entries_text_def entry_text_def x)
  also have "\<dots> = Some (six_decimals (Fin x), ?r)"
    by (rule scan_show_f) (simp_all add: char_at_def is_dec_digit_def digit_val_def)
  finally show ?thesis
    by (auto simp: read_entry_def x) (auto simp: skip_space_def isspace_def)
qed

lemma read_entries:
  assumes "skip_space s = skip_space (entries_text n m ps)"
    "\<forall>(i, j)\<in>set ps. i < length a \<and> j < length (a ! i) \<and> (\<exists>x. m ! i ! j = Fin x)"
  shows "length (snd (fold read_entry ps (s, a))) = length a \<and>
    (\<forall>i j. i < length a \<longrightarrow> length (snd (fold read_entry ps (s, a)) ! i) = length (a ! i) \<and>
      snd (fold read_entry ps (s, a)) ! i ! j =
        (if (i, j) \<in> set ps then six_decimals (m ! i ! j) else a ! i ! j))"
  using assms
proof (induction ps arbitrary: s a)
  case (Cons p ps)
  obtain i j where p: "p = (i, j)" by (cases p) auto
  let ?a = "a[i := (a ! i)[j := six_decimals (m ! i ! j)]]"
  have ij: "i < length a" "j < length (a ! i)" using Cons.prems(2) by (auto simp: p)
  obtain s' where s': "read_entry (i, j) (s, a) = (s', ?a)" "skip_space s' = skip_space (entries_text n m ps)"
    using read_entry_text [of s n m i j ps a] Cons.prems by (auto simp: p)
  have len: "length (?a ! k) = length (a ! k)" for k using ij by (cases "k = i") auto
  have "\<forall>(i, j)\<in>set ps. i < length ?a \<and> j < length (?a ! i) \<and> (\<exists>x. m ! i ! j = Fin x)"
    using Cons.prems(2) by (auto simp: len simp del: nth_list_update_eq)
  from Cons.IH [OF s'(2) this] show ?case
    using ij by (auto simp: p s'(1) len nth_list_update)
qed simp

lemma matrix_eqI:
  assumes "length m = n" "length m' = n" "\<And>i. i < n \<Longrightarrow> length (m ! i) = k \<and> length (m' ! i) = k"
    "\<And>i j. i < n \<Longrightarrow> j < k \<Longrightarrow> m ! i ! j = m' ! i ! j"
  shows "m = m'"
  by (intro nth_equalityI) (use assms in auto)

text \<open>A square matrix of numbers.\<close>

fun is_number :: "dbl \<Rightarrow> bool" where
  "is_number (Fin x) = True"
| "is_number _ = False"

definition latency_matrix :: "nat \<Rightarrow> dbl list list \<Rightarrow> bool" where
  "latency_matrix n m \<longleftrightarrow> length m = n \<and> list_all (\<lambda>r. length r = n \<and> list_all is_number r) m"

lemma is_number_Fin: "is_number d \<Longrightarrow> \<exists>x. d = Fin x"
  by (cases d) auto

lemma latency_matrix_nth: "latency_matrix n m \<Longrightarrow> i < n \<Longrightarrow> j < n \<Longrightarrow> \<exists>x. m ! i ! j = Fin x"
  by (auto simp: latency_matrix_def list_all_length intro: is_number_Fin)

lemma read_latency_text:
  assumes "latency_matrix n m" "latency_matrix n a \<or> length a = n \<and> (\<forall>i<n. length (a ! i) = n)"
  shows "read_latency n (newline # concat (map latency_row m)) a = map (map six_decimals) m"
proof -
  have m: "length m = n" "\<And>i. i < n \<Longrightarrow> length (m ! i) = n"
    "\<And>i j. i < n \<Longrightarrow> j < n \<Longrightarrow> \<exists>x. m ! i ! j = Fin x"
    using assms(1) latency_matrix_nth [OF assms(1)] by (auto simp: latency_matrix_def list_all_length)
  have a: "length a = n" "\<And>i. i < n \<Longrightarrow> length (a ! i) = n"
    using assms(2) by (auto simp: latency_matrix_def list_all_length)
  let ?ps = "List.product [0..<n] [0..<n]"
  have ps: "set ?ps = {0..<n} \<times> {0..<n}" by simp
  have "map latency_row m = map (\<lambda>i. latency_row (m ! i)) [0..<n]"
    using m(1) by (intro nth_equalityI) auto
  then have "concat (map latency_row m) = entries_text n m ?ps"
    using rows_text [of "[0..<n]" m n] m by (cases "n = 0") (auto simp: entries_text_def)
  then have "skip_space (newline # concat (map latency_row m)) = skip_space (entries_text n m ?ps)"
    by (simp add: skip_space_def isspace_def)
  from read_entries [OF this, of a] show ?thesis
    unfolding read_latency_def
    by (intro matrix_eqI [of _ n _ n]) (use m a ps in auto)
qed

lemma scan_d_show_int:
  assumes "0 \<le> n" "n < 2 ^ 31" "\<not> digit_val (char_at r) < 10"
  shows "scan_d (show_int n @ r) = Some (n, r)"
proof -
  have n: "n = int (nat n)" using assms(1) by simp
  have "long_to_int n = n"
    using assms(1,2) by (simp add: long_to_int_def signed_of_int signed_take_bit_int_eq_self)
  moreover have "strtol 10 (show_nat (nat n) @ r) = (int (nat n), r)"
    using assms by (intro strtol_show_nat) auto
  ultimately show ?thesis
    using scan_number_show_nat [OF assms(3), of "[]" "nat n"] assms(1) by (simp add: scan_d_def show_int_def)
qed

lemma measure_latency_nth:
  "i < n \<Longrightarrow> j < n \<Longrightarrow> measure_latency nc lat n ! i ! j = lat (int i) (get_node_first_cpu nc (int j))"
  by (simp add: measure_latency_def)

lemma newline_not_digit: "\<not> digit_val (char_at (newline # s)) < 10"
  by (simp add: char_at_def digit_val_def)

lemma sort_latencies_nodes:
  assumes "i < nat (numa_number nu)"
  shows "numa_nodes (sort_latencies srt nu) ! i = (numa_nodes nu ! i)\<lparr>sorted_lat_node_list :=
    srt (sorted_lat_node_list (numa_nodes nu ! i) @
         map (\<lambda>j. (int j, numa_latency nu ! i ! j)) [0..<nat (numa_number nu)])\<rparr>"
  using assms by (simp add: sort_latencies_def Let_def)

lemma init_numa_info_result:
  assumes "std_sort compare_pairs_second srt" "n = nat (numa_number nu)" "cpu_node_mapping nu = []"
    "\<forall>i<n. 0 \<le> fst (nc (int i))" "\<forall>i j. lat i j \<noteq> NaN"
    "\<forall>i<n. \<forall>j<n. i \<noteq> j \<longrightarrow>
       set (mask_cpus (snd (nc (int i)))) \<inter> set (mask_cpus (snd (nc (int j)))) = {}"
  shows "\<exists>w nu'. init_numa_info srt nc lat g None cw nu = (0, w, nu') \<and> length (numa_nodes nu') = n \<and>
    numa_number nu' = numa_number nu \<and> map_ok (cpu_node_mapping nu') \<and>
    (\<forall>i<n. node_id (numa_nodes nu' ! i) = int i \<and>
      cpu_ids (numa_nodes nu' ! i) = mask_cpus (snd (nc (int i))) \<and>
      (\<forall>c\<in>set (cpu_ids (numa_nodes nu' ! i)). map_find (cpu_node_mapping nu') c = Some (int i)) \<and>
      mset (sorted_lat_node_list (numa_nodes nu' ! i)) =
        mset (map (\<lambda>j. (int j, lat (int i) (get_node_first_cpu nc (int j)))) [0..<n]) \<and>
      sorted_wrt (\<lambda>p q. \<not> snd q < snd p) (sorted_lat_node_list (numa_nodes nu' ! i)))"
proof -
  let ?nu0 = "nu\<lparr>numa_nodes := replicate n Numa_node_init\<rparr>"
  let ?map = "fold (map_node nc) [0..<n] []"
  obtain nodes where nodes: "init_nodes nc [0..<n] ?nu0 =
      (True, ?nu0\<lparr>numa_nodes := nodes, cpu_node_mapping := ?map\<rparr>)" "length nodes = n"
    "\<forall>i. nodes ! i = (if i \<in> set [0..<n]
       then (numa_nodes ?nu0 ! i)\<lparr>node_id := int i, cpu_ids := mask_cpus (snd (nc (int i)))\<rparr>
       else numa_nodes ?nu0 ! i)"
    using init_nodes_ok [of "[0..<n]" nc ?nu0] assms(3,4) by auto
  let ?m = "measure_latency nc lat n"
  let ?nu = "?nu0\<lparr>numa_nodes := nodes, cpu_node_mapping := ?map, numa_latency := ?m\<rparr>"
  obtain w where res: "init_numa_info srt nc lat g None cw nu = (0, w, sort_latencies srt ?nu)"
    using nodes(1) assms(2) by (auto simp: init_numa_info_def init_numa_latency_def cal_and_create_numa_lat_def Let_def)
  let ?ps = "\<lambda>i. map (\<lambda>j. (int j, lat (int i) (get_node_first_cpu nc (int j)))) [0..<n]"
  have list: "sorted_lat_node_list (numa_nodes (sort_latencies srt ?nu) ! i) = srt (?ps i)" if "i < n" for i
  proof -
    have "srt (map (\<lambda>j. (int j, ?m ! i ! j)) [0..<n]) = srt (?ps i)"
      using that by (intro arg_cong [where f = srt]) (auto simp: measure_latency_nth)
    then show ?thesis using that assms(2) nodes by (simp add: sort_latencies_nodes Numa_node_init_def)
  qed
  have swo: "strict_weak_on compare_pairs_second (set (?ps i))" for i
    using assms(5) by (intro strict_weak_on_dbl) auto
  have sorted: "mset (srt (?ps i)) = mset (?ps i)" "sorted_wrt (\<lambda>p q. \<not> snd q < snd p) (srt (?ps i))" for i
    using std_sort.srt_perm [OF assms(1) swo] std_sort.srt_sorted [OF assms(1) swo]
    by (simp_all add: compare_pairs_second_def)
  have node: "node_id (numa_nodes (sort_latencies srt ?nu) ! i) = int i"
    "cpu_ids (numa_nodes (sort_latencies srt ?nu) ! i) = mask_cpus (snd (nc (int i)))" if "i < n" for i
    using that assms(2) nodes by (simp_all add: sort_latencies_nodes)
  have "map_find ?map c = Some (int i)" if "i < n" "c \<in> set (mask_cpus (snd (nc (int i))))" for i c
  proof (rule map_nodes_owner)
    show "\<forall>j\<in>set [0..<n]. j \<noteq> i \<longrightarrow> c \<notin> set (mask_cpus (snd (nc (int j))))"
      using that assms(6) by (metis atLeastLessThan_iff disjoint_iff set_upt)
  qed (use that in auto)
  moreover have "map_ok ?map" using map_nodes [of "[]" nc "[0..<n]"] by simp
  moreover have "numa_number (sort_latencies srt ?nu) = numa_number nu" by (simp add: sort_latencies_def Let_def)
  moreover have "cpu_node_mapping (sort_latencies srt ?nu) = ?map" "length (numa_nodes (sort_latencies srt ?nu)) = n"
    using assms(2) by (simp_all add: sort_latencies_def Let_def)
  ultimately show ?thesis unfolding res using list sorted node by auto
qed

subsection \<open>Properties\<close>

text \<open>C20. When libnuma knows the CPUs of every node, no latency file exists and no measured latency is NaN, \<open>init_numa_info\<close>
  succeeds: every node gets its number and its CPUs, every CPU of a node is mapped to that node
  (no CPU being in two), and the list of a node holds every node once, with the measured latency,
  in ascending order of it.\<close>

theorem numa_info_initialised:
  assumes "std_sort compare_pairs_second srt" "n = nat (numa_number nu)" "cpu_node_mapping nu = []"
    "\<forall>i<n. 0 \<le> fst (nc (int i))" "\<forall>i j. lat i j \<noteq> NaN"
    "\<forall>i<n. \<forall>j<n. i \<noteq> j \<longrightarrow>
       set (mask_cpus (snd (nc (int i)))) \<inter> set (mask_cpus (snd (nc (int j)))) = {}"
  shows "\<exists>w nu'. init_numa_info srt nc lat g None cw nu = (0, w, nu') \<and> length (numa_nodes nu') = n \<and>
    (\<forall>i<n. node_id (numa_nodes nu' ! i) = int i \<and>
      cpu_ids (numa_nodes nu' ! i) = mask_cpus (snd (nc (int i))) \<and>
      (\<forall>c\<in>set (cpu_ids (numa_nodes nu' ! i)). map_find (cpu_node_mapping nu') c = Some (int i)) \<and>
      mset (sorted_lat_node_list (numa_nodes nu' ! i)) =
        mset (map (\<lambda>j. (int j, lat (int i) (get_node_first_cpu nc (int j)))) [0..<n]) \<and>
      sorted_wrt (\<lambda>p q. \<not> snd q < snd p) (sorted_lat_node_list (numa_nodes nu' ! i)))"
  using init_numa_info_result [OF assms, of g cw] by (elim exE conjE) (intro exI conjI, assumption+)

text \<open>Two nodes with two CPUs each, one hop apart.\<close>

definition ex_node_cpus :: node_cpus_fun where
  "ex_node_cpus i = (0, if i = 0 then [True, True, False, False] else [False, False, True, True])"

definition ex_numa :: numa_info where
  "ex_numa = \<lparr>numa_number = 2, numa_nodes = [], cpu_node_mapping = [], numa_latency = []\<rparr>"

lemma ex_node_cpus_disjoint:
  "i < 2 \<Longrightarrow> j < 2 \<Longrightarrow> i \<noteq> j \<Longrightarrow>
   set (mask_cpus (snd (ex_node_cpus (int i)))) \<inter> set (mask_cpus (snd (ex_node_cpus (int j)))) = {}"
  by (cases i; cases j) (auto simp: ex_node_cpus_def mask_cpus_def upt_rec)

theorem numa_info_initialised_witness:
  "\<exists>w nu'. init_numa_info (insertion_sort compare_pairs_second) ex_node_cpus (\<lambda>i j. Fin 80) (\<lambda>_ _. NaN) None True ex_numa =
      (0, w, nu') \<and> length (numa_nodes nu') = 2 \<and>
    cpu_ids (numa_nodes nu' ! 1) = mask_cpus (snd (ex_node_cpus 1)) \<and>
    sorted_wrt (\<lambda>p q. \<not> snd q < snd p) (sorted_lat_node_list (numa_nodes nu' ! 1))"
proof -
  have "\<exists>w nu'. init_numa_info (insertion_sort compare_pairs_second) ex_node_cpus (\<lambda>i j. Fin 80) (\<lambda>_ _. NaN) None True ex_numa =
      (0, w, nu') \<and> length (numa_nodes nu') = 2 \<and>
    (\<forall>i<2. node_id (numa_nodes nu' ! i) = int i \<and>
      cpu_ids (numa_nodes nu' ! i) = mask_cpus (snd (ex_node_cpus (int i))) \<and>
      (\<forall>c\<in>set (cpu_ids (numa_nodes nu' ! i)). map_find (cpu_node_mapping nu') c = Some (int i)) \<and>
      mset (sorted_lat_node_list (numa_nodes nu' ! i)) = mset (map (\<lambda>j. (int j, Fin 80)) [0..<2]) \<and>
      sorted_wrt (\<lambda>p q. \<not> snd q < snd p) (sorted_lat_node_list (numa_nodes nu' ! i)))"
    using numa_info_initialised [OF insertion.std_sort_axioms, where n = 2 and nu = ex_numa
        and nc = ex_node_cpus and lat = "\<lambda>i j. Fin 80" and g = "\<lambda>_ _. NaN" and cw = True]
      ex_node_cpus_disjoint
    by (simp add: ex_numa_def) (simp add: ex_node_cpus_def)
  then obtain w nu' where *: "init_numa_info (insertion_sort compare_pairs_second) ex_node_cpus (\<lambda>i j. Fin 80) (\<lambda>_ _. NaN) None True ex_numa =
      (0, w, nu')" "length (numa_nodes nu') = 2"
    "\<forall>i<2. node_id (numa_nodes nu' ! i) = int i \<and>
      cpu_ids (numa_nodes nu' ! i) = mask_cpus (snd (ex_node_cpus (int i))) \<and>
      (\<forall>c\<in>set (cpu_ids (numa_nodes nu' ! i)). map_find (cpu_node_mapping nu') c = Some (int i)) \<and>
      mset (sorted_lat_node_list (numa_nodes nu' ! i)) = mset (map (\<lambda>j. (int j, Fin 80)) [0..<2]) \<and>
      sorted_wrt (\<lambda>p q. \<not> snd q < snd p) (sorted_lat_node_list (numa_nodes nu' ! i))" by blast
  then show ?thesis by (intro exI [of _ w] exI [of _ nu']) (use *(3)[rule_format, of 1] in simp)
qed

text \<open>C19. The latency file that one run writes is read by the next, on a host with as many nodes, as
  the same matrix rounded to six decimals, without a measurement; the rounding keeps the order of
  the nodes by latency.\<close>

theorem latency_file_round_trip:
  assumes "0 \<le> number" "number < 2 ^ 31" "latency_matrix (nat number) m"
  shows "init_numa_latency nc lat g (Some (latency_file number m)) cw number = (map (map six_decimals) m, None) \<and>
    (\<forall>i<nat number. \<forall>j<nat number. \<forall>k<nat number. m ! i ! j \<le> m ! i ! k \<longrightarrow>
       map (map six_decimals) m ! i ! j \<le> map (map six_decimals) m ! i ! k)"
proof
  let ?n = "nat number"
  have "read_latency ?n (newline # concat (map latency_row m)) (map (\<lambda>i. map (g i) [0..<?n]) [0..<?n]) =
      map (map six_decimals) m"
    by (rule read_latency_text [OF assms(3)]) simp
  then show "init_numa_latency nc lat g (Some (latency_file number m)) cw number = (map (map six_decimals) m, None)"
    using scan_d_show_int [OF assms(1,2) newline_not_digit]
    by (simp add: init_numa_latency_def latency_file_def)
next
  show "\<forall>i<nat number. \<forall>j<nat number. \<forall>k<nat number. m ! i ! j \<le> m ! i ! k \<longrightarrow>
       map (map six_decimals) m ! i ! j \<le> map (map six_decimals) m ! i ! k"
  proof (intro allI impI)
    fix i j k assume ijk: "i < nat number" "j < nat number" "k < nat number" and le: "m ! i ! j \<le> m ! i ! k"
    then obtain x y where "m ! i ! j = Fin x" "m ! i ! k = Fin y"
      using latency_matrix_nth [OF assms(3)] by metis
    then show "map (map six_decimals) m ! i ! j \<le> map (map six_decimals) m ! i ! k"
      using six_decimals_mono [of x y] le ijk assms(3)
      by (simp add: latency_matrix_def list_all_length less_eq_dbl_def)
  qed
qed

theorem latency_file_round_trip_witness:
  "init_numa_latency ex_node_cpus (\<lambda>_ _. NaN) (\<lambda>_ _. NaN)
      (Some (latency_file 2 [[Fin (241 / 3), Fin (400 / 3)], [Fin 140, Fin 80]])) True 2 =
      (map (map six_decimals) [[Fin (241 / 3), Fin (400 / 3)], [Fin 140, Fin 80]], None)"
  using latency_file_round_trip [of 2 "[[Fin (241 / 3), Fin (400 / 3)], [Fin 140, Fin 80]]"
      ex_node_cpus "\<lambda>_ _. NaN" "\<lambda>_ _. NaN" True]
  by (simp add: latency_matrix_def)

text \<open>C32. A node without a CPU mask stops the initialisation with -1, and so does nothing else; a
  latency file written for another number of nodes is not used: the matrix is measured and the file
  written again.\<close>

theorem numa_info_failures:
  assumes "0 \<le> number" "number < 2 ^ 31" "0 \<le> number'" "number' < 2 ^ 31" "number \<noteq> number'"
  shows "(fst (init_numa_info srt nc lat g file cw nu) = -1 \<longleftrightarrow>
      (\<exists>i<nat (numa_number nu). fst (nc (int i)) < 0)) \<and>
    init_numa_latency nc lat g (Some (latency_file number' m)) True number =
      (measure_latency nc lat (nat number), Some (latency_file number (measure_latency nc lat (nat number))))"
proof
  let ?n = "nat (numa_number nu)"
  let ?nu0 = "nu\<lparr>numa_nodes := replicate ?n Numa_node_init\<rparr>"
  show "fst (init_numa_info srt nc lat g file cw nu) = -1 \<longleftrightarrow> (\<exists>i<?n. fst (nc (int i)) < 0)"
  proof (cases "\<exists>i<?n. fst (nc (int i)) < 0")
    case True
    then have "\<not> fst (init_nodes nc [0..<?n] ?nu0)" using init_nodes_fails [of _ "[0..<?n]"] by auto
    then show ?thesis using True by (auto simp: init_numa_info_def Let_def split: prod.splits)
  next
    case False
    then have "0 \<le> fst (nc (int i))" if "i < ?n" for i using that by (meson not_less)
    then have "\<forall>i\<in>set [0..<?n]. 0 \<le> fst (nc (int i)) \<and> i < length (numa_nodes ?nu0)" by simp
    then have "fst (init_nodes nc [0..<?n] ?nu0)" using init_nodes_ok [of "[0..<?n]" nc ?nu0] by auto
    then show ?thesis using False by (auto simp: init_numa_info_def Let_def split: prod.splits)
  qed
  show "init_numa_latency nc lat g (Some (latency_file number' m)) True number =
      (measure_latency nc lat (nat number), Some (latency_file number (measure_latency nc lat (nat number))))"
    using scan_d_show_int [OF assms(3,4) newline_not_digit] assms(5)
    by (simp add: init_numa_latency_def latency_file_def cal_and_create_numa_lat_def Let_def)
qed

theorem numa_info_failures_witness:
  "(fst (init_numa_info (insertion_sort compare_pairs_second) ex_node_cpus (\<lambda>_ _. Fin 80) (\<lambda>_ _. NaN) None True ex_numa) = -1 \<longleftrightarrow>
      (\<exists>i<nat (numa_number ex_numa). fst (ex_node_cpus (int i)) < 0)) \<and>
    init_numa_latency ex_node_cpus (\<lambda>_ _. Fin 80) (\<lambda>_ _. NaN) (Some (latency_file 4 [])) True 2 =
      (measure_latency ex_node_cpus (\<lambda>_ _. Fin 80) (nat 2),
       Some (latency_file 2 (measure_latency ex_node_cpus (\<lambda>_ _. Fin 80) (nat 2))))"
  by (rule numa_info_failures) simp_all

end
