(* ===== verification/RoundingError.thy ===== *)
theory RoundingError
  imports Binary64
begin

section \<open>The error of floating-point arithmetic\<close>

text \<open>
  Each operation on numbers of ordinary size is off by a factor of at most
  \<open>1 - 1 / 2 ^ 53\<close> in one direction or the other; a computation of a few
  operations adds up the exponents of that factor.
\<close>

definition slack :: rat where "slack = 1 - 1 / 2 ^ 53"

definition rel_close :: "nat \<Rightarrow> rat \<Rightarrow> rat \<Rightarrow> bool" where
  "rel_close k x y \<longleftrightarrow> 0 \<le> x \<and> 0 \<le> y \<and> x * slack ^ k \<le> y \<and> y * slack ^ k \<le> x"

lemma slack_pos: "0 < slack" "slack \<le> 1"
  by (simp_all add: slack_def)

lemma rel_close_refl: "0 \<le> x \<Longrightarrow> rel_close 0 x x"
  by (simp add: rel_close_def)

lemma rel_close_sym: "rel_close k x y \<Longrightarrow> rel_close k y x"
  by (simp add: rel_close_def)

lemma rel_close_trans:
  assumes "rel_close k x y" "rel_close l y z" shows "rel_close (k + l) x z"
proof -
  have p: "0 \<le> slack ^ k" "0 \<le> slack ^ l" using slack_pos by simp_all
  have "x * slack ^ k * slack ^ l \<le> y * slack ^ l" "z * slack ^ l * slack ^ k \<le> y * slack ^ k"
    using assms p by (auto simp: rel_close_def intro: mult_right_mono)
  then show ?thesis using assms by (auto simp: rel_close_def power_add ac_simps)
qed

lemma rel_close_mult:
  assumes "rel_close k x y" "rel_close l x' y'" shows "rel_close (k + l) (x * x') (y * y')"
proof -
  have p: "0 \<le> slack ^ k" "0 \<le> slack ^ l" using slack_pos by simp_all
  have "(x * slack ^ k) * (x' * slack ^ l) \<le> y * y'" "(y * slack ^ k) * (y' * slack ^ l) \<le> x * x'"
    using assms p by (auto simp: rel_close_def intro!: mult_mono)
  then show ?thesis using assms by (simp add: rel_close_def power_add ac_simps)
qed

lemma rel_close_inverse:
  assumes "rel_close k x y" "0 < x" "0 < y" shows "rel_close k (1 / x) (1 / y)"
  using assms by (simp add: rel_close_def divide_simps mult.commute)

lemma rel_close_divide:
  assumes "rel_close k x y" "rel_close l x' y'" "0 < x'" "0 < y'" shows "rel_close (k + l) (x / x') (y / y')"
  using rel_close_mult [OF assms(1) rel_close_inverse [OF assms(2-4)]] by simp

text \<open>Up to eight operations stay within one part in \<open>2 ^ 49\<close>.\<close>

lemma rel_close_error:
  assumes "rel_close k x y" "k \<le> 8" shows "\<bar>y - x\<bar> \<le> x / 2 ^ 49"
proof -
  have k: "slack ^ 8 \<le> slack ^ k" using slack_pos assms(2) by (simp add: power_decreasing)
  have r: "0 \<le> x" "0 \<le> y" "x * slack ^ 8 \<le> y" "y * slack ^ 8 \<le> x"
    using assms(1) mult_left_mono [OF k, of x] mult_left_mono [OF k, of y] by (auto simp: rel_close_def)
  have s: "1 - 1 / 2 ^ 49 \<le> slack ^ 8" "1 \<le> slack ^ 8 * (1 + 1 / 2 ^ 49)"
    unfolding slack_def by (simp_all add: field_simps)
  have "x * (1 - 1 / 2 ^ 49) \<le> x * slack ^ 8" by (rule mult_left_mono [OF s(1) r(1)])
  then have 1: "x - x / 2 ^ 49 \<le> y" using r(3) by (simp add: algebra_simps)
  have "y \<le> y * (slack ^ 8 * (1 + 1 / 2 ^ 49))" using mult_left_mono [OF s(2) r(2)] by simp
  also have "\<dots> = y * slack ^ 8 * (1 + 1 / 2 ^ 49)" by simp
  also have "\<dots> \<le> x * (1 + 1 / 2 ^ 49)" by (rule mult_right_mono [OF r(4)]) simp
  finally have "y \<le> x + x / 2 ^ 49" by (simp add: algebra_simps)
  then show ?thesis using 1 unfolding abs_le_iff by linarith
qed

subsection \<open>Rounding\<close>

lemma round_half_even_error: "\<bar>of_int (round_half_even x) - x\<bar> \<le> 1 / 2"
proof -
  have f: "of_int \<lfloor>x\<rfloor> \<le> x" "x < of_int \<lfloor>x\<rfloor> + 1" by linarith+
  consider "round_half_even x = \<lfloor>x\<rfloor>" "x - of_int \<lfloor>x\<rfloor> \<le> 1 / 2"
    | "round_half_even x = \<lfloor>x\<rfloor> + 1" "1 / 2 \<le> x - of_int \<lfloor>x\<rfloor>"
    unfolding round_half_even_def Let_def by (meson linorder_not_less order.strict_iff_not order_less_imp_le)
  then show ?thesis
  proof cases
    case 1
    then show ?thesis using f unfolding 1(1) abs_le_iff by linarith
  next
    case 2
    then show ?thesis using f unfolding 2(1) abs_le_iff of_int_add of_int_1 by linarith
  qed
qed

lemma round_exact_close:
  assumes "0 < x" "-1022 \<le> ilog2 x" shows "rel_close 1 x (round_exact x)"
proof -
  let ?u = "ulp x"
  have u: "0 < ?u" by (rule ulp_pos)
  have "?u = 2 powi (ilog2 x - 52)" using assms by (simp add: ulp_def max_def)
  then have "?u * 2 ^ 52 = 2 powi ilog2 x" by (simp add: power_int_diff)
  then have ux: "?u * 2 ^ 52 \<le> x" using ilog2_bounds(1) [OF assms(1)] by simp
  have "\<bar>of_int (round_half_even (x / ?u)) - x / ?u\<bar> * ?u \<le> 1 / 2 * ?u"
    by (rule mult_right_mono [OF round_half_even_error]) (use u in simp)
  moreover have "round_exact x - x = (of_int (round_half_even (x / ?u)) - x / ?u) * ?u"
    using assms(1) u by (simp add: round_exact_def left_diff_distrib)
  then have "\<bar>round_exact x - x\<bar> = \<bar>of_int (round_half_even (x / ?u)) - x / ?u\<bar> * ?u"
    using u by (simp add: abs_mult)
  ultimately have e: "\<bar>round_exact x - x\<bar> \<le> x / 2 ^ 53" using ux by simp
  then have b: "x - x / 2 ^ 53 \<le> round_exact x" "round_exact x \<le> x + x / 2 ^ 53" unfolding abs_le_iff by linarith+
  then have l: "x * slack \<le> round_exact x" by (simp add: slack_def algebra_simps)
  have "round_exact x \<le> x * (1 + 1 / 2 ^ 53)" using b(2) by (simp add: algebra_simps)
  then have "round_exact x * slack \<le> x * (1 + 1 / 2 ^ 53) * slack" using slack_pos by (simp add: mult_right_mono)
  also have "\<dots> = x * ((1 + 1 / 2 ^ 53) * slack)" by simp
  also have "\<dots> \<le> x * 1" by (rule mult_left_mono) (use assms(1) in \<open>simp_all add: slack_def\<close>)
  finally show ?thesis using l assms(1) round_exact_nonneg [of x] by (simp add: rel_close_def)
qed

lemma rnd_close:
  assumes "x = 0 \<or> 1 / 2 ^ 200 \<le> x" "x \<le> 2 ^ 200"
  obtains y where "rnd x = Fin y" "rel_close 1 x y"
proof (cases "x = 0")
  case True
  then show ?thesis using that [of 0] by (simp add: rel_close_def)
next
  case False
  then have lo: "2 powi (-200) \<le> x" using assms(1) by (simp add: power_int_minus_divide)
  then have pos: "0 < x" by (rule less_le_trans [rotated]) simp
  have hi: "x \<le> 2 powi 200" using assms(2) by simp
  obtain y where y: "rnd x = Fin y" "2 powi (-200) \<le> y" "y \<le> 2 powi 200"
    by (rule rnd_enclose [OF lo hi]) (simp_all only: rnd_power2)
  have "-1022 \<le> ilog2 x"
  proof (rule ccontr)
    assume "\<not> -1022 \<le> ilog2 x"
    then have "(2 :: rat) powi (ilog2 x + 1) \<le> 2 powi (-200)" by (intro power_int_increasing) auto
    then show False using ilog2_bounds(2) [OF pos] lo by linarith
  qed
  from round_exact_close [OF pos this] have "rel_close 1 x y"
    using y(1) by (simp add: rnd_def Let_def split: if_splits)
  then show ?thesis using that y(1) by blast
qed

text \<open>Zero, or not smaller than \<open>1 / 2 ^ k\<close>.\<close>

definition sized :: "nat \<Rightarrow> rat \<Rightarrow> bool" where
  "sized k x \<longleftrightarrow> x = 0 \<or> 1 / 2 ^ k \<le> x"

lemma sized_close:
  assumes "sized k x" "rel_close 1 x y" shows "sized (k + 1) y"
proof (cases "x = 0")
  case True
  then have "y \<le> 0" "0 \<le> y" using assms(2) slack_pos by (auto simp: rel_close_def mult_le_0_iff)
  then show ?thesis by (simp add: sized_def)
next
  case False
  then have "1 / 2 ^ k \<le> x" using assms(1) by (simp add: sized_def)
  then have "1 / 2 ^ k * (1 / 2) \<le> x * slack" using assms(2)
    by (intro mult_mono) (simp_all add: rel_close_def slack_def)
  then show ?thesis using assms(2) by (simp add: sized_def rel_close_def)
qed

lemma sized_mult:
  assumes "sized k x" "y = 0 \<or> 1 \<le> y" shows "sized k (x * y)"
proof (cases "x = 0 \<or> y = 0")
  case False
  then have "1 / 2 ^ k \<le> x" "1 \<le> y" using assms by (auto simp: sized_def)
  moreover from this have "0 \<le> x" by (meson order_trans zero_le_divide_1_iff zero_le_numeral zero_le_power)
  ultimately have "1 / 2 ^ k * 1 \<le> x * y" by (intro mult_mono) simp_all
  then show ?thesis by (simp add: sized_def)
qed (auto simp: sized_def)

lemma sized_divide:
  assumes "sized k x" "1 \<le> y" "y \<le> 2 ^ l" shows "sized (k + l) (x / y)"
proof (cases "x = 0")
  case False
  then have "1 / 2 ^ k \<le> x" using assms(1) by (simp add: sized_def)
  moreover have "1 / 2 ^ l \<le> 1 / y" using assms(2,3) by (simp add: frac_le)
  ultimately have "1 / 2 ^ k * (1 / 2 ^ l) \<le> x * (1 / y)"
    using assms(2) by (intro mult_mono) (auto intro: order_trans [of 0 "1 / 2 ^ k"])
  then show ?thesis by (simp add: sized_def power_add)
qed (simp add: sized_def)

lemma rnd_sized:
  assumes "sized k x" "k \<le> 200" "x \<le> 2 ^ 200"
  obtains y where "rnd x = Fin y" "rel_close 1 x y" "sized (k + 1) y"
proof -
  have "(1 :: rat) / 2 ^ 200 \<le> 1 / 2 ^ k" using assms(2) by (intro frac_le power_increasing) simp_all
  then have "x = 0 \<or> 1 / 2 ^ 200 \<le> x" using assms(1) unfolding sized_def by (meson order_trans)
  then show ?thesis using rnd_close [OF _ assms(3)] sized_close [OF assms(1)] that by metis
qed

text \<open>A share of a total, as a percentage computed from the counters.\<close>

lemma percent_close:
  assumes "uint v \<le> uint w" "0 < uint w"
  obtains y where "dbl_of_u64 v / dbl_of_u64 w * dbl_of_int 100 = Fin y" "sized 67 y" "y \<le> 100"
    "rel_close 4 (of_int (uint v) / of_int (uint w) * 100) y"
proof -
  have u: "sized 0 (of_int (uint x))" "of_int (uint x) \<le> (2 ^ 64 :: rat)" for x :: u64
  proof -
    have "uint x < 2 ^ 64" using uint_lt2p [of x] by simp
    then show "of_int (uint x) \<le> (2 ^ 64 :: rat)" by (metis of_int_le_iff of_int_numeral of_int_power less_imp_le)
    have "uint x = 0 \<or> 1 \<le> uint x" using uint_ge_0 [of x] by linarith
    then show "sized 0 (of_int (uint x))" unfolding sized_def by (metis div_by_1 of_int_0 of_int_1_le_iff power_0)
  qed
  have le: "of_int (uint x) \<le> (2 ^ 200 :: rat)" for x :: u64 by (rule order_trans [OF u(2)]) simp
  obtain a where a: "dbl_of_u64 v = Fin a" "rel_close 1 (of_int (uint v)) a" "sized 1 a"
    using rnd_sized [OF u(1) _ le, of v] unfolding dbl_of_u64_def by auto
  obtain b where b: "dbl_of_u64 w = Fin b" "rel_close 1 (of_int (uint w)) b"
    using rnd_sized [OF u(1) _ le, of w] unfolding dbl_of_u64_def by auto
  have b1: "1 \<le> b" "b \<le> 2 ^ 64" using dbl_of_u64_range [of w] assms(2) b(1) by auto
  have ab: "0 \<le> a" "a \<le> b" using a(2) dbl_of_u64_mono [OF assms(1)] by (simp_all add: rel_close_def less_eq_dbl_def a(1) b(1))
  have s: "sized 65 (a / b)" using sized_divide [OF a(3) b1] by simp
  have "a / b \<le> 1" using ab b1 by simp
  also have "(1 :: rat) \<le> 2 ^ 200" by simp
  finally obtain q where q: "rnd (a / b) = Fin q" "rel_close 1 (a / b) q" "sized 66 q"
    using rnd_sized [OF s] by auto
  have "0 \<le> a / b" "a / b \<le> 1" using ab b1 by auto
  then obtain q' where "rnd (a / b) = Fin q'" "0 \<le> q'" "q' \<le> 1" by (rule rnd_enclose) auto
  then have q1: "q \<le> 1" using q(1) by simp
  have "q * 100 \<le> 2 ^ 200" by (rule order_trans [of _ 100]) (use q1 in simp_all)
  moreover have "sized 66 (q * 100)" by (rule sized_mult [OF q(3)]) simp
  ultimately obtain y where y: "rnd (q * 100) = Fin y" "rel_close 1 (q * 100) y" "sized 67 y"
    using rnd_sized [of 66 "q * 100"] by auto
  have "rnd (q * 100) \<le> Fin 100" by (rule rnd_le_Fin) (use q1 in simp_all)
  then have "y \<le> 100" using y(1) by (simp add: less_eq_dbl_def)
  have w: "0 < (of_int (uint w) :: rat)" using assms(2) by (simp only: of_int_0_less_iff)
  have "rel_close 2 (of_int (uint v) / of_int (uint w)) (a / b)"
    using rel_close_divide [OF a(2) b(2) w] b1 by (simp add: numeral_2_eq_2)
  then have "rel_close 3 (of_int (uint v) / of_int (uint w)) q" using rel_close_trans [OF _ q(2)] by fastforce
  then have "rel_close 3 (of_int (uint v) / of_int (uint w) * 100) (q * 100)"
    using rel_close_mult [OF _ rel_close_refl [of 100]] by fastforce
  then have "rel_close 4 (of_int (uint v) / of_int (uint w) * 100) y" using rel_close_trans [OF _ y(2)] by fastforce
  moreover have "dbl_of_u64 v / dbl_of_u64 w * dbl_of_int 100 = Fin y"
    using a(1) b(1) b1 q(1) y(1) by (simp add: divide_dbl_def times_dbl_def dbl_of_int_small)
  ultimately show ?thesis using that y(3) \<open>y \<le> 100\<close> by blast
qed

end
