(* ===== verification/CpuMonitor.thy ===== *)
theory CpuMonitor
  imports RoundingError CLib
begin

section \<open>CPU usage\<close>

text \<open>
  \<open>src/Cpu_monitor.cpp\<close> and \<open>include/Cpu_monitor.h\<close>: the counters of
  \<open>/proc/stat\<close> are read at every call and the usage since the last call computed
  from the differences. A file is \<open>None\<close> when it cannot be opened. The array that
  \<open>init_cpu_monitor\<close> allocates is uninitialised: \<open>g i\<close> is what entry \<open>i\<close> holds.
  The lemmas show what two readings of a well-formed \<open>/proc/stat\<close> give, and that
  the usage is a percentage as long as no counter decreases.
\<close>

record cpu_stat =
  total_user :: u64
  total_user_low :: u64
  total_sys :: u64
  total_idle :: u64
  total_iowait :: u64
  total_irq :: u64
  total_softirq :: u64
  total_steal :: u64
  total_guest :: u64
  total_guest_nice :: u64
  usage :: dbl

record cpu_monitor =
  cpu_number :: int
  cpu_stat_array :: "cpu_stat list option"

definition Cpu_monitor_new :: "int \<Rightarrow> cpu_monitor" where
  "Cpu_monitor_new cpu_num = \<lparr>cpu_number = cpu_num, cpu_stat_array = None\<rparr>"

subsection \<open>Reading /proc/stat\<close>

text \<open>\<open>sscanf\<close> stores the values it converts and leaves the other fields alone.\<close>

definition store_stats :: "u64 list \<Rightarrow> cpu_stat \<Rightarrow> cpu_stat" where
  "store_stats vs st =
     (let v = (\<lambda>i d. if i < length vs then vs ! i else d)
      in st\<lparr>total_user := v 0 (total_user st), total_user_low := v 1 (total_user_low st),
            total_sys := v 2 (total_sys st), total_idle := v 3 (total_idle st),
            total_iowait := v 4 (total_iowait st), total_irq := v 5 (total_irq st),
            total_softirq := v 6 (total_softirq st), total_steal := v 7 (total_steal st),
            total_guest := v 8 (total_guest st), total_guest_nice := v 9 (total_guest_nice st)\<rparr>)"

text \<open>
  The formats \<open>"cpu %llu ..."\<close> of the first line and \<open>"cpu%d %llu ..."\<close> of the
  others, with ten counters each.
\<close>

definition scan_stat :: "nat \<Rightarrow> string \<Rightarrow> u64 list" where
  "scan_stat cnt buf =
     (case scan_lit ''cpu'' buf of
        None \<Rightarrow> []
      | Some r \<Rightarrow>
          if cnt = 0 then scan_llus 10 r
          else (case scan_d r of None \<Rightarrow> [] | Some (tmp, r') \<Rightarrow> scan_llus 10 r'))"

definition is_cpu_line :: "string \<Rightarrow> bool" where
  "is_cpu_line buf \<longleftrightarrow> strstr (c_str buf) ''cpu'' \<noteq> None"

fun init_lines :: "nat \<Rightarrow> string list \<Rightarrow> cpu_stat list \<Rightarrow> cpu_stat list res" where
  "init_lines cnt [] arr = Inr arr"
| "init_lines cnt (buf # bufs) arr =
     (if \<not> is_cpu_line buf then Inr arr
      else bind_res (vec_at arr (int cnt)) (\<lambda>st.
           init_lines (cnt + 1) bufs (arr[cnt := store_stats (scan_stat cnt (c_str buf)) st])))"

definition BUF_SIZE :: nat where "BUF_SIZE = 256"

definition init_cpu_monitor ::
  "(nat \<Rightarrow> cpu_stat) \<Rightarrow> string option \<Rightarrow> cpu_monitor \<Rightarrow> (int \<times> cpu_monitor) res" where
  "init_cpu_monitor g file cm =
     (let arr = map g [0..<nat (cpu_number cm + 1)]
      in case file of
           None \<Rightarrow> Inr (-1, cm\<lparr>cpu_stat_array := Some arr\<rparr>)
         | Some s \<Rightarrow>
             bind_res (init_lines 0 (fgets_loop (BUF_SIZE - 1) s) arr) (\<lambda>arr'.
             Inr (0, cm\<lparr>cpu_stat_array := Some arr'\<rparr>)))"

subsection \<open>Usage\<close>

definition overflowed :: "cpu_stat \<Rightarrow> cpu_stat \<Rightarrow> bool" where
  "overflowed old new \<longleftrightarrow>
     total_user new < total_user old \<or> total_sys new < total_sys old \<or>
     total_guest new < total_guest old"

definition busy_ticks :: "cpu_stat \<Rightarrow> cpu_stat \<Rightarrow> u64" where
  "busy_ticks old new =
     (total_user new - total_user old) + (total_user_low new - total_user_low old) +
     (total_sys new - total_sys old) + (total_iowait new - total_iowait old) +
     (total_irq new - total_irq old) + (total_softirq new - total_softirq old) +
     (total_steal new - total_steal old) + (total_guest new - total_guest old) +
     (total_guest_nice new - total_guest_nice old)"

definition all_ticks :: "cpu_stat \<Rightarrow> cpu_stat \<Rightarrow> u64" where
  "all_ticks old new = busy_ticks old new + (total_idle new - total_idle old)"

definition usage_of :: "int \<Rightarrow> nat \<Rightarrow> cpu_stat \<Rightarrow> cpu_stat \<Rightarrow> dbl" where
  "usage_of cpu_num cnt old new =
     (if overflowed old new then Fin 0
      else (let percent = dbl_of_u64 (busy_ticks old new) / dbl_of_u64 (all_ticks old new) *
                          dbl_of_int 100
            in if cnt = 0 then percent * dbl_of_int cpu_num else percent))"

fun usage_lines ::
  "int \<Rightarrow> nat \<Rightarrow> string list \<Rightarrow> cpu_stat list \<Rightarrow> dbl list \<Rightarrow> (cpu_stat list \<times> dbl list) res" where
  "usage_lines cpu_num cnt [] arr us = Inr (arr, us)"
| "usage_lines cpu_num cnt (buf # bufs) arr us =
     (if \<not> is_cpu_line buf then Inr (arr, us)
      else bind_res (vec_at arr (int cnt)) (\<lambda>old.
           let new = store_stats (scan_stat cnt (c_str buf)) old;
               u = usage_of cpu_num cnt old new
           in usage_lines cpu_num (cnt + 1) bufs (arr[cnt := new\<lparr>usage := u\<rparr>]) (us @ [u])))"

text \<open>The result is the return value, the vector \<open>usage\<close> and the monitor.\<close>

definition get_cpu_usage ::
  "string option \<Rightarrow> dbl list \<Rightarrow> cpu_monitor \<Rightarrow> (int \<times> dbl list \<times> cpu_monitor) res" where
  "get_cpu_usage file us cm =
     (case cpu_stat_array cm of
        None \<Rightarrow> Inr (-1, us, cm)
      | Some arr \<Rightarrow>
          (case file of
             None \<Rightarrow> Inr (-1, [], cm)
           | Some s \<Rightarrow>
               bind_res (usage_lines (cpu_number cm) 0 (fgets_loop (BUF_SIZE - 1) s) arr [])
                 (\<lambda>(arr', us'). Inr (0, us', cm\<lparr>cpu_stat_array := Some arr'\<rparr>))))"

subsection \<open>Well-formed contents of /proc/stat\<close>

text \<open>
  The line of the total (index 0) or of CPU \<open>k - 1\<close>, and a file that has the
  rows \<open>rows\<close> and goes on with \<open>r\<close>.
\<close>

definition cpu_line :: "nat \<Rightarrow> nat list \<Rightarrow> string" where
  "cpu_line k ns = ''cpu'' @ (if k = 0 then '' '' else show_nat (k - 1)) @ spaced ns"

fun row_lines :: "nat \<Rightarrow> nat list list \<Rightarrow> string list" where
  "row_lines k [] = []"
| "row_lines k (ns # rows) = (cpu_line k ns @ [newline]) # row_lines (k + 1) rows"

definition proc_stat :: "nat list list \<Rightarrow> string \<Rightarrow> string" where
  "proc_stat rows r = concat (row_lines 0 rows) @ r"

definition row_ok :: "nat list \<Rightarrow> bool" where
  "row_ok ns \<longleftrightarrow> length ns = 10 \<and> (\<forall>n\<in>set ns. n < 2 ^ 64)"

definition tail_ok :: "string \<Rightarrow> bool" where
  "tail_ok r \<longleftrightarrow> r = [] \<or> \<not> is_cpu_line (fst (fgets (BUF_SIZE - 1) r))"

text \<open>The counters of a row.\<close>

definition counters :: "nat list \<Rightarrow> cpu_stat" where
  "counters ns = store_stats (map of_nat ns)
     \<lparr>total_user = 0, total_user_low = 0, total_sys = 0, total_idle = 0, total_iowait = 0,
      total_irq = 0, total_softirq = 0, total_steal = 0, total_guest = 0, total_guest_nice = 0,
      usage = Fin 0\<rparr>"

lemma store_row: "length ns = 10 \<Longrightarrow> store_stats (map of_nat ns) st = (counters ns)\<lparr>usage := usage st\<rparr>"
  by (simp add: store_stats_def counters_def Let_def)

lemma usage_of_usage [simp]:
  "usage_of n k (old\<lparr>usage := u\<rparr>) new = usage_of n k old new"
  "usage_of n k old (new\<lparr>usage := u\<rparr>) = usage_of n k old new"
  by (simp_all add: usage_of_def overflowed_def busy_ticks_def all_ticks_def)

lemma cpu_line_scan:
  assumes "row_ok ns" shows "scan_stat k (cpu_line k ns @ [newline]) = map of_nat ns"
proof -
  have ns: "length ns = 10" "\<And>n. n \<in> set ns \<Longrightarrow> n < 2 ^ 64" "ns \<noteq> []"
    using assms by (auto simp: row_ok_def)
  have nl: "\<not> digit_val (char_at [newline]) < 10" by (simp add: char_at_def digit_val_def)
  have *: "scan_llus 10 (spaced ns @ [newline]) = map of_nat ns"
    using scan_llus_spaced [of ns "[newline]"] ns nl by simp
  show ?thesis
  proof (cases "k = 0")
    case True
    then show ?thesis
      using scan_lit_append [of "''cpu''" "'' '' @ spaced ns @ [newline]"] *
      by (simp add: scan_stat_def cpu_line_def scan_llus_space isspace_def)
  next
    case False
    have "scan_number 10 (show_nat (k - 1) @ spaced ns @ [newline]) =
        Some (False, k - 1, spaced ns @ [newline])"
      using scan_number_show_nat [of "spaced ns @ [newline]" "[]" "k - 1"] spaced_not_digit [OF nl]
      by simp
    then show ?thesis
      using False scan_lit_append [of "''cpu''" "show_nat (k - 1) @ spaced ns @ [newline]"] *
      by (simp add: scan_stat_def cpu_line_def scan_d_def strtol_def)
  qed
qed

lemma cpu_line_clean: "newline \<notin> set (cpu_line k ns)" "NUL \<notin> set (cpu_line k ns)"
  by (auto simp: cpu_line_def show_nat_clean spaced_clean)

lemma cpu_line_is: "is_cpu_line (cpu_line k ns @ [newline])"
proof -
  have "c_str (cpu_line k ns @ [newline]) = cpu_line k ns @ [newline]"
    by (rule c_str_id) (simp add: cpu_line_clean)
  then show ?thesis
    using strstr_prefix [of "''cpu''"] by (simp add: is_cpu_line_def cpu_line_def)
qed

lemma cpu_line_fits:
  assumes "row_ok ns" "k \<le> 2 ^ 31" shows "length (cpu_line k ns) < BUF_SIZE - 1"
proof -
  have "length (spaced ns) \<le> 210" using assms spaced_length [of ns] by (simp add: row_ok_def)
  moreover have "length (show_nat (k - 1)) \<le> Suc 9" using assms by (intro show_nat_length) simp
  ultimately show ?thesis by (auto simp: cpu_line_def BUF_SIZE_def)
qed

lemma row_lines_read:
  assumes "list_all row_ok rows" "k + length rows \<le> 2 ^ 31"
  shows "fgets_loop (BUF_SIZE - 1) (concat (row_lines k rows) @ r) =
         row_lines k rows @ fgets_loop (BUF_SIZE - 1) r"
  using assms
proof (induction k rows rule: row_lines.induct)
  case (2 k ns rows)
  then show ?case
    using fgets_loop_line [OF cpu_line_fits cpu_line_clean(1), of ns k "concat (row_lines (k + 1) rows) @ r"]
    by simp
qed simp

lemma c_str_cpu_line: "c_str (cpu_line k ns @ [newline]) = cpu_line k ns @ [newline]"
  by (rule c_str_id) (simp add: cpu_line_clean)

text \<open>A row is stored in its entry; the others keep what they had.\<close>

lemma init_lines_rows:
  assumes "list_all row_ok rows" "cnt + length rows = length arr"
    and "rs = [] \<or> \<not> is_cpu_line (hd rs)"
  shows "init_lines cnt (row_lines cnt rows @ rs) arr =
    Inr (take cnt arr @ map2 (\<lambda>ns st. (counters ns)\<lparr>usage := usage st\<rparr>) rows (drop cnt arr))"
  using assms(1,2)
proof (induction cnt rows arbitrary: arr rule: row_lines.induct)
  case (1 k)
  then show ?case using assms(3) by (cases rs) auto
next
  case (2 k ns rows)
  let ?new = "(counters ns)\<lparr>usage := usage (arr ! k)\<rparr>"
  have k: "k < length arr" using 2 by simp
  then have d: "drop k arr = arr ! k # drop (Suc k) arr" by (simp add: Cons_nth_drop_Suc)
  have "store_stats (scan_stat k (c_str (cpu_line k ns @ [newline]))) (arr ! k) = ?new"
    using 2 by (simp add: c_str_cpu_line cpu_line_scan store_row row_ok_def)
  then have "init_lines k (row_lines k (ns # rows) @ rs) arr =
      init_lines (k + 1) (row_lines (k + 1) rows @ rs) (arr[k := ?new])"
    using k by (simp add: cpu_line_is vec_at_nat)
  also have "\<dots> = Inr (take (k + 1) (arr[k := ?new]) @
      map2 (\<lambda>ns st. (counters ns)\<lparr>usage := usage st\<rparr>) rows (drop (k + 1) (arr[k := ?new])))"
    using 2 by (intro 2) auto
  finally show ?case using k d by (simp add: take_Suc_conv_app_nth)
qed

lemma usage_lines_rows:
  assumes "list_all row_ok rows" "cnt + length rows = length arr"
    and "rs = [] \<or> \<not> is_cpu_line (hd rs)"
  shows "\<exists>arr'. length arr' = length arr \<and>
    usage_lines n cnt (row_lines cnt rows @ rs) arr us =
    Inr (arr', us @ map (\<lambda>k. usage_of n (cnt + k) (arr ! (cnt + k)) (counters (rows ! k)))
                      [0..<length rows])"
  using assms(1,2)
proof (induction cnt rows arbitrary: arr us rule: row_lines.induct)
  case (1 k)
  then show ?case using assms(3) by (cases rs) auto
next
  case (2 k ns rows)
  let ?st = "(counters ns)\<lparr>usage := usage (arr ! k)\<rparr>"
  let ?u = "usage_of n k (arr ! k) (counters ns)"
  let ?arr = "arr[k := ?st\<lparr>usage := ?u\<rparr>]"
  have k: "k < length arr" using 2 by simp
  have "store_stats (scan_stat k (c_str (cpu_line k ns @ [newline]))) (arr ! k) = ?st"
    using 2 by (simp add: c_str_cpu_line cpu_line_scan store_row row_ok_def)
  then have step: "usage_lines n k (row_lines k (ns # rows) @ rs) arr us =
      usage_lines n (k + 1) (row_lines (k + 1) rows @ rs) ?arr (us @ [?u])"
    using k by (simp add: cpu_line_is vec_at_nat Let_def)
  obtain arr' where "length arr' = length ?arr"
    "usage_lines n (k + 1) (row_lines (k + 1) rows @ rs) ?arr (us @ [?u]) =
      Inr (arr', (us @ [?u]) @ map (\<lambda>j. usage_of n (k + 1 + j) (?arr ! (k + 1 + j)) (counters (rows ! j)))
        [0..<length rows])"
    using "2.IH" [of ?arr "us @ [?u]"] "2.prems" by auto
  then show ?case
    unfolding step by (auto simp: upt_conv_Cons simp del: upt_Suc simp flip: map_Suc_upt)
qed

text \<open>The array afterwards holds the counters that were read.\<close>

lemma usage_lines_array:
  assumes "list_all row_ok rows" "cnt + length rows = length arr" "rs = [] \<or> \<not> is_cpu_line (hd rs)"
    and "usage_lines n cnt (row_lines cnt rows @ rs) arr us = Inr (arr', us')"
  shows "length arr' = length arr \<and> (\<forall>j<cnt. arr' ! j = arr ! j) \<and>
    (\<forall>k<length rows. \<exists>v. arr' ! (cnt + k) = (counters (rows ! k))\<lparr>usage := v\<rparr>)"
  using assms(1,2,4)
proof (induction cnt rows arbitrary: arr us rule: row_lines.induct)
  case (1 k)
  then show ?case using assms(3) by (cases rs) auto
next
  case (2 k ns rows)
  let ?arr = "arr[k := (counters ns)\<lparr>usage := usage_of n k (arr ! k) (counters ns)\<rparr>]"
  have k: "k < length arr" using 2 by simp
  have "store_stats (scan_stat k (c_str (cpu_line k ns @ [newline]))) (arr ! k) = (counters ns)\<lparr>usage := usage (arr ! k)\<rparr>"
    using 2 by (simp add: c_str_cpu_line cpu_line_scan store_row row_ok_def)
  then have "usage_lines n (k + 1) (row_lines (k + 1) rows @ rs) ?arr (us @ [usage_of n k (arr ! k) (counters ns)]) = Inr (arr', us')"
    using k "2.prems"(3) by (simp add: cpu_line_is vec_at_nat Let_def)
  then have ih: "length arr' = length ?arr" "\<forall>j<k + 1. arr' ! j = ?arr ! j"
    "\<forall>j<length rows. \<exists>v. arr' ! (k + 1 + j) = (counters (rows ! j))\<lparr>usage := v\<rparr>"
    using "2.IH" [of ?arr] "2.prems" by auto
  have "\<exists>v. arr' ! (k + j) = (counters ((ns # rows) ! j))\<lparr>usage := v\<rparr>" if "j < length (ns # rows)" for j
    using ih k that by (cases j) auto
  then show ?case using ih by auto
qed

subsection \<open>Percentages\<close>

definition advance :: "cpu_stat \<Rightarrow> cpu_stat \<Rightarrow> bool" where
  "advance old new \<longleftrightarrow>
     total_user old \<le> total_user new \<and> total_user_low old \<le> total_user_low new \<and>
     total_sys old \<le> total_sys new \<and> total_idle old \<le> total_idle new \<and>
     total_iowait old \<le> total_iowait new \<and> total_irq old \<le> total_irq new \<and>
     total_softirq old \<le> total_softirq new \<and> total_steal old \<le> total_steal new \<and>
     total_guest old \<le> total_guest new \<and> total_guest_nice old \<le> total_guest_nice new"

text \<open>The ticks since the last reading, as an exact number.\<close>

definition ticks :: "cpu_stat \<Rightarrow> cpu_stat \<Rightarrow> int" where
  "ticks old new =
     (uint (total_user new) - uint (total_user old)) +
     (uint (total_user_low new) - uint (total_user_low old)) +
     (uint (total_sys new) - uint (total_sys old)) +
     (uint (total_iowait new) - uint (total_iowait old)) +
     (uint (total_irq new) - uint (total_irq old)) +
     (uint (total_softirq new) - uint (total_softirq old)) +
     (uint (total_steal new) - uint (total_steal old)) +
     (uint (total_guest new) - uint (total_guest old)) +
     (uint (total_guest_nice new) - uint (total_guest_nice old)) +
     (uint (total_idle new) - uint (total_idle old))"

lemma all_ticks_word: "all_ticks old new = word_of_int (ticks old new)"
  by (simp add: all_ticks_def busy_ticks_def ticks_def)

lemma busy_ticks_word:
  "busy_ticks old new = word_of_int (ticks old new - (uint (total_idle new) - uint (total_idle old)))"
  by (simp add: busy_ticks_def ticks_def)

lemma busy_le_all:
  assumes "advance old new" "ticks old new < 2 ^ 64"
  shows "uint (busy_ticks old new) \<le> uint (all_ticks old new)" "uint (all_ticks old new) = ticks old new"
proof -
  let ?idle = "uint (total_idle new) - uint (total_idle old)"
  have "0 \<le> ?idle" "?idle \<le> ticks old new"
    using assms(1) by (auto simp: advance_def ticks_def word_le_def)
  then have "uint (busy_ticks old new) = ticks old new - ?idle" "uint (all_ticks old new) = ticks old new"
    using assms(2) unfolding busy_ticks_word all_ticks_word by (simp_all only: uint_word_of_int_u64)
  then show "uint (busy_ticks old new) \<le> uint (all_ticks old new)"
    "uint (all_ticks old new) = ticks old new" using \<open>0 \<le> ?idle\<close> by simp_all
qed

text \<open>The usage against the share of the ticks that were not idle, in exact arithmetic.\<close>

lemma usage_close:
  assumes "advance old new" "0 < ticks old new" "ticks old new < 2 ^ 64"
    "idle = uint (total_idle new) - uint (total_idle old)" "share = 1 - of_int idle / of_int (ticks old new)"
  obtains y where "rel_close 4 (100 * share) y" "sized 67 y" "0 \<le> y" "y \<le> 100"
    "usage_of n k old new = (if k = 0 then Fin y * dbl_of_int n else Fin y)"
proof -
  have "0 \<le> idle" "idle \<le> ticks old new"
    using assms(1,4) by (auto simp: advance_def ticks_def word_le_def)
  then have b: "uint (busy_ticks old new) = ticks old new - idle"
    using assms(3) unfolding busy_ticks_word assms(4) [symmetric] by (simp only: uint_word_of_int_u64)
  note a = busy_le_all [OF assms(1,3)]
  have "0 < uint (all_ticks old new)" using a(2) assms(2) by simp
  then obtain y where y: "dbl_of_u64 (busy_ticks old new) / dbl_of_u64 (all_ticks old new) * dbl_of_int 100 = Fin y"
    "sized 67 y" "y \<le> 100" "rel_close 4 (of_int (uint (busy_ticks old new)) / of_int (uint (all_ticks old new)) * 100) y"
    using percent_close [OF a(1)] by blast
  have "of_int (ticks old new) \<noteq> (0 :: rat)" using assms(2) by simp
  then have "of_int (ticks old new - idle) / of_int (ticks old new) = share"
    unfolding assms(5) of_int_diff by (simp add: diff_divide_distrib)
  then have "rel_close 4 (100 * share) y" using y(4) unfolding a(2) b by (simp add: mult.commute)
  moreover have "\<not> overflowed old new" using assms(1) by (auto simp: overflowed_def advance_def not_less)
  then have "usage_of n k old new = (if k = 0 then Fin y * dbl_of_int n else Fin y)"
    using y(1) by (simp add: usage_of_def Let_def)
  moreover have "0 \<le> y" using y(4) by (simp add: rel_close_def)
  ultimately show ?thesis using that y(2,3) by blast
qed

lemma usage_share:
  assumes "advance old new" "0 < ticks old new" "ticks old new < 2 ^ 64"
  obtains y where "0 \<le> y" "y \<le> 100" "usage_of n k old new = (if k = 0 then Fin y * dbl_of_int n else Fin y)"
  using usage_close [OF assms refl refl] that by blast

lemma usage_lines_overflow:
  assumes "list_all row_ok rows" "cnt \<le> length arr" "length arr < cnt + length rows"
  shows "usage_lines n cnt (row_lines cnt rows @ rs) arr us = Inl Out_Of_Range"
  using assms
proof (induction cnt rows arbitrary: arr us rule: row_lines.induct)
  case (2 k ns rows)
  then show ?case
    by (cases "k < length arr") (auto simp: cpu_line_is vec_at_def Let_def)
qed simp

text \<open>What the monitor holds after \<open>init_cpu_monitor\<close> has read the rows \<open>old\<close>.\<close>

definition read_array :: "(nat \<Rightarrow> cpu_stat) \<Rightarrow> nat list list \<Rightarrow> cpu_stat list" where
  "read_array g old = map2 (\<lambda>ns st. (counters ns)\<lparr>usage := usage st\<rparr>) old (map g [0..<length old])"

lemma tail_ok_lines: "tail_ok r \<Longrightarrow> fgets_loop (BUF_SIZE - 1) r = [] \<or> \<not> is_cpu_line (hd (fgets_loop (BUF_SIZE - 1) r))"
  by (auto simp: tail_ok_def fgets_loop.simps [of _ r])

lemma proc_stat_lines:
  assumes "list_all row_ok rows" "length rows \<le> 2 ^ 31"
  shows "fgets_loop (BUF_SIZE - 1) (proc_stat rows r) = row_lines 0 rows @ fgets_loop (BUF_SIZE - 1) r"
  using row_lines_read [of rows 0 r] assms by (simp add: proc_stat_def)

lemma init_reads_rows:
  assumes "n < 2 ^ 31" "list_all row_ok old" "int (length old) = n + 1" "tail_ok r"
  shows "init_cpu_monitor g (Some (proc_stat old r)) (Cpu_monitor_new n) =
    Inr (0, \<lparr>cpu_number = n, cpu_stat_array = Some (read_array g old)\<rparr>)"
proof -
  have len: "nat (n + 1) = length old" "length old \<le> 2 ^ 31" using assms(1,3) by auto
  show ?thesis
    unfolding init_cpu_monitor_def Cpu_monitor_new_def
    using init_lines_rows [OF assms(2) _ tail_ok_lines [OF assms(4)], of 0 "map g [0..<length old]"] len
    by (simp add: proc_stat_lines [OF assms(2)] read_array_def Let_def del: One_nat_def)
qed

lemma read_array_usage:
  "k < length old \<Longrightarrow> usage_of n k (read_array g old ! k) new = usage_of n k (counters (old ! k)) new"
  by (simp add: read_array_def)

lemma get_cpu_usage_array:
  assumes "list_all row_ok new" "length new \<le> 2 ^ 31" "tail_ok r" "length new = length arr"
  obtains arr' where "length arr' = length arr"
    "get_cpu_usage (Some (proc_stat new r)) us \<lparr>cpu_number = n, cpu_stat_array = Some arr\<rparr> =
      Inr (0, map (\<lambda>k. usage_of n k (arr ! k) (counters (new ! k))) [0..<length new],
           \<lparr>cpu_number = n, cpu_stat_array = Some arr'\<rparr>)"
proof -
  obtain arr' where "length arr' = length arr"
    "usage_lines n 0 (row_lines 0 new @ fgets_loop (BUF_SIZE - 1) r) arr [] =
       Inr (arr', [] @ map (\<lambda>k. usage_of n (0 + k) (arr ! (0 + k)) (counters (new ! k))) [0..<length new])"
    using usage_lines_rows [OF assms(1) _ tail_ok_lines [OF assms(3)], of 0 arr n "[]"] assms(4) by force
  then show ?thesis
    using that unfolding get_cpu_usage_def
    by (simp add: proc_stat_lines [OF assms(1,2)] del: One_nat_def)
qed

lemma get_cpu_usage_rows:
  assumes "list_all row_ok new" "length new \<le> 2 ^ 31" "tail_ok r" "length new = length arr"
  obtains arr' where
    "get_cpu_usage (Some (proc_stat new r)) us \<lparr>cpu_number = n, cpu_stat_array = Some arr\<rparr> =
      Inr (0, map (\<lambda>k. usage_of n k (arr ! k) (counters (new ! k))) [0..<length new],
           \<lparr>cpu_number = n, cpu_stat_array = Some arr'\<rparr>)"
  using get_cpu_usage_array [OF assms] that by metis

subsection \<open>Properties\<close>

text \<open>C21. Two readings of a well-formed \<open>/proc/stat\<close>, one by \<open>init_cpu_monitor\<close> and one by
  \<open>get_cpu_usage\<close>, give one usage for the total and one for each CPU, in the order of the file,
  each computed from that row's counters in the two files.\<close>

theorem cpu_usage_between_readings:
  assumes "0 \<le> n" "n < 2 ^ 31" "list_all row_ok old" "list_all row_ok new"
    "int (length old) = n + 1" "int (length new) = n + 1" "tail_ok r" "tail_ok r'"
  shows "\<exists>cm cm'. init_cpu_monitor g (Some (proc_stat old r)) (Cpu_monitor_new n) = Inr (0, cm) \<and>
    get_cpu_usage (Some (proc_stat new r')) us cm =
      Inr (0, map (\<lambda>k. usage_of n k (counters (old ! k)) (counters (new ! k))) [0..<nat (n + 1)], cm')"
proof -
  have len: "nat (n + 1) = length new" "length new = length (read_array g old)" "length new \<le> 2 ^ 31"
    "length old = length new"
    using assms(1,2,5,6) by (auto simp: read_array_def)
  obtain arr' where
    "get_cpu_usage (Some (proc_stat new r')) us \<lparr>cpu_number = n, cpu_stat_array = Some (read_array g old)\<rparr> =
      Inr (0, map (\<lambda>k. usage_of n k (read_array g old ! k) (counters (new ! k))) [0..<length new],
           \<lparr>cpu_number = n, cpu_stat_array = Some arr'\<rparr>)"
    by (rule get_cpu_usage_rows [OF assms(4) len(3) assms(8) len(2)])
  then show ?thesis
    using init_reads_rows [OF assms(2,3,5,7)] len by (simp add: read_array_usage cong: map_cong)
qed

lemma ex_tail: "tail_ok ''intr 5''"
  by code_simp

theorem cpu_usage_between_readings_witness:
  "\<exists>cm cm'. init_cpu_monitor (\<lambda>_. counters []) (Some (proc_stat [[1,0,2,9,0,0,0,0,0,0], [1,0,2,9,0,0,0,0,0,0]] ''intr 5''))
      (Cpu_monitor_new 1) = Inr (0, cm) \<and>
    get_cpu_usage (Some (proc_stat [[2,0,2,12,0,0,0,0,0,0], [2,0,2,12,0,0,0,0,0,0]] ''intr 5'')) [] cm =
      Inr (0, map (\<lambda>k. usage_of 1 k
          (counters ([[1,0,2,9,0,0,0,0,0,0], [1,0,2,9,0,0,0,0,0,0]] ! k))
          (counters ([[2,0,2,12,0,0,0,0,0,0], [2,0,2,12,0,0,0,0,0,0]] ! k))) [0..<nat (1 + 1)], cm')"
  by (rule cpu_usage_between_readings) (simp_all add: row_ok_def ex_tail)

text \<open>C22. As long as no counter decreases and some tick has passed, the usage of a CPU is the percentage of its
  ticks that were not idle, and the total is that percentage times the number of CPUs, both up to a relative
  rounding error of \<open>1 / 2 ^ 49\<close>; the first lies between 0 and 100, the second between 0 and 100 times the number of CPUs.\<close>

theorem cpu_usage_is_percentage:
  assumes "advance old new" "0 < ticks old new" "ticks old new < 2 ^ 64" "0 \<le> n" "n < 2 ^ 31"
    "idle = uint (total_idle new) - uint (total_idle old)" "share = 1 - of_int idle / of_int (ticks old new)"
  shows "(0 < k \<longrightarrow> (\<exists>y. usage_of n k old new = Fin y \<and> 0 \<le> y \<and> y \<le> 100 \<and>
      \<bar>y - 100 * share\<bar> \<le> 100 * share / 2 ^ 49)) \<and>
    (\<exists>z. usage_of n 0 old new = Fin z \<and> 0 \<le> z \<and> z \<le> 100 * of_int n \<and>
      \<bar>z - 100 * share * of_int n\<bar> \<le> 100 * share * of_int n / 2 ^ 49)"
proof (intro conjI impI)
  obtain y where "rel_close 4 (100 * share) y" "0 \<le> y" "y \<le> 100" "usage_of n k old new = (if k = 0 then Fin y * dbl_of_int n else Fin y)"
    by (rule usage_close [OF assms(1-3,6,7)])
  then show "\<exists>y. usage_of n k old new = Fin y \<and> 0 \<le> y \<and> y \<le> 100 \<and> \<bar>y - 100 * share\<bar> \<le> 100 * share / 2 ^ 49" if "0 < k"
    using rel_close_error [of 4 "100 * share" y] that by (intro exI [of _ y]) simp
  obtain y where y: "rel_close 4 (100 * share) y" "sized 67 y" "0 \<le> y" "y \<le> 100"
    "usage_of n 0 old new = (if (0 :: nat) = 0 then Fin y * dbl_of_int n else Fin y)"
    by (rule usage_close [OF assms(1-3,6,7)])
  have n: "dbl_of_int n = Fin (of_int n)" using assms(4,5) by (simp add: dbl_of_int_small)
  have n1: "of_int n = (0 :: rat) \<or> 1 \<le> (of_int n :: rat)" using assms(4) by (cases "n = 0") simp_all
  have b: "0 \<le> y * of_int n" "y * of_int n \<le> of_int (100 * n)" "of_int (100 * n) \<le> (of_int (100 * 2 ^ 31) :: rat)"
    using y assms(4,5) by (simp_all only: of_int_le_iff) (simp_all add: mult_right_mono)
  have le: "y * of_int n \<le> 2 ^ 200" by (rule order_trans [OF order_trans [OF b(2,3)]]) simp
  obtain z where z: "rnd (y * of_int n) = Fin z" "rel_close 1 (y * of_int n) z"
    using rnd_sized [OF sized_mult [OF y(2) n1] _ le] by auto
  have "rnd (y * of_int n) \<le> Fin (of_int (100 * n))"
    by (rule rnd_le_Fin [OF _ b(2)]) (use assms(4,5) in \<open>simp add: rnd_of_int del: of_int_mult\<close>)
  then have "z \<le> 100 * of_int n" using z(1) by (simp add: less_eq_dbl_def)
  moreover have "rel_close (4 + 0) (100 * share * of_int n) (y * of_int n)"
    by (rule rel_close_mult [OF y(1) rel_close_refl]) (use assms(4) in simp)
  from rel_close_trans [OF this z(2)] have c: "rel_close 5 (100 * share * of_int n) z" by simp
  moreover from c have "0 \<le> z" by (simp add: rel_close_def)
  moreover have "usage_of n 0 old new = Fin z" using y(5) z(1) n by (simp add: times_dbl_def)
  ultimately show "\<exists>z. usage_of n 0 old new = Fin z \<and> 0 \<le> z \<and> z \<le> 100 * of_int n \<and>
      \<bar>z - 100 * share * of_int n\<bar> \<le> 100 * share * of_int n / 2 ^ 49"
    using rel_close_error [OF c] by (intro exI [of _ z]) simp
qed

theorem cpu_usage_is_percentage_witness:
  "\<exists>y z. usage_of 4 1 (counters [1,0,2,9,0,0,0,0,0,0]) (counters [2,0,2,12,0,0,0,0,0,0]) = Fin y \<and>
      \<bar>y - 25\<bar> \<le> 25 / 2 ^ 49 \<and>
    usage_of 4 0 (counters [1,0,2,9,0,0,0,0,0,0]) (counters [2,0,2,12,0,0,0,0,0,0]) = Fin z \<and>
      \<bar>z - 100\<bar> \<le> 100 / 2 ^ 49"
proof -
  let ?old = "counters [1,0,2,9,0,0,0,0,0,0]" and ?new = "counters [2,0,2,12,0,0,0,0,0,0]"
  have c: "advance ?old ?new" "ticks ?old ?new = 4" "3 = uint (total_idle ?new) - uint (total_idle ?old)"
    by (simp_all add: advance_def ticks_def counters_def store_stats_def)
  have s: "1 / 4 = 1 - of_int 3 / (of_int (ticks ?old ?new) :: rat)" unfolding c(2) by simp
  have t: "0 < ticks ?old ?new" "ticks ?old ?new < 2 ^ 64" unfolding c(2) by simp_all
  have n: "(0 :: int) \<le> 4" "(4 :: int) < 2 ^ 31" by simp_all
  have "\<exists>y. usage_of 4 1 ?old ?new = Fin y \<and> \<bar>y - 25\<bar> \<le> 25 / 2 ^ 49"
    using cpu_usage_is_percentage [OF c(1) t n c(3) s, of 1] by (elim conjE impE exE) (rule zero_less_one, rule exI, simp)
  moreover have "\<exists>z. usage_of 4 0 ?old ?new = Fin z \<and> \<bar>z - 100\<bar> \<le> 100 / 2 ^ 49"
    using cpu_usage_is_percentage [OF c(1) t n c(3) s, of 1] by (elim conjE exE) (rule exI, simp)
  ultimately show ?thesis by blast
qed

text \<open>C40. The check for a counter that went backwards covers three of the ten. On a CPU that does nothing but idle, so
  that the other counters stay as they are, a decrease of the I/O wait time, which Linux documents as possible,
  by less than the idle time grows makes the usage exceed \<open>2 ^ 32\<close> percent.\<close>

theorem iowait_decrease_breaks_usage:
  assumes "total_iowait new = total_iowait old - w" "w \<le> total_iowait old" "0 < w"
    "new\<lparr>total_iowait := i, total_idle := j\<rparr> = old\<lparr>total_iowait := i, total_idle := j\<rparr>"
    "total_idle new = total_idle old + d" "w < d" "uint d \<le> 2 ^ 32"
  shows "Fin (2 ^ 32) \<le> usage_of n (Suc k) old new"
proof -
  have eqs: "total_user new = total_user old" "total_user_low new = total_user_low old"
    "total_sys new = total_sys old" "total_irq new = total_irq old"
    "total_softirq new = total_softirq old" "total_steal new = total_steal old"
    "total_guest new = total_guest old" "total_guest_nice new = total_guest_nice old"
    using assms(4) by (cases new; cases old; simp)+
  have busy: "busy_ticks old new = - w" by (simp add: busy_ticks_def eqs assms(1))
  then have all: "all_ticks old new = d - w" by (simp add: all_ticks_def assms(5))
  have w: "0 < uint w" "uint w < uint d" using assms(3,6) by (simp_all add: word_less_def)
  have ud: "uint (all_ticks old new) = uint d - uint w"
    unfolding all using uint_sub_lem [of w d] w(2) by simp
  have "uint (- w) = 2 ^ 64 - uint w"
    using w uint_lt2p [of w] by (simp add: uint_word_ariths zmod_zminus1_eq_if)
  then have ub: "2 ^ 63 \<le> uint (busy_ticks old new)" "uint (busy_ticks old new) \<le> 2 ^ 64"
    unfolding busy using w assms(7) by simp_all
  then have "of_int (2 ^ 63) \<le> (of_int (uint (busy_ticks old new)) :: rat)" "(of_int (uint (busy_ticks old new)) :: rat) \<le> of_int (2 ^ 64)"
    by (simp_all only: of_int_le_iff)
  then obtain a where a: "dbl_of_u64 (busy_ticks old new) = Fin a" "2 ^ 63 \<le> a" "a \<le> 2 ^ 64"
    using rnd_enclose [of "2 ^ 63" "of_int (uint (busy_ticks old new))" "2 ^ 64"] rnd_power2 [of 63] rnd_power2 [of 64]
    unfolding dbl_of_u64_def by auto
  define b :: rat where "b = of_int (uint d - uint w)"
  have "(1 :: rat) \<le> of_int (uint d - uint w)" "(of_int (uint d - uint w) :: rat) \<le> of_int (2 ^ 32)"
    using w assms(7) by (simp_all only: of_int_le_iff of_int_1_le_iff)
  then have t: "1 \<le> b" "b \<le> 2 ^ 32" by (simp_all add: b_def del: of_int_diff)
  have b: "dbl_of_u64 (all_ticks old new) = Fin b"
    using w assms(7) unfolding dbl_of_u64_def ud b_def by (intro rnd_of_int) simp
  have "2 ^ 63 / 2 ^ 32 \<le> a / b" "a / b \<le> 2 ^ 64 / 1" by (rule frac_le; use a t in simp)+
  then have "2 powi 31 \<le> a / b" "a / b \<le> 2 powi 64" by simp_all
  then obtain q where q: "rnd (a / b) = Fin q" "2 powi 31 \<le> q"
    using rnd_enclose [of "2 powi 31" "a / b" "2 powi 64"] rnd_power2 [of 31] rnd_power2 [of 64] by auto
  have "\<not> overflowed old new" by (simp add: overflowed_def eqs)
  then have "usage_of n (Suc k) old new = rnd (q * 100)"
    using a(1) b q(1) t by (simp add: usage_of_def Let_def divide_dbl_def times_dbl_def dbl_of_int_def)
  then show ?thesis
    using rnd_mono [of "2 ^ 32" "q * 100"] q(2) by simp
qed

theorem iowait_decrease_breaks_usage_witness:
  "Fin (2 ^ 32) \<le> usage_of 4 (Suc 0) (counters [1,0,2,9,25,0,0,0,0,0]) (counters [1,0,2,109,5,0,0,0,0,0])"
  by (rule iowait_decrease_breaks_usage [where d = 100 and w = 20])
     (simp_all add: counters_def store_stats_def)

text \<open>The array has one entry per CPU that was online when the monitor was made and one for
  the total. A \<open>/proc/stat\<close> with more \<open>cpu\<close> lines (a CPU brought online later) runs past its end.\<close>

theorem cpu_lines_beyond_array:
  assumes "list_all row_ok rows" "length rows \<le> 2 ^ 31" "length arr < length rows"
  shows "get_cpu_usage (Some (proc_stat rows r)) us \<lparr>cpu_number = n, cpu_stat_array = Some arr\<rparr> =
    Inl Out_Of_Range"
  using usage_lines_overflow [of rows 0 arr n "fgets_loop (BUF_SIZE - 1) r" "[]"] assms
  unfolding get_cpu_usage_def by (simp add: proc_stat_lines del: One_nat_def)

theorem cpu_lines_beyond_array_witness:
  "get_cpu_usage (Some (proc_stat [[1,0,2,9,0,0,0,0,0,0], [1,0,2,9,0,0,0,0,0,0]] ''intr 5'')) []
     \<lparr>cpu_number = 0, cpu_stat_array = Some [counters []]\<rparr> = Inl Out_Of_Range"
  by (rule cpu_lines_beyond_array) (simp_all add: row_ok_def)

end
