(* ===== verification/MemMonitor.thy ===== *)
theory MemMonitor
  imports CLib VMInfo
begin

section \<open>Memory of the nodes and of the machines\<close>

text \<open>
  \<open>src/Mem_monitor.cpp\<close> and \<open>include/Mem_monitor.h\<close>: the free memory of the nodes,
  which libvirt reports, and the distribution of a process's pages over them,
  parsed from \<open>/proc/<pid>/numa_maps\<close>. \<open>virNodeGetCellsFreeMemory\<close> is a parameter:
  it returns a status and the values it has stored. The vector that an operation
  fills is part of its result, since callers use it after a failure too.
\<close>

record mem_monitor =
  mem_numa_number :: int
  mem_free_mems :: "u64 list"

text \<open>The constructor; \<open>g i\<close> is what the allocated array holds at \<open>i\<close>.\<close>

definition Mem_monitor_new :: "(nat \<Rightarrow> u64) \<Rightarrow> int \<Rightarrow> mem_monitor" where
  "Mem_monitor_new g numa_num =
     \<lparr>mem_numa_number = numa_num, mem_free_mems = map g [0..<nat numa_num]\<rparr>"

definition get_node_freemem ::
  "(int \<Rightarrow> int \<times> u64 list) \<Rightarrow> vir_ptr \<Rightarrow> u64 list \<Rightarrow> mem_monitor \<Rightarrow> (int \<times> u64 list \<times> mem_monitor) res" where
  "get_node_freemem cells conn free_mem mm =
     (if conn = None then Inr (-1, free_mem, mm)
      else (let (ret, vals) = cells (mem_numa_number mm);
                arr = vals @ drop (length vals) (mem_free_mems mm);
                mm' = mm\<lparr>mem_free_mems := arr\<rparr>
            in if ret < 0 then Inr (-1, free_mem, mm')
               else bind_res
                      (fold_res (\<lambda>i acc. bind_res (vec_at arr i) (\<lambda>v. Inr (acc @ [v])))
                         (map int [0..<nat ret]) free_mem)
                      (\<lambda>free_mem'. Inr (0, free_mem', mm'))))"

subsection \<open>Pages per node\<close>

definition numa_maps_path :: "u32 \<Rightarrow> string" where
  "numa_maps_path proc = snprintf 256 (''/proc/'' @ show_int (sint proc) @ ''/numa_maps'')"

definition is_delimiter :: "char \<Rightarrow> bool" where
  "is_delimiter c \<longleftrightarrow> c = CHR '' '' \<or> c = CHR 0x09 \<or> c = CHR 0x0D \<or> c = CHR 0x0A"

text \<open>One token: the return value, -1 where the function returns, and \<open>node_pages\<close>.\<close>

definition numa_token :: "int \<Rightarrow> string \<Rightarrow> u32 list \<Rightarrow> (int \<times> u32 list) res" where
  "numa_token number p node_pages =
     (if char_at p \<noteq> CHR ''N'' then Inr (0, node_pages)
      else (let (v, p') = strtol 10 (tl p); node = long_to_int v
            in if number \<le> node then Inr (-1, node_pages)
               else if char_at p' \<noteq> CHR ''='' then Inr (-1, node_pages)
               else (let pages = word_of_int (fst (strtol 10 (tl p')))
                     in bind_res (vec_at node_pages node) (\<lambda>old.
                        Inr (0, node_pages[nat node := old + pages])))))"

fun numa_tokens :: "int \<Rightarrow> string list \<Rightarrow> u32 list \<Rightarrow> (int \<times> u32 list) res" where
  "numa_tokens number [] node_pages = Inr (0, node_pages)"
| "numa_tokens number (p # ps) node_pages =
     bind_res (numa_token number p node_pages) (\<lambda>(ret, node_pages').
     if ret = -1 then Inr (-1, node_pages') else numa_tokens number ps node_pages')"

definition numa_maps_tokens :: "string \<Rightarrow> string list" where
  "numa_maps_tokens s = concat (map (\<lambda>buf. strtok is_delimiter (c_str buf)) (fgets_loop 255 s))"

definition get_proc_mem_numa_distribution ::
  "(string \<Rightarrow> string option) \<Rightarrow> int \<Rightarrow> u32 \<Rightarrow> u32 list \<Rightarrow> (int \<times> u32 list) res" where
  "get_proc_mem_numa_distribution fs number proc node_pages =
     (case fs (numa_maps_path proc) of
        None \<Rightarrow> Inr (-1, node_pages)
      | Some s \<Rightarrow> numa_tokens number (numa_maps_tokens s) (replicate (nat number) 0))"

subsection \<open>Splitting into tokens\<close>

definition plain :: "string \<Rightarrow> bool" where
  "plain t \<longleftrightarrow> t \<noteq> [] \<and> (\<forall>c\<in>set t. \<not> is_delimiter c \<and> c \<noteq> NUL)"

lemma strtok_token:
  assumes "plain t" "is_delimiter d"
  shows "strtok is_delimiter (t @ d # r) = t # strtok is_delimiter r"
proof -
  obtain c cs where t: "t = c # cs" using assms(1) by (cases t) (auto simp: plain_def)
  have "\<forall>x\<in>set cs. \<not> is_delimiter x" "\<not> is_delimiter c" using assms(1) by (auto simp: plain_def t)
  moreover have "strtok is_delimiter (d # r) = strtok is_delimiter r"
    using assms(2) by (subst (1 2) strtok.simps) simp
  ultimately show ?thesis
    using assms(2) by (subst strtok.simps) (simp add: t takeWhile_append2 dropWhile_append2)
qed

lemma strtok_Nil [simp]: "strtok is_delimiter [] = []"
  by (subst strtok.simps) simp

lemma strtok_last:
  assumes "plain t" shows "strtok is_delimiter t = [t]"
proof -
  obtain c cs where t: "t = c # cs" using assms by (cases t) (auto simp: plain_def)
  have c: "\<not> is_delimiter c" and "\<forall>x\<in>set cs. \<not> is_delimiter x" using assms by (auto simp: plain_def t)
  then have tw: "takeWhile (\<lambda>x. \<not> is_delimiter x) cs = cs" and
    dw: "dropWhile (\<lambda>x. \<not> is_delimiter x) cs = []"
    by (simp_all add: takeWhile_eq_all_conv)
  show ?thesis by (subst strtok.simps) (simp add: t c tw dw del: dropWhile_eq_Nil_conv)
qed

text \<open>A line of \<open>numa_maps\<close> without its newline, as the kernel prints it: the tokens with a blank between
  two of them and none after the last.\<close>

fun numa_line :: "string list \<Rightarrow> string" where
  "numa_line [] = []"
| "numa_line [t] = t"
| "numa_line (t # u # ts) = t @ CHR '' '' # numa_line (u # ts)"

lemma delimiters [simp]: "is_delimiter newline" "is_delimiter (CHR '' '')"
  by (simp_all add: is_delimiter_def)

lemma strtok_numa_line:
  "list_all plain ts \<Longrightarrow> strtok is_delimiter (numa_line ts @ [newline]) = ts"
proof (induction ts rule: numa_line.induct)
  case 1
  show ?case by (subst strtok.simps) simp
next
  case (2 t)
  then show ?case using strtok_token [of t newline "[]"] by simp
next
  case (3 t u ts)
  then show ?case using strtok_token [of t "CHR '' ''" "numa_line (u # ts) @ [newline]"] by simp
qed

lemma plain_clean: "plain t \<Longrightarrow> newline \<notin> set t \<and> NUL \<notin> set t"
  using delimiters(1) unfolding plain_def by metis

lemma numa_line_clean: "list_all plain ts \<Longrightarrow> newline \<notin> set (numa_line ts) \<and> NUL \<notin> set (numa_line ts)"
  by (induction ts rule: numa_line.induct) (simp_all add: plain_clean)

lemma numa_maps_tokens_lines:
  assumes "list_all (\<lambda>ts. list_all plain ts \<and> length (numa_line ts) < 255) tss"
  shows "numa_maps_tokens (concat (map (\<lambda>ts. numa_line ts @ [newline]) tss)) = concat tss"
proof -
  have "fgets_loop 255 (concat (map (\<lambda>l. l @ [newline]) (map numa_line tss))) =
      map (\<lambda>l. l @ [newline]) (map numa_line tss)"
    by (rule fgets_loop_lines) (use assms numa_line_clean in \<open>auto simp: list_all_iff\<close>)
  moreover have "strtok is_delimiter (c_str (numa_line ts @ [newline])) = ts" if "ts \<in> set tss" for ts
    using that assms numa_line_clean [of ts] strtok_numa_line [of ts]
    by (subst c_str_id) (auto simp: list_all_iff)
  ultimately show ?thesis by (simp add: numa_maps_tokens_def o_def cong: map_cong)
qed

subsection \<open>Tokens that count pages\<close>

text \<open>A token is the page count of a node, or something else.\<close>

datatype numa_tok = Pages nat nat | Text string

fun tok_str :: "numa_tok \<Rightarrow> string" where
  "tok_str (Pages node n) = CHR ''N'' # show_nat node @ CHR ''='' # show_nat n"
| "tok_str (Text t) = t"

fun tok_ok :: "int \<Rightarrow> numa_tok \<Rightarrow> bool" where
  "tok_ok number (Pages node n) \<longleftrightarrow> int node < number \<and> n < 2 ^ 63"
| "tok_ok number (Text t) \<longleftrightarrow> plain t \<and> char_at t \<noteq> CHR ''N''"

fun pages_on :: "nat \<Rightarrow> numa_tok \<Rightarrow> nat" where
  "pages_on k (Pages node n) = (if node = k then n else 0)"
| "pages_on k (Text t) = 0"

lemma digit_plain: "digit_val c < 10 \<Longrightarrow> \<not> is_delimiter c \<and> c \<noteq> NUL"
  by (auto simp: is_delimiter_def digit_val_def)

lemma tok_plain: "tok_ok number t \<Longrightarrow> plain (tok_str t)"
  using show_nat_digits digit_plain by (cases t) (fastforce simp: plain_def is_delimiter_def)+

lemma long_to_int_small: "- (2 ^ 31) \<le> i \<Longrightarrow> i < 2 ^ 31 \<Longrightarrow> long_to_int i = i"
  by (simp add: long_to_int_def signed_of_int signed_take_bit_int_eq_self)

lemma numa_token_pages:
  assumes "tok_ok number t" "number < 2 ^ 31" "length node_pages = nat number"
  shows "numa_token number (tok_str t) node_pages =
    Inr (0, map (\<lambda>k. node_pages ! k + of_nat (pages_on k t)) [0..<nat number])"
proof (cases t)
  case (Text s)
  then show ?thesis
    using assms by (simp add: numa_token_def) (metis map_nth)
next
  case (Pages node n)
  have "(10 :: nat) \<le> digit_val (CHR ''='')" by (simp add: digit_val_def)
  then have 1: "strtol 10 (show_nat node @ CHR ''='' # show_nat n) = (int node, CHR ''='' # show_nat n)"
    using assms(1,2) Pages by (intro strtol_show_nat) (auto simp: char_at_def)
  have 2: "strtol 10 (show_nat n) = (int n, [])"
    using strtol_show_nat [of n "[]"] assms(1) Pages by (simp add: char_at_def digit_val_def)
  have nd: "node < length node_pages" "\<not> number \<le> int node" using assms Pages by auto
  have "numa_token number (tok_str t) node_pages = Inr (0, node_pages[node := node_pages ! node + of_nat n])"
    using assms(2) nd Pages 1 2
    by (simp add: numa_token_def char_at_def long_to_int_small vec_at_nat)
  also have "node_pages[node := node_pages ! node + of_nat n] =
      map (\<lambda>k. node_pages ! k + of_nat (pages_on k t)) [0..<nat number]"
    using assms(3) Pages by (intro nth_equalityI) (auto simp: nth_list_update)
  finally show ?thesis .
qed

lemma numa_tokens_pages:
  assumes "list_all (tok_ok number) ts" "number < 2 ^ 31" "length node_pages = nat number"
  shows "numa_tokens number (map tok_str ts) node_pages =
    Inr (0, map (\<lambda>k. node_pages ! k + of_nat (\<Sum>t\<leftarrow>ts. pages_on k t)) [0..<nat number])"
  using assms(1,3)
proof (induction ts arbitrary: node_pages)
  case Nil
  then show ?case by simp (metis map_nth)
next
  case (Cons t ts)
  then show ?case
    using numa_token_pages [OF _ assms(2), of t node_pages] by (simp add: add.assoc)
qed

lemma sum_pages: "(\<Sum>t\<leftarrow>ts. pages_on k t) = sum_list (map (pages_on k) ts)"
  by simp

subsection \<open>Free memory\<close>

text \<open>What the loop over the filled entries appends.\<close>

lemma freemem_loop:
  "n \<le> length arr \<Longrightarrow>
   fold_res (\<lambda>i acc. bind_res (vec_at arr i) (\<lambda>v. Inr (acc @ [v]))) (map int [0..<n]) acc =
   Inr (acc @ take n arr)"
proof (induction n)
  case (Suc n)
  then show ?case by (simp add: fold_res_append vec_at_nat take_Suc_conv_app_nth)
qed simp

lemma get_node_freemem_ok:
  assumes "conn \<noteq> None" "cells (mem_numa_number mm) = (int (length vals), vals)"
  shows "get_node_freemem cells conn [] mm =
    Inr (0, vals, mm\<lparr>mem_free_mems := vals @ drop (length vals) (mem_free_mems mm)\<rparr>)"
  using assms by (simp add: get_node_freemem_def freemem_loop)

lemma distribution_counts:
  assumes "fs (numa_maps_path proc) =
      Some (concat (map (\<lambda>ts. numa_line (map tok_str ts) @ [newline]) tss))"
    "list_all (\<lambda>ts. list_all (tok_ok number) ts \<and> length (numa_line (map tok_str ts)) < 255) tss"
    "number < 2 ^ 31"
  shows "get_proc_mem_numa_distribution fs number proc node_pages =
    Inr (0, map (\<lambda>k. of_nat (sum_list (map (pages_on k) (concat tss)))) [0..<nat number])"
proof -
  have "list_all (\<lambda>ts. list_all plain ts \<and> length (numa_line ts) < 255) (map (map tok_str) tss)"
    using assms(2) tok_plain by (auto simp: list_all_iff)
  from numa_maps_tokens_lines [OF this]
  have "numa_maps_tokens (concat (map (\<lambda>ts. numa_line (map tok_str ts) @ [newline]) tss)) =
      map tok_str (concat tss)"
    by (simp add: map_concat o_def)
  moreover have "list_all (tok_ok number) (concat tss)" using assms(2) by (auto simp: list_all_iff)
  ultimately show ?thesis
    using numa_tokens_pages [OF _ assms(3), of "concat tss" "replicate (nat number) 0"] assms(1)
    by (simp add: get_proc_mem_numa_distribution_def cong: map_cong)
qed

subsection \<open>Properties\<close>

text \<open>C23. For a \<open>numa_maps\<close> whose lines fit the buffer the result is 0 and, for every node, the sum
  of the page counts of its \<open>N<node>=<pages>\<close> tokens over all lines (in 32 bits); other tokens are
  ignored.\<close>

theorem numa_maps_pages_per_node:
  assumes "fs (numa_maps_path proc) =
      Some (concat (map (\<lambda>ts. numa_line (map tok_str ts) @ [newline]) tss))"
    "list_all (\<lambda>ts. list_all (tok_ok number) ts \<and> length (numa_line (map tok_str ts)) < 255) tss"
    "number < 2 ^ 31"
  shows "get_proc_mem_numa_distribution fs number proc node_pages =
    Inr (0, map (\<lambda>k. of_nat (sum_list (map (pages_on k) (concat tss)))) [0..<nat number])"
  by (rule distribution_counts) (fact assms)+

theorem numa_maps_pages_per_node_witness:
  "get_proc_mem_numa_distribution
     (\<lambda>_. Some (''7f00 default anon=5 N0=3 N1=2 kernelpagesize_kB=4'' @ newline # ''7f80 default N1=40'' @ [newline])) 2 77 [] =
   Inr (0, [3, 42])"
proof -
  let ?tss = "[[Text ''7f00'', Text ''default'', Text ''anon=5'', Pages 0 3, Pages 1 2, Text ''kernelpagesize_kB=4''],
    [Text ''7f80'', Text ''default'', Pages 1 40]]"
  have "get_proc_mem_numa_distribution
     (\<lambda>_. Some (''7f00 default anon=5 N0=3 N1=2 kernelpagesize_kB=4'' @ newline # ''7f80 default N1=40'' @ [newline])) 2 77 [] =
   Inr (0, map (\<lambda>k. of_nat (sum_list (map (pages_on k) (concat ?tss)))) [0..<nat 2])"
    by (rule numa_maps_pages_per_node) (simp_all add: plain_def is_delimiter_def char_at_def show_nat.simps digit_chars)
  then show ?thesis by (simp add: upt_conv_Cons)
qed

text \<open>A line longer than the buffer is read in pieces. When the cut falls after the \<open>N\<close> of a
  token, a well-formed file is reported as a parse error, with no page counted.\<close>

theorem long_numa_maps_line_fails:
  assumes "fs (numa_maps_path proc) = Some (pre @ '' N'' @ rest)" "length pre = 253" "plain pre"
    "char_at pre \<noteq> CHR ''N''"
  shows "get_proc_mem_numa_distribution fs number proc node_pages = Inr (-1, replicate (nat number) 0)"
proof -
  have l: "newline \<notin> set (pre @ '' N'')" "NUL \<notin> set (pre @ '' N'')"
    using plain_clean [OF assms(3)] by auto
  have N: "plain ''N''" by (simp add: plain_def is_delimiter_def)
  have "fgets_loop 255 ((pre @ '' N'') @ rest) = (pre @ '' N'') # fgets_loop 255 rest"
    by (rule fgets_loop_full [OF _ l(1)]) (simp_all add: assms(2))
  moreover have "strtok is_delimiter (c_str (pre @ '' N'')) = [pre, ''N'']"
    using strtok_token [OF assms(3), of "CHR '' ''" "''N''"] strtok_last [OF N] c_str_id [OF l(2)] by simp
  ultimately obtain ts where "numa_maps_tokens (pre @ '' N'' @ rest) = pre # ''N'' # ts"
    by (auto simp: numa_maps_tokens_def)
  moreover have "numa_token number ''N'' np = Inr (-1, np)" for np
    by (simp add: numa_token_def char_at_def strtol_def scan_number_def skip_space_def scan_sign_def
        scan_prefix_def digit_val_def long_to_int_def)
  ultimately show ?thesis
    using assms(1,4) by (simp add: get_proc_mem_numa_distribution_def numa_token_def)
qed

theorem long_numa_maps_line_fails_witness:
  "get_proc_mem_numa_distribution (\<lambda>_. Some (replicate 253 (CHR ''a'') @ '' N'' @ ''0=5'' @ [newline]))
     2 77 [] = Inr (-1, replicate (nat 2) 0)"
  by (rule long_numa_maps_line_fails) (auto simp: plain_def is_delimiter_def char_at_replicate)

end
