(* ===== verification/IOMonitor.thy ===== *)
theory IOMonitor
  imports CLib VMInfo
begin

section \<open>Network traffic of a machine\<close>

text \<open>
  \<open>src/IOMonitor.cpp\<close> and \<open>include/IOMonitor.h\<close>: the packet and byte counters of a
  machine's virtual function, read from \<open>/sys\<close>, and the rates since the last
  reading. The file system is a function from paths to contents, \<open>None\<close> when the
  file cannot be opened; \<open>gettimeofday\<close> is the pair of seconds and microseconds.
  The object's only member is the name of the device.
\<close>

definition MAX_PATH_LEN :: nat where "MAX_PATH_LEN = 64"

text \<open>The constructor leaves \<open>netdev\<close> alone and \<open>initIOMonitor\<close> copies the name.\<close>

definition initIOMonitor :: "string \<Rightarrow> string" where
  "initIOMonitor nic = c_str nic"

definition stat_path :: "string \<Rightarrow> int \<Rightarrow> string \<Rightarrow> string" where
  "stat_path netdev vf file =
     snprintf MAX_PATH_LEN (''/sys/class/net/'' @ netdev @ ''/vf'' @ show_int vf @ ''/statistics/'' @ file)"

text \<open>\<open>fopen\<close> and \<open>fscanf("%llu")\<close>: the new value of the counter, \<open>None\<close> if the file is not there.\<close>

definition read_counter :: "(string \<Rightarrow> string option) \<Rightarrow> string \<Rightarrow> u64 \<Rightarrow> u64 option" where
  "read_counter fs path old =
     (case fs path of
        None \<Rightarrow> None
      | Some s \<Rightarrow> Some (case scan_llu s of None \<Rightarrow> old | Some (v, r) \<Rightarrow> v))"

definition timestamp_usec :: "int \<times> int \<Rightarrow> u64" where
  "timestamp_usec now = word_of_int (fst now * 1000000 + snd now)"

text \<open>The part after the four files have been read; \<open>old\<close> holds the last readings.\<close>

definition update_rates :: "int \<times> int \<Rightarrow> vm_info \<Rightarrow> vm_info \<Rightarrow> vm_info" where
  "update_rates now old vm =
     (let ts = timestamp_usec now;
          elapsedTime = dbl_of_u64 (ts - io_timestamp_usec old) / dbl_lit 1000000 1;
          packets = (rx_packets vm - rx_packets old) + (tx_packets vm - tx_packets old);
          kb = dbl_of_u64 (rx_bytes vm - rx_bytes old) / dbl_lit 1024 1 +
               dbl_of_u64 (tx_bytes vm - tx_bytes old) / dbl_lit 1024 1
      in vm\<lparr>io_timestamp_usec := ts,
            total_packets_history := total_packets vm, total_KB_history := total_KB vm,
            total_packets := packets, total_KB := kb,
            packets_per_sec_history := packets_per_sec vm,
            packets_per_sec := dbl_of_u64 packets / elapsedTime,
            KB_per_sec_history := KB_per_sec vm,
            KB_per_sec := kb / elapsedTime\<rparr>)"

definition monitorIO ::
  "(string \<Rightarrow> string option) \<Rightarrow> int \<times> int \<Rightarrow> string \<Rightarrow> vm_info \<Rightarrow> int \<times> vm_info" where
  "monitorIO fs now netdev vm =
     (let path = stat_path netdev (vf_no vm)
      in case read_counter fs (path ''rx_packets'') (rx_packets vm) of
           None \<Rightarrow> (-1, vm)
         | Some rp \<Rightarrow> (let vm1 = vm\<lparr>rx_packets := rp\<rparr>
      in case read_counter fs (path ''tx_packets'') (tx_packets vm) of
           None \<Rightarrow> (-1, vm1)
         | Some tp \<Rightarrow> (let vm2 = vm1\<lparr>tx_packets := tp\<rparr>
      in case read_counter fs (path ''rx_bytes'') (rx_bytes vm) of
           None \<Rightarrow> (-1, vm2)
         | Some rb \<Rightarrow> (let vm3 = vm2\<lparr>rx_bytes := rb\<rparr>
      in case read_counter fs (path ''tx_bytes'') (tx_bytes vm) of
           None \<Rightarrow> (-1, vm3)
         | Some tb \<Rightarrow> (0, update_rates now vm (vm3\<lparr>tx_bytes := tb\<rparr>))))))"

subsection \<open>Reading the counters\<close>

text \<open>The four statistics files of a virtual function, with their contents.\<close>

definition stat_files :: "(string \<Rightarrow> string option) \<Rightarrow> string \<Rightarrow> int \<Rightarrow> nat \<Rightarrow> nat \<Rightarrow> nat \<Rightarrow> nat \<Rightarrow> bool" where
  "stat_files fs netdev vf rp tp rb tb \<longleftrightarrow>
     rp < 2 ^ 64 \<and> tp < 2 ^ 64 \<and> rb < 2 ^ 64 \<and> tb < 2 ^ 64 \<and>
     fs (stat_path netdev vf ''rx_packets'') = Some (show_nat rp @ [newline]) \<and>
     fs (stat_path netdev vf ''tx_packets'') = Some (show_nat tp @ [newline]) \<and>
     fs (stat_path netdev vf ''rx_bytes'') = Some (show_nat rb @ [newline]) \<and>
     fs (stat_path netdev vf ''tx_bytes'') = Some (show_nat tb @ [newline])"

lemma read_counter_number:
  "n < 2 ^ 64 \<Longrightarrow> fs path = Some (show_nat n @ [newline]) \<Longrightarrow> read_counter fs path old = Some (of_nat n)"
  using scan_llu_show_nat [of n "[newline]" "[]"]
  by (simp add: read_counter_def char_at_def digit_val_def)

lemma monitorIO_reads:
  assumes "stat_files fs netdev (vf_no vm) rp tp rb tb"
  shows "monitorIO fs now netdev vm =
    (0, update_rates now vm (vm\<lparr>rx_packets := of_nat rp, tx_packets := of_nat tp,
          rx_bytes := of_nat rb, tx_bytes := of_nat tb\<rparr>))"
proof -
  have "read_counter fs (stat_path netdev (vf_no vm) ''rx_packets'') (rx_packets vm) = Some (of_nat rp)"
    "read_counter fs (stat_path netdev (vf_no vm) ''tx_packets'') (tx_packets vm) = Some (of_nat tp)"
    "read_counter fs (stat_path netdev (vf_no vm) ''rx_bytes'') (rx_bytes vm) = Some (of_nat rb)"
    "read_counter fs (stat_path netdev (vf_no vm) ''tx_bytes'') (tx_bytes vm) = Some (of_nat tb)"
    using assms by (simp_all add: stat_files_def read_counter_number)
  then show ?thesis by (simp add: monitorIO_def)
qed

text \<open>The path is not cut short for names that Linux accepts.\<close>

lemma stat_path_fits:
  assumes "length netdev < 16" "0 \<le> vf" "vf < 10 ^ 8" "length file \<le> 10"
  shows "stat_path netdev vf file = ''/sys/class/net/'' @ netdev @ ''/vf'' @ show_int vf @ ''/statistics/'' @ file"
proof -
  have "length (show_int vf) \<le> Suc 7"
    using assms(2,3) show_nat_length [of "nat vf" 7] by (simp add: show_int_def nat_less_iff)
  then show ?thesis using assms(1,4) by (simp add: stat_path_def snprintf_def MAX_PATH_LEN_def)
qed

subsection \<open>Properties\<close>

text \<open>C24. When the four counters can be read, the packets counted since the last reading are those
  that arrived, also when a counter wraps around 64 bits in between, the rates are that number and
  the bytes over the time between the two readings, and the previous rates become the history.\<close>

theorem io_rates_since_last_reading:
  assumes "stat_files fs netdev (vf_no vm) rp tp rb tb"
    "of_nat rp = rx_packets vm + of_nat p" "of_nat tp = tx_packets vm + of_nat q"
    "of_nat rb = rx_bytes vm + of_nat b" "of_nat tb = tx_bytes vm + of_nat c"
    "timestamp_usec now = io_timestamp_usec vm + of_nat t"
  shows "\<exists>vm'. monitorIO fs now netdev vm = (0, vm') \<and>
    total_packets vm' = of_nat (p + q) \<and>
    packets_per_sec vm' = dbl_of_u64 (of_nat (p + q)) / (dbl_of_u64 (of_nat t) / dbl_lit 1000000 1) \<and>
    KB_per_sec vm' = (dbl_of_u64 (of_nat b) / dbl_lit 1024 1 + dbl_of_u64 (of_nat c) / dbl_lit 1024 1) /
      (dbl_of_u64 (of_nat t) / dbl_lit 1000000 1) \<and>
    packets_per_sec_history vm' = packets_per_sec vm \<and> KB_per_sec_history vm' = KB_per_sec vm"
  unfolding monitorIO_reads [OF assms(1)]
  by (simp add: update_rates_def Let_def assms(2-6))

text \<open>A machine whose received packets wrap from \<open>2 ^ 64 - 1\<close> to 7, and files that all say 7.\<close>

definition ex_io_vm :: vm_info where
  "ex_io_vm = zeroed_vm\<lparr>rx_packets := - 1, tx_packets := 2\<rparr>"

definition ex_stat_fs :: "string \<Rightarrow> string option" where
  "ex_stat_fs path = Some (show_nat 7 @ [newline])"

lemma ex_stat_files: "stat_files ex_stat_fs netdev vf 7 7 7 7"
  by (simp add: stat_files_def ex_stat_fs_def)

theorem io_rates_since_last_reading_witness:
  "\<exists>vm'. monitorIO ex_stat_fs (2, 0) ''eth0'' ex_io_vm = (0, vm') \<and>
    total_packets vm' = of_nat (8 + 5) \<and>
    packets_per_sec vm' = dbl_of_u64 (of_nat (8 + 5)) / (dbl_of_u64 (of_nat 2000000) / dbl_lit 1000000 1) \<and>
    KB_per_sec vm' = (dbl_of_u64 (of_nat 7) / dbl_lit 1024 1 + dbl_of_u64 (of_nat 7) / dbl_lit 1024 1) /
      (dbl_of_u64 (of_nat 2000000) / dbl_lit 1000000 1) \<and>
    packets_per_sec_history vm' = packets_per_sec ex_io_vm \<and> KB_per_sec_history vm' = KB_per_sec ex_io_vm"
  by (rule io_rates_since_last_reading [OF ex_stat_files])
     (simp_all add: ex_io_vm_def zeroed_vm_def timestamp_usec_def)

lemma monitorIO_fails:
  assumes "fst (monitorIO fs now netdev vm) = -1"
  shows "\<exists>rp tp rb. snd (monitorIO fs now netdev vm) = vm\<lparr>rx_packets := rp, tx_packets := tp, rx_bytes := rb\<rparr>"
proof -
  let ?rd = "\<lambda>f old. read_counter fs (stat_path netdev (vf_no vm) f) old"
  consider "?rd ''rx_packets'' (rx_packets vm) = None"
    | rp where "?rd ''rx_packets'' (rx_packets vm) = Some rp" "?rd ''tx_packets'' (tx_packets vm) = None"
    | rp tp where "?rd ''rx_packets'' (rx_packets vm) = Some rp" "?rd ''tx_packets'' (tx_packets vm) = Some tp"
        "?rd ''rx_bytes'' (rx_bytes vm) = None"
    | rp tp rb where "?rd ''rx_packets'' (rx_packets vm) = Some rp" "?rd ''tx_packets'' (tx_packets vm) = Some tp"
        "?rd ''rx_bytes'' (rx_bytes vm) = Some rb" "?rd ''tx_bytes'' (tx_bytes vm) = None"
    using assms unfolding monitorIO_def Let_def
    by (cases "?rd ''rx_packets'' (rx_packets vm)"; cases "?rd ''tx_packets'' (tx_packets vm)";
        cases "?rd ''rx_bytes'' (rx_bytes vm)"; cases "?rd ''tx_bytes'' (tx_bytes vm)") simp_all
  then show ?thesis
  proof cases
    case 1
    then show ?thesis
      by (intro exI [of _ "rx_packets vm"] exI [of _ "tx_packets vm"] exI [of _ "rx_bytes vm"])
         (simp add: monitorIO_def)
  next
    case (2 rp)
    then show ?thesis
      by (intro exI [of _ rp] exI [of _ "tx_packets vm"] exI [of _ "rx_bytes vm"]) (simp add: monitorIO_def)
  next
    case (3 rp tp)
    then show ?thesis
      by (intro exI [of _ rp] exI [of _ tp] exI [of _ "rx_bytes vm"]) (simp add: monitorIO_def)
  next
    case (4 rp tp rb)
    then show ?thesis by (intro exI [of _ rp] exI [of _ tp] exI [of _ rb]) (simp add: monitorIO_def)
  qed
qed

lemma monitorIO_status:
  "fst (monitorIO fs now netdev vm) = -1 \<longleftrightarrow>
   (\<exists>f\<in>{''rx_packets'', ''tx_packets'', ''rx_bytes'', ''tx_bytes''}. fs (stat_path netdev (vf_no vm) f) = None)"
  by (auto simp: monitorIO_def Let_def read_counter_def split: option.splits)

text \<open>\<open>monitorIO\<close> fails exactly when one of the four files cannot be opened; then the rates, the
  totals, their history and the time stamp stay as they were, but counters read before are stored.\<close>

theorem io_failure_keeps_rates:
  "(fst (monitorIO fs now netdev vm) = -1 \<longleftrightarrow>
     (\<exists>f\<in>{''rx_packets'', ''tx_packets'', ''rx_bytes'', ''tx_bytes''}.
        fs (stat_path netdev (vf_no vm) f) = None)) \<and>
   (fst (monitorIO fs now netdev vm) = -1 \<longrightarrow>
     (\<exists>rp tp rb. snd (monitorIO fs now netdev vm) =
        vm\<lparr>rx_packets := rp, tx_packets := tp, rx_bytes := rb\<rparr>))"
  using monitorIO_fails monitorIO_status by blast

theorem io_failure_keeps_rates_witness:
  "\<exists>rp tp rb. snd (monitorIO (\<lambda>_. None) (2, 0) ''eth0'' ex_io_vm) =
     ex_io_vm\<lparr>rx_packets := rp, tx_packets := tp, rx_bytes := rb\<rparr>"
  using io_failure_keeps_rates [of "\<lambda>_. None" "(2, 0)" "''eth0''" ex_io_vm] by auto

text \<open>A failed reading loses packets: when the first three counters could be read and the fourth
  file not, the next successful reading counts only the packets since the failed one, but divides
  by the time since the last successful one.\<close>

theorem failed_reading_loses_packets:
  assumes "stat_files fs netdev (vf_no vm) rp tp rb tb"
    "stat_files fs' netdev (vf_no vm) (rp + p) (tp + q) rb' tb'"
    "length netdev < 16" "0 \<le> vf_no vm" "vf_no vm < 10 ^ 8"
  shows "\<exists>vm'. monitorIO fs' now' netdev
      (snd (monitorIO (fs(stat_path netdev (vf_no vm) ''tx_bytes'' := None)) now netdev vm)) = (0, vm') \<and>
    total_packets vm' = of_nat (p + q) \<and>
    packets_per_sec vm' = dbl_of_u64 (of_nat (p + q)) /
      (dbl_of_u64 (timestamp_usec now' - io_timestamp_usec vm) / dbl_lit 1000000 1)"
proof -
  let ?path = "stat_path netdev (vf_no vm)"
  let ?fs = "fs(?path ''tx_bytes'' := None)"
  have "?fs (?path f) = fs (?path f)" if "f \<in> {''rx_packets'', ''tx_packets'', ''rx_bytes''}" for f
    using assms(3-5) that by (auto simp: stat_path_fits)
  then have "read_counter ?fs (?path ''rx_packets'') (rx_packets vm) = Some (of_nat rp)"
    "read_counter ?fs (?path ''tx_packets'') (tx_packets vm) = Some (of_nat tp)"
    "read_counter ?fs (?path ''rx_bytes'') (rx_bytes vm) = Some (of_nat rb)"
    using assms(1) by (intro read_counter_number; simp add: stat_files_def del: fun_upd_apply)+
  moreover have "read_counter ?fs (?path ''tx_bytes'') (tx_bytes vm) = None" by (simp add: read_counter_def)
  ultimately have vm: "snd (monitorIO ?fs now netdev vm) =
      vm\<lparr>rx_packets := of_nat rp, tx_packets := of_nat tp, rx_bytes := of_nat rb\<rparr>"
    by (simp add: monitorIO_def del: fun_upd_apply)
  have "stat_files fs' netdev (vf_no (vm\<lparr>rx_packets := of_nat rp, tx_packets := of_nat tp,
      rx_bytes := of_nat rb\<rparr>)) (rp + p) (tp + q) rb' tb'"
    using assms(2) by simp
  from monitorIO_reads [OF this, of now'] show ?thesis
    unfolding vm by (simp add: update_rates_def Let_def)
qed

theorem failed_reading_loses_packets_witness:
  "\<exists>vm'. monitorIO ex_stat_fs (9, 0) ''eth0''
      (snd (monitorIO (ex_stat_fs(stat_path ''eth0'' (vf_no ex_io_vm) ''tx_bytes'' := None)) (2, 0) ''eth0'' ex_io_vm)) =
      (0, vm') \<and>
    total_packets vm' = of_nat (0 + 0) \<and>
    packets_per_sec vm' = dbl_of_u64 (of_nat (0 + 0)) /
      (dbl_of_u64 (timestamp_usec (9, 0) - io_timestamp_usec ex_io_vm) / dbl_lit 1000000 1)"
  by (rule failed_reading_loses_packets [where rp = 7 and tp = 7 and rb' = 7 and tb' = 7, OF ex_stat_files])
     (simp_all add: ex_stat_files ex_io_vm_def zeroed_vm_def)

lemma rate_bound:
  assumes "n \<le> 10 ^ 12" "10 ^ 15 \<le> t" "t < 2 ^ 64"
  shows "dbl_of_u64 (of_nat n) / (dbl_of_u64 (of_nat t) / dbl_lit 1000000 1) \<le> Fin 1000"
proof -
  have n: "dbl_of_u64 (of_nat n) = Fin (of_nat n)"
    using assms(1) rnd_of_int [of "int n"] by (simp add: dbl_of_u64_def unsigned_of_nat take_bit_nat_eq_self)
  have t: "dbl_of_u64 (of_nat t) = rnd (of_nat t)"
    using assms(3) by (simp add: dbl_of_u64_def unsigned_of_nat take_bit_nat_eq_self)
  have tb: "(10 ^ 15 :: rat) \<le> of_nat t" "of_nat t \<le> (18446744073709551616 :: rat)"
    using assms(2,3) by (simp_all add: of_nat_le_iff [symmetric] del: of_nat_le_iff)
  obtain e where e: "rnd (of_nat t) = Fin e" "10 ^ 15 \<le> e" "e \<le> 18446744073709551616"
    by (rule rnd_enclose [OF tb _ rnd_u64_max]) simp
  have "(10 ^ 9 :: rat) \<le> e / 1000000" "e / 1000000 \<le> 18446744073709551616" using e by simp_all
  then obtain d where d: "rnd (e / 1000000) = Fin d" "10 ^ 9 \<le> d"
    by (rule rnd_enclose [OF _ _ _ rnd_u64_max]) simp
  have "(of_nat n :: rat) \<le> of_nat (10 ^ 12)" using assms(1) by (simp only: of_nat_le_iff)
  then have "of_nat n / d \<le> 1000" using d(2) by (simp add: divide_le_eq)
  from rnd_mono [OF this] show ?thesis
    using d e by (simp add: n t dbl_lit_def divide_dbl_def)
qed

text \<open>The first reading of a new machine divides its packets by the seconds since 1970, because
  the time stamp starts at 0: up to \<open>10 ^ 12\<close> packets give at most 1000 per second, far below the
  threshold of an I/O intensive machine. The history is what the storage held before.\<close>

theorem first_rate_is_since_epoch:
  assumes "stat_files fs netdev vf rp tp rb tb" "rp + tp \<le> 10 ^ 12"
    "10 ^ 9 \<le> s" "0 \<le> u" "s * 1000000 + u < 2 ^ 64"
  shows "\<exists>vm'. monitorIO fs (s, u) netdev ((VM_info_init g)\<lparr>vf_no := vf\<rparr>) = (0, vm') \<and>
    packets_per_sec vm' \<le> Fin 1000 \<and> packets_per_sec_history vm' = packets_per_sec g"
proof -
  let ?vm = "(VM_info_init g)\<lparr>vf_no := vf\<rparr>"
  have init: "rx_packets ?vm = 0" "tx_packets ?vm = 0" "io_timestamp_usec ?vm = 0"
    "packets_per_sec ?vm = packets_per_sec g"
    by (simp_all add: VM_info_init_def)
  have ts: "timestamp_usec (s, u) = of_nat (nat (s * 1000000 + u))"
    using assms(3,4) unfolding timestamp_usec_def by simp
  have "10 ^ 15 \<le> nat (s * 1000000 + u)" "nat (s * 1000000 + u) < 2 ^ 64" using assms(3-5) by simp_all
  from rate_bound [OF assms(2) this]
  have r: "dbl_of_u64 (of_nat (rp + tp)) / (dbl_of_u64 (timestamp_usec (s, u)) / dbl_lit 1000000 1) \<le> Fin 1000"
    by (simp only: ts)
  have "stat_files fs netdev (vf_no ?vm) rp tp rb tb" using assms(1) by simp
  from monitorIO_reads [OF this, of "(s, u)"] r show ?thesis
    unfolding update_rates_def Let_def init by (simp add: init [simplified])
qed

theorem first_rate_is_since_epoch_witness:
  "\<exists>vm'. monitorIO ex_stat_fs (1700000000, 0) ''eth0'' ((VM_info_init zeroed_vm)\<lparr>vf_no := 3\<rparr>) = (0, vm') \<and>
    packets_per_sec vm' \<le> Fin 1000 \<and> packets_per_sec_history vm' = packets_per_sec zeroed_vm"
  by (rule first_rate_is_since_epoch [OF ex_stat_files]) simp_all

end
