(* ===== verification/PerfMonitor.thy ===== *)
theory PerfMonitor
  imports CLib VMInfo
begin

section \<open>Performance counters of a machine\<close>

text \<open>
  \<open>src/PerfMonitor.cpp\<close>: the output of \<open>perf stat -x,\<close> is read line by line into a
  buffer of 128 bytes, which keeps the end of longer lines before. The event of
  a line is recognised by the first letter in the buffer and, for four of the
  six events, a letter at a fixed distance from it. The output of the command
  is a parameter, \<open>None\<close> when \<open>popen\<close> fails. The rates the function prints for
  debugging are left out.
\<close>

definition PERF_BUF_SIZE :: nat where "PERF_BUF_SIZE = 128"

text \<open>\<open>fgets\<close> into the buffer: the line and its NUL over what was there.\<close>

definition buf_write :: "string \<Rightarrow> string \<Rightarrow> string" where
  "buf_write line buffer = line @ NUL # drop (Suc (length line)) buffer"

text \<open>The body of the loop; the search for a letter does not stop at the end of the line.\<close>

definition perf_line :: "string \<Rightarrow> vm_info \<Rightarrow> vm_info res" where
  "perf_line buffer vm =
     (let p = dropWhile (\<lambda>c. \<not> isalpha c) buffer;
          n = fst (strtoul 10 (c_str buffer))
      in bind_res (vec_at p 0) (\<lambda>c.
         if c = CHR ''c'' then Inr (vm\<lparr>cycles := n\<rparr>)
         else if c = CHR ''i'' then Inr (vm\<lparr>instructions := n\<rparr>)
         else if c = CHR ''o'' then
           bind_res (vec_at p 36) (\<lambda>d.
             if d = CHR ''h'' then Inr (vm\<lparr>LLC_data_rd_hit := n\<rparr>)
             else if d = CHR ''m'' then Inr (vm\<lparr>LLC_data_rd_miss := n\<rparr>)
             else Inr vm)
         else if c = CHR ''l'' then
           bind_res (vec_at p 18) (\<lambda>d.
             if d = CHR ''r'' then Inr (vm\<lparr>LLC_all_reference := n\<rparr>)
             else if d = CHR ''m'' then Inr (vm\<lparr>LLC_all_miss := n\<rparr>)
             else Inr vm)
         else Inr vm))"

definition perf_step :: "string \<Rightarrow> string \<times> vm_info \<Rightarrow> (string \<times> vm_info) res" where
  "perf_step line s =
     (let buffer = buf_write line (fst s)
      in bind_res (perf_line buffer (snd s)) (\<lambda>vm. Inr (buffer, vm)))"

text \<open>\<open>buffer\<close> is what the local array holds before the first line.\<close>

definition monitorPerfEvent :: "string \<Rightarrow> string option \<Rightarrow> vm_info \<Rightarrow> (int \<times> vm_info) res" where
  "monitorPerfEvent buffer pipe vm =
     (case pipe of
        None \<Rightarrow> Inl Uncaught
      | Some out \<Rightarrow>
          bind_res (fold_res perf_step (fgets_loop (PERF_BUF_SIZE - 1) out) (buffer, vm))
            (\<lambda>(_, vm'). Inr (0, vm')))"

subsection \<open>The output of perf\<close>

datatype perf_event =
  Cycles | Instructions | LLC_Rd_Hit | LLC_Rd_Miss | LLC_Reference | LLC_Miss

fun event_name :: "perf_event \<Rightarrow> string" where
  "event_name Cycles = ''cycles''"
| "event_name Instructions = ''instructions''"
| "event_name LLC_Rd_Hit = ''offcore_response_demand_data_rd_llc_hit_any_response''"
| "event_name LLC_Rd_Miss = ''offcore_response_demand_data_rd_llc_miss_any_response''"
| "event_name LLC_Reference = ''longest_lat_cache_reference''"
| "event_name LLC_Miss = ''longest_lat_cache_miss''"

fun store_event :: "perf_event \<Rightarrow> u64 \<Rightarrow> vm_info \<Rightarrow> vm_info" where
  "store_event Cycles n vm = vm\<lparr>cycles := n\<rparr>"
| "store_event Instructions n vm = vm\<lparr>instructions := n\<rparr>"
| "store_event LLC_Rd_Hit n vm = vm\<lparr>LLC_data_rd_hit := n\<rparr>"
| "store_event LLC_Rd_Miss n vm = vm\<lparr>LLC_data_rd_miss := n\<rparr>"
| "store_event LLC_Reference n vm = vm\<lparr>LLC_all_reference := n\<rparr>"
| "store_event LLC_Miss n vm = vm\<lparr>LLC_all_miss := n\<rparr>"

text \<open>A line: the count, an empty unit, the event, and further fields \<open>extra\<close>.\<close>

definition perf_text :: "perf_event \<times> nat \<times> string \<Rightarrow> string" where
  "perf_text l = (case l of (e, n, extra) \<Rightarrow> show_nat n @ '',,'' @ event_name e @ '','' @ extra)"

definition perf_text_ok :: "perf_event \<times> nat \<times> string \<Rightarrow> bool" where
  "perf_text_ok l \<longleftrightarrow>
     (case l of (e, n, extra) \<Rightarrow> n < 2 ^ 64 \<and> newline \<notin> set extra \<and> NUL \<notin> set extra \<and>
        length (perf_text l) < PERF_BUF_SIZE - 1)"

lemma digit_not_alpha: "digit_val c < 10 \<Longrightarrow> \<not> isalpha c"
  by (auto simp: digit_val_def isalpha_def Let_def split: if_splits)

lemma event_name_letters: "c \<in> set (event_name e) \<Longrightarrow> isalpha c \<or> c = CHR ''_''"
  by (cases e) (auto simp: isalpha_def)

lemma perf_text_clean:
  "perf_text_ok l \<Longrightarrow> newline \<notin> set (perf_text l) \<and> NUL \<notin> set (perf_text l)"
  using event_name_letters [of newline] event_name_letters [of NUL]
  by (auto simp: perf_text_ok_def perf_text_def show_nat_clean isalpha_def split: prod.splits)

lemma c_str_buf_write: "NUL \<notin> set line \<Longrightarrow> c_str (buf_write line buffer) = line"
  unfolding c_str_def buf_write_def by (subst takeWhile_append2) auto

text \<open>One line of output, whatever the buffer held.\<close>

lemma perf_line_event:
  assumes "perf_text_ok (e, n, extra)"
  shows "perf_line (buf_write (perf_text (e, n, extra) @ [newline]) buffer) vm = Inr (store_event e (of_nat n) vm)"
proof -
  let ?b = "buf_write (perf_text (e, n, extra) @ [newline]) buffer"
  let ?r = "'','' @ extra @ newline # NUL # drop (Suc (Suc (length (perf_text (e, n, extra))))) buffer"
  have b: "?b = show_nat n @ '',,'' @ event_name e @ ?r"
    by (simp add: buf_write_def perf_text_def)
  have "dropWhile (\<lambda>c. \<not> isalpha c) ?b = dropWhile (\<lambda>c. \<not> isalpha c) (event_name e @ ?r)"
    unfolding b using digit_not_alpha [OF show_nat_digits]
    by (simp add: dropWhile_append2 isalpha_def)
  then have p: "dropWhile (\<lambda>c. \<not> isalpha c) ?b = event_name e @ ?r"
    by (cases e) (simp_all add: isalpha_def)
  have "c_str ?b = perf_text (e, n, extra) @ [newline]"
    using perf_text_clean [OF assms] by (intro c_str_buf_write) simp
  then have "c_str ?b = [] @ show_nat n @ '',,'' @ event_name e @ '','' @ extra @ [newline]"
    by (simp add: perf_text_def)
  moreover have "n < 2 ^ 64" using assms by (simp add: perf_text_ok_def)
  ultimately have n: "fst (strtoul 10 (c_str ?b)) = of_nat n"
    using strtoul_show_nat [of n "'',,'' @ event_name e @ '','' @ extra @ [newline]" "[]"]
    by (simp add: char_at_def digit_val_def)
  show ?thesis
    unfolding perf_line_def Let_def p n by (cases e) (simp_all add: vec_at_def)
qed

text \<open>What the lines of a run leave in the record.\<close>

definition store_events :: "(perf_event \<times> nat \<times> string) list \<Rightarrow> vm_info \<Rightarrow> vm_info" where
  "store_events ls vm = foldl (\<lambda>vm (e, n, extra). store_event e (of_nat n) vm) vm ls"

lemma perf_lines:
  "list_all perf_text_ok ls \<Longrightarrow>
   \<exists>buffer'. fold_res perf_step (map (\<lambda>l. perf_text l @ [newline]) ls) (buffer, vm) =
     Inr (buffer', store_events ls vm)"
proof (induction ls arbitrary: buffer vm)
  case (Cons l ls)
  obtain e n extra where l: "l = (e, n, extra)" by (cases l) auto
  show ?case
    using Cons.IH [of "buf_write (perf_text l @ [newline]) buffer" "store_event e (of_nat n) vm"] Cons.prems
    by (simp add: perf_step_def perf_line_event l store_events_def Let_def)
qed (simp add: store_events_def)

lemma perf_output_stored:
  assumes "list_all perf_text_ok ls"
  shows "monitorPerfEvent buffer (Some (concat (map (\<lambda>l. perf_text l @ [newline]) ls))) vm =
    Inr (0, store_events ls vm)"
proof -
  have "fgets_loop (PERF_BUF_SIZE - 1) (concat (map (\<lambda>l. l @ [newline]) (map perf_text ls))) =
      map (\<lambda>l. l @ [newline]) (map perf_text ls)"
    by (rule fgets_loop_lines) (use assms perf_text_clean in \<open>auto simp: list_all_iff perf_text_ok_def\<close>)
  then show ?thesis
    using perf_lines [OF assms, of buffer vm] by (auto simp: monitorPerfEvent_def o_def)
qed

subsection \<open>Properties\<close>

text \<open>C25. From output of \<open>perf stat -x,\<close> each counter of the machine gets the count of its event's
  last line, whatever the buffer held before; other fields keep their values.\<close>

theorem perf_counts_stored:
  assumes "list_all perf_text_ok ls"
  shows "monitorPerfEvent buffer (Some (concat (map (\<lambda>l. perf_text l @ [newline]) ls))) vm =
    Inr (0, store_events ls vm)"
  by (rule perf_output_stored [OF assms])

theorem perf_counts_stored_witness:
  "monitorPerfEvent (replicate 128 NUL)
     (Some (concat (map (\<lambda>l. perf_text l @ [newline])
       [(Cycles, 120, ''100.00''), (LLC_Rd_Miss, 7, ''66.5''), (LLC_Reference, 30, ''66.5'')]))) zeroed_vm =
   Inr (0, store_events [(Cycles, 120, ''100.00''), (LLC_Rd_Miss, 7, ''66.5''), (LLC_Reference, 30, ''66.5'')] zeroed_vm)"
  by (rule perf_counts_stored) (simp_all add: perf_text_ok_def perf_text_def PERF_BUF_SIZE_def show_nat.simps)

text \<open>The search for the event's letter runs past the end of a line that has none. After a line
  that counted cycles, an empty line finds the rest of that line in the buffer and sets the cycle
  count to 0.\<close>

theorem empty_line_resets_cycles:
  assumes "perf_text_ok (Cycles, n, extra)"
  shows "monitorPerfEvent buffer (Some (perf_text (Cycles, n, extra) @ [newline, newline])) vm =
    Inr (0, vm\<lparr>cycles := 0\<rparr>)"
proof -
  let ?l = "perf_text (Cycles, n, extra)"
  let ?b = "buf_write [newline] (buf_write (?l @ [newline]) buffer)"
  have "length ?l < PERF_BUF_SIZE - 1" "newline \<notin> set ?l"
    using assms perf_text_clean [OF assms] by (simp_all add: perf_text_ok_def)
  then have lines: "fgets_loop (PERF_BUF_SIZE - 1) (?l @ [newline, newline]) = [?l @ [newline], [newline]]"
    using fgets_loop_line [of ?l "PERF_BUF_SIZE - 1" "[newline]"]
      fgets_loop_line [of "[]" "PERF_BUF_SIZE - 1" "[]"] by simp
  let ?d = "drop 2 (show_nat n @ '',,'')"
  have d: "\<forall>c\<in>set ?d. \<not> isalpha c"
    using digit_not_alpha [OF show_nat_digits] in_set_dropD [of _ 2 "show_nat n @ '',,''"]
    by (fastforce simp: isalpha_def)
  let ?r = "''ycles,'' @ extra @ newline # NUL # drop (Suc (Suc (length ?l))) buffer"
  have "?b = newline # NUL # ?d @ CHR ''c'' # ?r"
    by (cases "show_nat n"; cases "tl (show_nat n)") (simp_all add: buf_write_def perf_text_def)
  then have "dropWhile (\<lambda>c. \<not> isalpha c) ?b = CHR ''c'' # ?r"
    using dropWhile_append2 [of ?d "\<lambda>c. \<not> isalpha c" "CHR ''c'' # ?r"] d by (simp add: isalpha_def)
  moreover have "c_str ?b = [newline]" by (rule c_str_buf_write) simp
  moreover have "fst (strtoul 10 [newline]) = 0"
    by (simp add: strtoul_def scan_number_def skip_space_def scan_sign_def scan_prefix_def isspace_def
        char_at_def digit_val_def)
  ultimately have "perf_line ?b vm' = Inr (vm'\<lparr>cycles := 0\<rparr>)" for vm'
    by (simp add: perf_line_def vec_at_def)
  then show ?thesis
    unfolding monitorPerfEvent_def
    by (simp add: lines perf_step_def perf_line_event [OF assms] Let_def del: One_nat_def)
qed

theorem empty_line_resets_cycles_witness:
  "monitorPerfEvent (replicate 128 NUL) (Some (perf_text (Cycles, 120, ''100.00'') @ [newline, newline])) zeroed_vm =
    Inr (0, zeroed_vm\<lparr>cycles := 0\<rparr>)"
  by (rule empty_line_resets_cycles) (simp add: perf_text_ok_def perf_text_def PERF_BUF_SIZE_def show_nat.simps)

end
