(* ===== verification/Migrate.thy ===== *)
theory Migrate
  imports VMInfo
begin

section \<open>Pinning virtual CPUs and moving memory\<close>

text \<open>
  \<open>src/Thread_migrate.cpp\<close> and \<open>src/Memory_migrate.cpp\<close> with their headers.
  \<open>virDomainPinVcpu\<close>, the bit masks of libnuma and \<open>numa_migrate_pages\<close> are
  parameters. The lemmas show that the CPU map handed to libvirt has exactly the
  bits of the target CPUs, and the same for the node masks, from what libnuma
  documents of its masks.
\<close>

unbundle bit_operations_syntax

subsection \<open>Thread_migrate\<close>

type_synonym pin_fun = "vir_ptr \<Rightarrow> u32 \<Rightarrow> u8 list \<Rightarrow> int \<Rightarrow> int"

record thread_migrate =
  tm_numa_number :: int
  tm_cpu_number :: int
  cpumaps_len :: int
  cpumaps :: "u8 list"

text \<open>The constructor; \<open>g i\<close> is what the allocated array holds at \<open>i\<close>. C division rounds to zero.\<close>

definition Thread_migrate_new :: "(nat \<Rightarrow> u8) \<Rightarrow> int \<Rightarrow> int \<Rightarrow> thread_migrate" where
  "Thread_migrate_new g numa_num cpu_num =
     (let len = sgn cpu_num * (\<bar>cpu_num\<bar> div 8) + 1
      in \<lparr>tm_numa_number = numa_num, tm_cpu_number = cpu_num, cpumaps_len = len,
          cpumaps = map g [0..<nat len]\<rparr>)"

definition set_cpu_bit :: "u32 \<Rightarrow> u8 list \<Rightarrow> u8 list res" where
  "set_cpu_bit node maps =
     (let cpumaps_idx = node div 8; offset = node mod 8;
          bit_mask = push_bit (nat (uint offset)) (1 :: u32)
      in bind_res (vec_at maps (uint cpumaps_idx)) (\<lambda>old.
         Inr (maps[nat (uint cpumaps_idx) := ucast ((ucast old :: u32) OR bit_mask)])))"

definition pin_vcpu_to ::
  "pin_fun \<Rightarrow> vir_ptr \<Rightarrow> u32 \<Rightarrow> u32 list \<Rightarrow> thread_migrate \<Rightarrow> (int \<times> thread_migrate) res" where
  "pin_vcpu_to pin domain vcpu target_node tm =
     bind_res (fold_res set_cpu_bit target_node (replicate (nat (cpumaps_len tm)) 0)) (\<lambda>maps.
     Inr (if pin domain vcpu maps (cpumaps_len tm) = -1 then -1 else 0, tm\<lparr>cpumaps := maps\<rparr>))"

text \<open>The bit of CPU \<open>c\<close> in a map.\<close>

definition cpu_bit :: "u8 list \<Rightarrow> nat \<Rightarrow> bool" where
  "cpu_bit maps c \<longleftrightarrow> bit (maps ! (c div 8)) (c mod 8)"

lemma uint_u32_nat: "uint (w :: u32) = int (unat w)"
  by simp

lemma set_cpu_bit_ok:
  assumes "unat node div 8 < length maps"
  shows "\<exists>maps'. set_cpu_bit node maps = Inr maps' \<and> length maps' = length maps \<and>
    (\<forall>c. c div 8 < length maps \<longrightarrow> cpu_bit maps' c = (cpu_bit maps c \<or> c = unat node))"
proof -
  let ?i = "unat node div 8" and ?o = "unat node mod 8"
  let ?maps = "maps[?i := ucast ((ucast (maps ! ?i) :: u32) OR push_bit ?o 1)]"
  have "unat (node div 8) = ?i" "unat (node mod 8) = ?o"
    by (simp_all add: unat_div_distrib unat_mod_distrib)
  then have i: "uint (node div 8) = int ?i" "nat (uint (node mod 8)) = ?o"
    by (simp_all only: uint_u32_nat nat_int)
  have "set_cpu_bit node maps = Inr ?maps"
    using assms unfolding set_cpu_bit_def Let_def i nat_int by (simp add: vec_at_nat)
  moreover have "cpu_bit ?maps c = (cpu_bit maps c \<or> c = unat node)" if "c div 8 < length maps" for c
  proof (cases "c div 8 = ?i")
    case True
    have "c = unat node \<longleftrightarrow> c mod 8 = ?o" by (metis True div_mod_decomp)
    moreover have c: "c mod 8 < 32" by (rule less_trans [of _ 8]) simp_all
    moreover have "bit (push_bit ?o (1 :: u32)) (c mod 8) \<longleftrightarrow> c mod 8 = ?o"
      using c by (auto simp: bit_exp_iff)
    ultimately show ?thesis
      using that by (simp add: cpu_bit_def True bit_ucast_iff bit_or_iff del: push_bit_of_1)
  next
    case False
    then show ?thesis by (auto simp: cpu_bit_def)
  qed
  ultimately show ?thesis by auto
qed

lemma set_cpu_bits:
  assumes "\<forall>node\<in>set nodes. unat node div 8 < length maps"
  shows "\<exists>maps'. fold_res set_cpu_bit nodes maps = Inr maps' \<and> length maps' = length maps \<and>
    (\<forall>c. c div 8 < length maps \<longrightarrow> cpu_bit maps' c = (cpu_bit maps c \<or> c \<in> unat ` set nodes))"
  using assms
proof (induction nodes arbitrary: maps)
  case (Cons node nodes)
  obtain m where m: "set_cpu_bit node maps = Inr m" "length m = length maps"
    "\<forall>c. c div 8 < length maps \<longrightarrow> cpu_bit m c = (cpu_bit maps c \<or> c = unat node)"
    using set_cpu_bit_ok [of node maps] Cons.prems by auto
  then show ?case using Cons.IH [of m] Cons.prems by auto
qed simp

lemma pin_vcpu_returns:
  assumes "\<forall>t\<in>set targets. unat t div 8 < nat (cpumaps_len tm)"
  shows "\<exists>maps. pin_vcpu_to pin domain vcpu targets tm =
    Inr (if pin domain vcpu maps (cpumaps_len tm) = -1 then -1 else 0, tm\<lparr>cpumaps := maps\<rparr>)"
  using set_cpu_bits [of targets "replicate (nat (cpumaps_len tm)) 0"] assms
  by (auto simp: pin_vcpu_to_def)

lemma cpu_bit_zero: "c div 8 < n \<Longrightarrow> \<not> cpu_bit (replicate n 0) c"
  by (simp add: cpu_bit_def)

subsection \<open>Memory_migrate\<close>

record 'm memory_migrate =
  mig_numa_number :: int
  old_nodes_mask :: 'm
  new_nodes_mask :: 'm

definition Memory_migrate_new :: "(int \<Rightarrow> 'm) \<Rightarrow> int \<Rightarrow> 'm memory_migrate" where
  "Memory_migrate_new alloc numa_num =
     \<lparr>mig_numa_number = numa_num, old_nodes_mask = alloc numa_num, new_nodes_mask = alloc numa_num\<rparr>"

definition migrate_mem_to ::
  "('m \<Rightarrow> 'm) \<Rightarrow> ('m \<Rightarrow> u32 \<Rightarrow> 'm) \<Rightarrow> (u32 \<Rightarrow> 'm \<Rightarrow> 'm \<Rightarrow> int) \<Rightarrow>
   u32 \<Rightarrow> u32 list \<Rightarrow> u32 list \<Rightarrow> 'm memory_migrate \<Rightarrow> int \<times> 'm memory_migrate" where
  "migrate_mem_to clearall setbit migrate proc old_nodes new_nodes mm =
     (if length old_nodes = 0 \<or> length new_nodes = 0 then (-1, mm)
      else (let om = foldl setbit (clearall (old_nodes_mask mm)) old_nodes;
                nm = foldl setbit (clearall (new_nodes_mask mm)) new_nodes;
                rc = migrate proc om nm
            in (if rc < 0 then -1 else rc, mm\<lparr>old_nodes_mask := om, new_nodes_mask := nm\<rparr>)))"

text \<open>
  What libnuma documents: \<open>numa_bitmask_clearall\<close> clears every bit and
  \<open>numa_bitmask_setbit\<close> sets one; it does nothing for a bit past the size.
\<close>

definition bitmask_api ::
  "('m \<Rightarrow> 'm) \<Rightarrow> ('m \<Rightarrow> u32 \<Rightarrow> 'm) \<Rightarrow> ('m \<Rightarrow> u32 \<Rightarrow> bool) \<Rightarrow> ('m \<Rightarrow> nat) \<Rightarrow> bool" where
  "bitmask_api clearall setbit isset sz \<longleftrightarrow>
     (\<forall>m b. \<not> isset (clearall m) b) \<and>
     (\<forall>m b c. isset (setbit m b) c \<longleftrightarrow> isset m c \<or> c = b \<and> unat b < sz m) \<and>
     (\<forall>m. sz (clearall m) = sz m) \<and> (\<forall>m b. sz (setbit m b) = sz m)"

lemma bitmask_bits:
  assumes "bitmask_api clearall setbit isset sz"
  shows "sz (foldl setbit m bs) = sz m"
    "isset (foldl setbit m bs) c \<longleftrightarrow> isset m c \<or> c \<in> set bs \<and> unat c < sz m"
  using assms unfolding bitmask_api_def by (induction bs arbitrary: m) auto

subsection \<open>Properties\<close>

text \<open>C26. When every target is one of the host's CPUs, \<open>pin_vcpu_to\<close> hands libvirt a map whose set
  bits are exactly the target CPUs, with its length in bytes, and returns -1 exactly when libvirt
  does; no write leaves the array.\<close>

theorem pin_sets_exactly_the_targets:
  assumes "0 \<le> cpu_num" "cpu_num < 2 ^ 31" "\<forall>t\<in>set targets. int (unat t) < cpu_num"
  shows "\<exists>maps tm. pin_vcpu_to pin domain vcpu targets (Thread_migrate_new g numa_num cpu_num) =
      Inr (if pin domain vcpu maps (cpu_num div 8 + 1) = -1 then -1 else 0, tm) \<and>
    cpumaps tm = maps \<and> int (length maps) = cpu_num div 8 + 1 \<and>
    (\<forall>c. int c < cpu_num \<longrightarrow> cpu_bit maps c = (c \<in> unat ` set targets))"
proof -
  let ?tm = "Thread_migrate_new g numa_num cpu_num"
  have len: "cpumaps_len ?tm = cpu_num div 8 + 1"
    using assms(1) by (cases "cpu_num = 0") (auto simp: Thread_migrate_new_def sgn_if Let_def)
  have idx: "c div 8 < nat (cpu_num div 8 + 1)" if "int c < cpu_num" for c
    using that by (simp add: zless_nat_eq_int_zless zdiv_int zdiv_mono1)
  obtain maps where maps: "fold_res set_cpu_bit targets (replicate (nat (cpu_num div 8 + 1)) 0) = Inr maps"
    "length maps = nat (cpu_num div 8 + 1)"
    "\<forall>c. c div 8 < nat (cpu_num div 8 + 1) \<longrightarrow> cpu_bit maps c = (c \<in> unat ` set targets)"
    using set_cpu_bits [of targets "replicate (nat (cpu_num div 8 + 1)) 0"] assms(3) idx
    by (auto simp: cpu_bit_zero)
  have "0 \<le> cpu_num div 8 + 1" using assms(1) by (simp add: pos_imp_zdiv_nonneg_iff)
  then show ?thesis
    using maps idx by (intro exI [of _ maps] exI [of _ "?tm\<lparr>cpumaps := maps\<rparr>"]) (simp add: pin_vcpu_to_def len)
qed

theorem pin_sets_exactly_the_targets_witness:
  "\<exists>maps tm. pin_vcpu_to (\<lambda>_ _ _ _. 0) (Some 1) 0 [9, 3] (Thread_migrate_new (\<lambda>_. 255) 2 16) = Inr (0, tm) \<and>
    cpumaps tm = maps \<and> int (length maps) = 3 \<and> cpu_bit maps 9 \<and> cpu_bit maps 3 \<and> \<not> cpu_bit maps 8"
proof -
  obtain maps tm where *: "pin_vcpu_to (\<lambda>_ _ _ _. 0) (Some 1) 0 [9, 3] (Thread_migrate_new (\<lambda>_. 255) 2 16) =
      Inr (if (0 :: int) = -1 then -1 else 0, tm)" "cpumaps tm = maps" "int (length maps) = 16 div 8 + 1"
    "\<forall>c. int c < 16 \<longrightarrow> cpu_bit maps c = (c \<in> unat ` set [9, 3 :: u32])"
    using pin_sets_exactly_the_targets [of 16 "[9, 3]" "\<lambda>_ _ _ _. 0" "Some 1" 0 "\<lambda>_. 255" 2] by auto
  show ?thesis
    using *(1-3) *(4)[rule_format, of 9] *(4)[rule_format, of 3] *(4)[rule_format, of 8] by auto
qed

text \<open>\<open>migrate_mem_to\<close> refuses empty node lists without a call; otherwise it asks for a migration
  from exactly the old to exactly the new nodes, whatever the masks held, returns the number of
  pages that were not moved, and -1 on any error.\<close>

theorem migrate_between_the_nodes:
  assumes "bitmask_api clearall setbit isset sz"
    "old_nodes \<noteq> []" "new_nodes \<noteq> []"
    "\<forall>b\<in>set old_nodes. unat b < sz (old_nodes_mask mm)" "\<forall>b\<in>set new_nodes. unat b < sz (new_nodes_mask mm)"
  shows "migrate_mem_to clearall setbit migrate proc [] new_nodes mm = (-1, mm) \<and>
    migrate_mem_to clearall setbit migrate proc old_nodes [] mm = (-1, mm) \<and>
    (\<exists>om nm mm'. migrate_mem_to clearall setbit migrate proc old_nodes new_nodes mm =
        (if migrate proc om nm < 0 then -1 else migrate proc om nm, mm') \<and>
      (\<forall>c. isset om c \<longleftrightarrow> c \<in> set old_nodes) \<and> (\<forall>c. isset nm c \<longleftrightarrow> c \<in> set new_nodes))"
proof -
  let ?om = "foldl setbit (clearall (old_nodes_mask mm)) old_nodes"
  let ?nm = "foldl setbit (clearall (new_nodes_mask mm)) new_nodes"
  have "sz (clearall m) = sz m" "\<not> isset (clearall m) c" for m c
    using assms(1) by (auto simp: bitmask_api_def)
  then have "\<forall>c. isset ?om c \<longleftrightarrow> c \<in> set old_nodes" "\<forall>c. isset ?nm c \<longleftrightarrow> c \<in> set new_nodes"
    using assms(4,5) by (auto simp: bitmask_bits(2) [OF assms(1)])
  moreover have "migrate_mem_to clearall setbit migrate proc old_nodes new_nodes mm =
      (if migrate proc ?om ?nm < 0 then -1 else migrate proc ?om ?nm,
       mm\<lparr>old_nodes_mask := ?om, new_nodes_mask := ?nm\<rparr>)"
    using assms(2,3) by (simp add: migrate_mem_to_def Let_def)
  ultimately show ?thesis by (auto simp: migrate_mem_to_def)
qed

text \<open>Masks as the set of their bits with a size, for a closed example.\<close>

definition set_mask_clear :: "u32 set \<times> nat \<Rightarrow> u32 set \<times> nat" where
  "set_mask_clear m = ({}, snd m)"

definition set_mask_set :: "u32 set \<times> nat \<Rightarrow> u32 \<Rightarrow> u32 set \<times> nat" where
  "set_mask_set m b = (if unat b < snd m then (insert b (fst m), snd m) else m)"

theorem migrate_between_the_nodes_witness:
  "migrate_mem_to set_mask_clear set_mask_set (\<lambda>_ _ _. 5) 77 [] [1]
      (Memory_migrate_new (\<lambda>n. ({3}, nat n)) 4) = (-1, Memory_migrate_new (\<lambda>n. ({3}, nat n)) 4) \<and>
    migrate_mem_to set_mask_clear set_mask_set (\<lambda>_ _ _. 5) 77 [0] []
      (Memory_migrate_new (\<lambda>n. ({3}, nat n)) 4) = (-1, Memory_migrate_new (\<lambda>n. ({3}, nat n)) 4) \<and>
    (\<exists>(om :: u32 set \<times> nat) (nm :: u32 set \<times> nat) mm'. migrate_mem_to set_mask_clear set_mask_set (\<lambda>_ _ _. 5) 77 [0] [1]
        (Memory_migrate_new (\<lambda>n. ({3}, nat n)) 4) = (if (5 :: int) < 0 then -1 else 5, mm') \<and>
      (\<forall>c. c \<in> fst om \<longleftrightarrow> c \<in> set [0]) \<and> (\<forall>c. c \<in> fst nm \<longleftrightarrow> c \<in> set [1]))"
  by (rule migrate_between_the_nodes [where isset = "\<lambda>m b. b \<in> fst m" and sz = snd and migrate = "\<lambda>_ _ _. 5"])
     (auto simp: bitmask_api_def set_mask_clear_def set_mask_set_def Memory_migrate_new_def)

end
