(* ===== verification/NuiodState.thy ===== *)
theory NuiodState
  imports NumaInfo CpuMonitor MemMonitor IOMonitor PerfMonitor Migrate
begin

section \<open>The state of the daemon\<close>

text \<open>
  The data members of \<open>Nuiod\<close> (\<open>include/Nuiod.h\<close>) and its constructor, and the
  host: what libvirt, libnuma, the file system and the clock answer while one
  call of a handler runs. Members that no constructor sets keep the contents of
  the storage.
\<close>

record host =
  h_vcpu :: "vir_ptr \<Rightarrow> int \<times> int"
  h_pin :: pin_fun
  h_name :: "vir_ptr \<Rightarrow> string option"
  h_xml :: "vir_ptr \<Rightarrow> string option"
  h_lookup :: "int \<Rightarrow> vir_ptr"
  h_id :: "vir_ptr \<Rightarrow> int"
  h_num_domains :: int
  h_list_domains :: "int \<Rightarrow> int \<times> int list"
  h_file :: "string \<Rightarrow> string option"
  h_now :: "int \<Rightarrow> int \<times> int"
  h_cells :: "int \<Rightarrow> int \<times> u64 list"
  h_perf :: "int \<Rightarrow> string option"
  h_vm_storage :: vm_info
  h_stack :: string

text \<open>
  \<open>h_vcpu\<close> is \<open>virDomainGetVcpus\<close> (status and CPU), \<open>h_pin\<close> \<open>virDomainPinVcpu\<close>,
  \<open>h_name\<close> \<open>virDomainGetName\<close>, \<open>h_xml\<close> \<open>virDomainGetXMLDesc\<close>, \<open>h_lookup\<close>
  \<open>virDomainLookupByID\<close>, \<open>h_id\<close> \<open>virDomainGetID\<close>, \<open>h_num_domains\<close> \<open>virConnectNumOfDomains\<close>,
  \<open>h_list_domains\<close> \<open>virConnectListDomains\<close> (status and the ids stored), \<open>h_file\<close> the files that can be opened, \<open>h_now\<close> the time
  when a given machine is measured, \<open>h_cells\<close> \<open>virNodeGetCellsFreeMemory\<close>,
  \<open>h_perf\<close> the output of \<open>perf\<close> for a given machine; \<open>h_vm_storage\<close> and
  \<open>h_stack\<close> are what uninitialised locals hold.
\<close>

record nuiod =
  numa :: numa_info
  host_cpu_number :: int
  netdev :: string
  netdev_pci_bus_str :: string
  pf_slot_str :: string
  pf_funct_str :: string
  netdev_pci_bus_val :: u32
  netdev_pci_slot_val :: u32
  netdev_pci_funct_val :: u32
  netdev_numanode :: int
  monitor_interval :: u32
  conf_io_threshold :: u64
  vm_infos_map :: "vm_info cpp_map"
  cpu_mon :: cpu_monitor
  mem_mon :: mem_monitor
  io_mon :: string
  thread_mig :: thread_migrate
  conn_str :: string
  conn :: vir_ptr
  monitor_started :: bool
  cpu_vm_mapping :: "int cpp_map"

text \<open>The constructor over the storage \<open>g\<close>; the strategy is an argument of the main loop.\<close>

definition Nuiod_new ::
  "nuiod \<Rightarrow> (nat \<Rightarrow> u64) \<Rightarrow> (nat \<Rightarrow> u8) \<Rightarrow> int \<Rightarrow> int \<Rightarrow> string \<Rightarrow> nuiod" where
  "Nuiod_new g gf gm numa_num cpu_num connect_str = g\<lparr>
     numa := \<lparr>numa_number = numa_num, numa_nodes = [], cpu_node_mapping = [],
              numa_latency = numa_latency (numa g)\<rparr>,
     host_cpu_number := cpu_num,
     cpu_mon := Cpu_monitor_new cpu_num, mem_mon := Mem_monitor_new gf numa_num,
     thread_mig := Thread_migrate_new gm numa_num cpu_num,
     conn_str := c_str connect_str, conf_io_threshold := 0, monitor_started := False,
     vm_infos_map := [], cpu_vm_mapping := []\<rparr>"

text \<open>Storage that happens to be all zero, to give closed examples.\<close>

definition zeroed_nuiod :: nuiod where
  "zeroed_nuiod = \<lparr>numa = \<lparr>numa_number = 0, numa_nodes = [], cpu_node_mapping = [], numa_latency = []\<rparr>,
     host_cpu_number = 0, netdev = [], netdev_pci_bus_str = [], pf_slot_str = [], pf_funct_str = [],
     netdev_pci_bus_val = 0, netdev_pci_slot_val = 0, netdev_pci_funct_val = 0, netdev_numanode = 0,
     monitor_interval = 0, conf_io_threshold = 0, vm_infos_map = [],
     cpu_mon = \<lparr>cpu_number = 0, cpu_stat_array = None\<rparr>,
     mem_mon = \<lparr>mem_numa_number = 0, mem_free_mems = []\<rparr>, io_mon = [],
     thread_mig = \<lparr>tm_numa_number = 0, tm_cpu_number = 0, cpumaps_len = 0, cpumaps = []\<rparr>,
     conn_str = [], conn = None, monitor_started = False, cpu_vm_mapping = []\<rparr>"

text \<open>The views of the two maps that the proofs work with.\<close>

definition vm_at :: "nuiod \<Rightarrow> int \<Rightarrow> vm_info option" where
  "vm_at nd = map_find (vm_infos_map nd)"

definition occupant :: "nuiod \<Rightarrow> int \<Rightarrow> int option" where
  "occupant nd = map_find (cpu_vm_mapping nd)"

end
