(* ===== verification/CpuMapping.thy ===== *)
theory CpuMapping
  imports NuiodState
begin

section \<open>Which machine runs on which CPU\<close>

text \<open>
  \<open>get_vm_real_cpu\<close>, \<open>change_cpu_vm_mapping\<close>, \<open>refresh_cpu_mapping\<close> and \<open>perform\<close> of
  \<open>src/Nuiod.cpp\<close>. A reference to a machine in \<open>vm_infos_map\<close> is its key. The
  invariant of the mapping from CPUs to machines is \<open>mapping_ok\<close>; \<open>exact\<close> says in
  addition that every machine with a known CPU is found there, which holds as
  long as no two machines share a CPU.
\<close>

subsection \<open>Operations\<close>

definition get_vm_real_cpu :: "(vir_ptr \<Rightarrow> int \<times> int) \<Rightarrow> vir_ptr \<Rightarrow> int" where
  "get_vm_real_cpu vcpu ptr = (let (ret, cpu) = vcpu ptr in if ret = -1 then ret else cpu)"

definition change_cpu_vm_mapping :: "int \<Rightarrow> vm_info \<Rightarrow> int \<Rightarrow> nuiod \<Rightarrow> nuiod" where
  "change_cpu_vm_mapping k vm new_cpu nd =
     (let m = (if map_find (cpu_vm_mapping nd) (real_cpu_no vm) = Some (dom_id vm)
               then map_erase (real_cpu_no vm) (cpu_vm_mapping nd) else cpu_vm_mapping nd);
          vm' = vm\<lparr>real_cpu_no := new_cpu\<rparr>
      in nd\<lparr>vm_infos_map := map_assign k vm' (vm_infos_map nd),
            cpu_vm_mapping := map_assign (real_cpu_no vm') (dom_id vm') m\<rparr>)"

definition refresh_vm :: "(vir_ptr \<Rightarrow> int \<times> int) \<Rightarrow> int \<Rightarrow> nuiod \<Rightarrow> nuiod" where
  "refresh_vm vcpu k nd =
     (case map_find (vm_infos_map nd) k of
        None \<Rightarrow> nd
      | Some vm \<Rightarrow>
          (let ret = get_vm_real_cpu vcpu (dom_ptr vm)
           in if ret = -1 \<or> ret = real_cpu_no vm then nd else change_cpu_vm_mapping k vm ret nd))"

definition refresh_cpu_mapping :: "(vir_ptr \<Rightarrow> int \<times> int) \<Rightarrow> nuiod \<Rightarrow> nuiod" where
  "refresh_cpu_mapping vcpu nd = fold (refresh_vm vcpu) (map_keys (vm_infos_map nd)) nd"

text \<open>The CPUs of a node in ascending order of their usage.\<close>

definition sorted_cpu_list :: "latency_sort \<Rightarrow> dbl list \<Rightarrow> numa_node \<Rightarrow> (int \<times> dbl) list" where
  "sorted_cpu_list srt cpu_usage node =
     srt (map (\<lambda>c. (int c, cpu_usage ! (c + 1)))
           (filter (\<lambda>c. int c \<in> set (cpu_ids node)) [0..<length cpu_usage - 1]))"

definition node_sorted_cpu_list :: "latency_sort \<Rightarrow> dbl list \<Rightarrow> numa_info \<Rightarrow> (int \<times> dbl) list list res" where
  "node_sorted_cpu_list srt cpu_usage nu =
     fold_res (\<lambda>i acc. bind_res (vec_at (numa_nodes nu) i) (\<lambda>node.
                       Inr (acc @ [sorted_cpu_list srt cpu_usage node])))
       (map int [0..<nat (numa_number nu)]) []"

text \<open>The first CPU of the list that no machine is mapped to.\<close>

definition find_free :: "int cpp_map \<Rightarrow> (int \<times> dbl) list \<Rightarrow> int option" where
  "find_free m cpus = map_option fst (find (\<lambda>p. map_find m (fst p) = None) cpus)"

text \<open>
  One decision. \<open>operator[]\<close> inserts a default where there is no entry: a new
  \<open>VM_info\<close> in \<open>vm_infos_map\<close>, node 0 in \<open>cpu_node_mapping\<close>.
\<close>

definition perform_act ::
  "pin_fun \<Rightarrow> vm_info \<Rightarrow> (int \<times> dbl) list list \<Rightarrow> decision \<Rightarrow> nuiod \<Rightarrow> nuiod res" where
  "perform_act pin g cpu_lists act nd =
     (let vms = map_insert (d_dom_id act) (VM_info_init g) (vm_infos_map nd);
          vm = (case map_find vms (d_dom_id act) of Some v \<Rightarrow> v | None \<Rightarrow> VM_info_init g);
          cpus = map_insert (real_cpu_no vm) 0 (cpu_node_mapping (numa nd));
          cpu_old_node = (case map_find cpus (real_cpu_no vm) of Some n \<Rightarrow> n | None \<Rightarrow> 0);
          nd' = nd\<lparr>vm_infos_map := vms, numa := (numa nd)\<lparr>cpu_node_mapping := cpus\<rparr>\<rparr>
      in if cpu_old_node = cpu_node_id act then Inr nd'
         else bind_res (vec_at cpu_lists (cpu_node_id act)) (\<lambda>cpu_list.
              case find_free (cpu_vm_mapping nd') cpu_list of
                None \<Rightarrow> Inr nd'
              | Some target_cpuno \<Rightarrow>
                  bind_res (pin_vcpu_to pin (dom_ptr vm) 0 [int_to_unsigned target_cpuno] (thread_mig nd'))
                    (\<lambda>(ret, tm). let nd'' = nd'\<lparr>thread_mig := tm\<rparr>
                       in if ret = -1 then Inr nd''
                          else Inr (change_cpu_vm_mapping (d_dom_id act) vm target_cpuno nd''))))"

definition perform ::
  "latency_sort \<Rightarrow> pin_fun \<Rightarrow> vm_info \<Rightarrow> decision list \<Rightarrow> dbl list \<Rightarrow> nuiod \<Rightarrow> nuiod res" where
  "perform srt pin g acts cpu_usage nd =
     bind_res (node_sorted_cpu_list srt cpu_usage (numa nd)) (\<lambda>cpu_lists.
     fold_res (perform_act pin g cpu_lists) acts nd)"

subsection \<open>The invariant\<close>

definition maps_ok :: "nuiod \<Rightarrow> bool" where
  "maps_ok nd \<longleftrightarrow> map_ok (vm_infos_map nd) \<and> map_ok (cpu_vm_mapping nd) \<and>
     (\<forall>d vm. vm_at nd d = Some vm \<longrightarrow> dom_id vm = d)"

definition mapping_ok :: "nuiod \<Rightarrow> bool" where
  "mapping_ok nd \<longleftrightarrow> maps_ok nd \<and>
     (\<forall>c d. occupant nd c = Some d \<longrightarrow> (\<exists>vm. vm_at nd d = Some vm \<and> real_cpu_no vm = c))"

definition exact :: "nuiod \<Rightarrow> bool" where
  "exact nd \<longleftrightarrow> mapping_ok nd \<and>
     (\<forall>d vm. vm_at nd d = Some vm \<longrightarrow> real_cpu_no vm \<noteq> -1 \<longrightarrow> occupant nd (real_cpu_no vm) = Some d)"

lemma change_views:
  assumes "maps_ok nd" "vm_at nd k = Some vm"
  shows "vm_at (change_cpu_vm_mapping k vm c nd) = (vm_at nd)(k \<mapsto> vm\<lparr>real_cpu_no := c\<rparr>)"
    "occupant (change_cpu_vm_mapping k vm c nd) =
       (if occupant nd (real_cpu_no vm) = Some k then (occupant nd)(real_cpu_no vm := None) else occupant nd)(c \<mapsto> k)"
    "maps_ok (change_cpu_vm_mapping k vm c nd)"
proof -
  have k: "dom_id vm = k" "map_ok (vm_infos_map nd)" "map_ok (cpu_vm_mapping nd)"
    using assms by (auto simp: maps_ok_def)
  show v: "vm_at (change_cpu_vm_mapping k vm c nd) = (vm_at nd)(k \<mapsto> vm\<lparr>real_cpu_no := c\<rparr>)"
    by (simp add: vm_at_def change_cpu_vm_mapping_def Let_def vmap.find_assign [OF k(2)])
  show "occupant (change_cpu_vm_mapping k vm c nd) =
       (if occupant nd (real_cpu_no vm) = Some k then (occupant nd)(real_cpu_no vm := None) else occupant nd)(c \<mapsto> k)"
    using k by (simp add: occupant_def change_cpu_vm_mapping_def Let_def vmap.find_assign vmap.find_erase vmap.ok_erase)
  have "map_ok (vm_infos_map (change_cpu_vm_mapping k vm c nd))" "map_ok (cpu_vm_mapping (change_cpu_vm_mapping k vm c nd))"
    using k by (simp_all add: change_cpu_vm_mapping_def Let_def vmap.ok_assign vmap.ok_erase)
  then show "maps_ok (change_cpu_vm_mapping k vm c nd)"
    using assms k(1) by (auto simp: maps_ok_def v)
qed

lemma change_frame [simp]:
  "numa (change_cpu_vm_mapping k vm c nd) = numa nd"
  "thread_mig (change_cpu_vm_mapping k vm c nd) = thread_mig nd"
  by (simp_all add: change_cpu_vm_mapping_def Let_def)

lemma mapping_ok_maps: "mapping_ok nd \<Longrightarrow> maps_ok nd"
  by (simp add: mapping_ok_def)

lemma mapping_okD:
  "mapping_ok nd \<Longrightarrow> occupant nd c = Some d \<Longrightarrow> \<exists>vm. vm_at nd d = Some vm \<and> real_cpu_no vm = c"
  by (simp add: mapping_ok_def)

lemma mapping_ok_cpu:
  "mapping_ok nd \<Longrightarrow> occupant nd c = Some d \<Longrightarrow> vm_at nd d = Some vm \<Longrightarrow> real_cpu_no vm = c"
  using mapping_okD by fastforce

lemma exact_mapping_ok: "exact nd \<Longrightarrow> mapping_ok nd"
  by (simp add: exact_def)

lemma exactD:
  "exact nd \<Longrightarrow> vm_at nd d = Some vm \<Longrightarrow> real_cpu_no vm \<noteq> -1 \<Longrightarrow> occupant nd (real_cpu_no vm) = Some d"
  by (simp add: exact_def)

lemma change_mapping_ok:
  assumes "mapping_ok nd" "vm_at nd k = Some vm"
  shows "mapping_ok (change_cpu_vm_mapping k vm c nd)"
  unfolding mapping_ok_def
proof (intro conjI allI impI)
  note v = change_views [OF mapping_ok_maps [OF assms(1)] assms(2), of c]
  show "maps_ok (change_cpu_vm_mapping k vm c nd)" by (rule v(3))
  have own: "e = real_cpu_no vm" if "occupant nd e = Some k" for e
    using mapping_ok_cpu [OF assms(1) that assms(2)] by simp
  fix e d assume "occupant (change_cpu_vm_mapping k vm c nd) e = Some d"
  then consider "e = c" "d = k" | "e \<noteq> c" "occupant nd e = Some d" "d \<noteq> k"
    by (auto simp: v(2) dest: own split: if_splits)
  then show "\<exists>vm'. vm_at (change_cpu_vm_mapping k vm c nd) d = Some vm' \<and> real_cpu_no vm' = e"
    using mapping_okD [OF assms(1)] by cases (auto simp: v(1))
qed

text \<open>A machine moves to a CPU that no other machine is known on.\<close>

lemma change_exact:
  assumes "exact nd" "vm_at nd k = Some vm" "occupant nd c \<in> {None, Some k}"
  shows "exact (change_cpu_vm_mapping k vm c nd)"
  unfolding exact_def
proof (intro conjI allI impI)
  note ok = exact_mapping_ok [OF assms(1)]
  note v = change_views [OF mapping_ok_maps [OF ok] assms(2), of c]
  show "mapping_ok (change_cpu_vm_mapping k vm c nd)" by (rule change_mapping_ok [OF ok assms(2)])
  fix d vm' assume d: "vm_at (change_cpu_vm_mapping k vm c nd) d = Some vm'" "real_cpu_no vm' \<noteq> -1"
  show "occupant (change_cpu_vm_mapping k vm c nd) (real_cpu_no vm') = Some d"
  proof (cases "d = k")
    case True
    then show ?thesis using d by (auto simp: v)
  next
    case False
    then have "occupant nd (real_cpu_no vm') = Some d" using exactD [OF assms(1)] d by (simp add: v(1))
    then show ?thesis using False assms(3) by (auto simp: v(2))
  qed
qed

subsection \<open>Refreshing the mapping\<close>

lemma refresh_vm_mapping_ok:
  assumes "mapping_ok nd" shows "mapping_ok (refresh_vm vcpu k nd)"
  using assms change_mapping_ok [of nd k]
  by (auto simp: refresh_vm_def vm_at_def Let_def split: option.splits)

lemma refresh_vm_dom: "maps_ok nd \<Longrightarrow> dom (vm_at (refresh_vm vcpu k nd)) = dom (vm_at nd)"
  using change_views(1) [of nd k]
  by (auto simp: refresh_vm_def vm_at_def Let_def split: option.splits if_splits)

lemma fold_refresh_mapping_ok: "mapping_ok nd \<Longrightarrow> mapping_ok (fold (refresh_vm vcpu) ks nd)"
  by (induction ks arbitrary: nd) (auto simp: refresh_vm_mapping_ok)

text \<open>The CPU a machine is on after the refresh.\<close>

definition new_cpu_of :: "(vir_ptr \<Rightarrow> int \<times> int) \<Rightarrow> vm_info \<Rightarrow> int" where
  "new_cpu_of vcpu vm =
     (let ret = get_vm_real_cpu vcpu (dom_ptr vm) in if ret = -1 then real_cpu_no vm else ret)"

lemma refresh_vm_view:
  assumes "maps_ok nd" "vm_at nd k = Some vm"
  shows "vm_at (refresh_vm vcpu k nd) = (vm_at nd)(k \<mapsto> vm\<lparr>real_cpu_no := new_cpu_of vcpu vm\<rparr>)"
    "maps_ok (refresh_vm vcpu k nd)"
    "new_cpu_of vcpu vm = real_cpu_no vm \<Longrightarrow> occupant (refresh_vm vcpu k nd) = occupant nd"
    "new_cpu_of vcpu vm \<noteq> real_cpu_no vm \<Longrightarrow> occupant (refresh_vm vcpu k nd) =
      (if occupant nd (real_cpu_no vm) = Some k then (occupant nd)(real_cpu_no vm := None) else occupant nd)
        (new_cpu_of vcpu vm \<mapsto> k)"
proof -
  let ?c = "new_cpu_of vcpu vm"
  have k: "map_find (vm_infos_map nd) k = Some vm" using assms(2) by (simp add: vm_at_def)
  have step: "refresh_vm vcpu k nd = (if ?c = real_cpu_no vm then nd else change_cpu_vm_mapping k vm ?c nd)"
    by (simp add: refresh_vm_def k new_cpu_of_def Let_def)
  note v = change_views [OF assms, of ?c]
  show "vm_at (refresh_vm vcpu k nd) = (vm_at nd)(k \<mapsto> vm\<lparr>real_cpu_no := ?c\<rparr>)"
    using v(1) assms(2) by (auto simp: step fun_eq_iff)
  show "maps_ok (refresh_vm vcpu k nd)" using v(3) assms(1) by (simp add: step)
  show "?c = real_cpu_no vm \<Longrightarrow> occupant (refresh_vm vcpu k nd) = occupant nd" by (simp add: step)
  show "?c \<noteq> real_cpu_no vm \<Longrightarrow> occupant (refresh_vm vcpu k nd) =
      (if occupant nd (real_cpu_no vm) = Some k then (occupant nd)(real_cpu_no vm := None) else occupant nd)(?c \<mapsto> k)"
    using v(2) by (simp add: step)
qed

text \<open>Nothing changes when libvirt reports what the records say.\<close>

lemma refresh_vm_idle:
  assumes "\<forall>vm. vm_at nd k = Some vm \<longrightarrow> new_cpu_of vcpu vm = real_cpu_no vm"
  shows "refresh_vm vcpu k nd = nd"
  using assms by (auto simp: refresh_vm_def vm_at_def new_cpu_of_def Let_def split: option.splits if_splits)

lemma refresh_idle:
  assumes "\<forall>k vm. vm_at nd k = Some vm \<longrightarrow> new_cpu_of vcpu vm = real_cpu_no vm"
  shows "refresh_cpu_mapping vcpu nd = nd"
proof -
  have "refresh_vm vcpu k nd = nd" for k using assms by (intro refresh_vm_idle) blast
  then have "fold (refresh_vm vcpu) ks nd = nd" for ks by (induction ks) simp_all
  then show ?thesis by (simp add: refresh_cpu_mapping_def)
qed

text \<open>
  The state when the machines in \<open>done\<close> have been refreshed, from \<open>nd0\<close>: a machine
  that is done, or stays where it is, is the one found on its CPU.
\<close>

definition refreshed :: "(vir_ptr \<Rightarrow> int \<times> int) \<Rightarrow> nuiod \<Rightarrow> int set \<Rightarrow> nuiod \<Rightarrow> bool" where
  "refreshed vcpu nd0 P nd \<longleftrightarrow> mapping_ok nd \<and>
     (\<forall>k. vm_at nd k = map_option (\<lambda>vm. if k \<in> P then vm\<lparr>real_cpu_no := new_cpu_of vcpu vm\<rparr> else vm) (vm_at nd0 k)) \<and>
     (\<forall>k vm. vm_at nd0 k = Some vm \<longrightarrow> new_cpu_of vcpu vm \<noteq> -1 \<longrightarrow>
        (k \<in> P \<or> new_cpu_of vcpu vm = real_cpu_no vm) \<longrightarrow> occupant nd (new_cpu_of vcpu vm) = Some k)"

text \<open>No two machines are reported on the same CPU.\<close>

definition distinct_cpus :: "(vir_ptr \<Rightarrow> int \<times> int) \<Rightarrow> nuiod \<Rightarrow> bool" where
  "distinct_cpus vcpu nd \<longleftrightarrow> (\<forall>j k v w. vm_at nd j = Some v \<longrightarrow> vm_at nd k = Some w \<longrightarrow> j \<noteq> k \<longrightarrow>
     new_cpu_of vcpu v \<noteq> -1 \<longrightarrow> new_cpu_of vcpu v \<noteq> new_cpu_of vcpu w)"

lemma refreshed_step:
  assumes "refreshed vcpu nd0 P nd" "distinct_cpus vcpu nd0" "k \<notin> P" "vm_at nd0 k = Some vm"
  shows "refreshed vcpu nd0 (insert k P) (refresh_vm vcpu k nd)"
proof -
  let ?c = "new_cpu_of vcpu vm"
  have ok: "mapping_ok nd" and at: "vm_at nd k = Some vm"
    using assms by (auto simp: refreshed_def)
  note v = refresh_vm_view [OF mapping_ok_maps [OF ok] at, of vcpu]
  have "occupant (refresh_vm vcpu k nd) (new_cpu_of vcpu w) = Some j"
    if j: "vm_at nd0 j = Some w" "new_cpu_of vcpu w \<noteq> -1" "j \<in> insert k P \<or> new_cpu_of vcpu w = real_cpu_no w" for j w
  proof (cases "j = k")
    case True
    then have w: "w = vm" using j assms(4) by simp
    then show ?thesis
      using j True assms(1,4) v(3,4) by (cases "?c = real_cpu_no vm") (auto simp: refreshed_def)
  next
    case False
    then have ne: "new_cpu_of vcpu w \<noteq> ?c" using assms(2,4) j by (auto simp: distinct_cpus_def)
    have "occupant nd (new_cpu_of vcpu w) = Some j" using assms(1) False j by (auto simp: refreshed_def)
    then show ?thesis using v(3,4) ne False by (cases "?c = real_cpu_no vm") auto
  qed
  moreover have "vm_at (refresh_vm vcpu k nd) j =
      map_option (\<lambda>vm. if j \<in> insert k P then vm\<lparr>real_cpu_no := new_cpu_of vcpu vm\<rparr> else vm) (vm_at nd0 j)" for j
    using assms(1,4) v(1) by (auto simp: refreshed_def)
  ultimately show ?thesis
    using refresh_vm_mapping_ok [OF ok, of vcpu k] by (auto simp: refreshed_def)
qed

lemma refreshed_fold:
  assumes "distinct_cpus vcpu nd0" "distinct ks" "set ks \<subseteq> dom (vm_at nd0)" "refreshed vcpu nd0 P nd" "set ks \<inter> P = {}"
  shows "refreshed vcpu nd0 (P \<union> set ks) (fold (refresh_vm vcpu) ks nd)"
  using assms(2-5)
proof (induction ks arbitrary: P nd)
  case (Cons k ks)
  obtain vm where "vm_at nd0 k = Some vm" using Cons.prems(2) by auto
  then have "refreshed vcpu nd0 (insert k P) (refresh_vm vcpu k nd)"
    using refreshed_step [OF Cons.prems(3) assms(1)] Cons.prems(4) by auto
  then show ?case using Cons.IH [of "insert k P" "refresh_vm vcpu k nd"] Cons.prems by auto
qed simp

lemma keys_dom: "maps_ok nd \<Longrightarrow> set (map_keys (vm_infos_map nd)) = dom (vm_at nd) \<and> distinct (map_keys (vm_infos_map nd))"
  using vmap.keys_dom vmap.keys_distinct by (auto simp: maps_ok_def vm_at_def)

lemma refresh_result:
  assumes "exact nd" "distinct_cpus vcpu nd"
  shows "refreshed vcpu nd (dom (vm_at nd)) (refresh_cpu_mapping vcpu nd)"
proof -
  have ok: "mapping_ok nd" "maps_ok nd" using assms(1) by (simp_all add: exact_def mapping_ok_def)
  have "refreshed vcpu nd {} nd"
    using assms(1) ok(1) exactD [OF assms(1)] by (auto simp: refreshed_def option.map_ident)
  from refreshed_fold [OF assms(2) _ _ this, of "map_keys (vm_infos_map nd)"] keys_dom [OF ok(2)]
  show ?thesis by (simp add: refresh_cpu_mapping_def)
qed

lemma refresh_exact:
  assumes "exact nd" "distinct_cpus vcpu nd"
  shows "exact (refresh_cpu_mapping vcpu nd)"
  unfolding exact_def
proof (intro conjI allI impI)
  note r = refresh_result [OF assms]
  have occ: "occupant (refresh_cpu_mapping vcpu nd) (new_cpu_of vcpu w) = Some d"
    if "vm_at nd d = Some w" "new_cpu_of vcpu w \<noteq> -1" for d w
    using r that unfolding refreshed_def by blast
  show "mapping_ok (refresh_cpu_mapping vcpu nd)" using r by (simp add: refreshed_def)
  fix d vm assume vm: "vm_at (refresh_cpu_mapping vcpu nd) d = Some vm" "real_cpu_no vm \<noteq> -1"
  then obtain w where w: "vm_at nd d = Some w" "real_cpu_no vm = new_cpu_of vcpu w"
    using r by (auto simp: refreshed_def dom_def)
  then show "occupant (refresh_cpu_mapping vcpu nd) (real_cpu_no vm) = Some d"
    using occ [OF w(1)] vm(2) by simp
qed

subsection \<open>Performing decisions\<close>

text \<open>
  The nodes are those of the host: every CPU of a node exists and is mapped to
  that node, and the CPU map has room for every CPU.
\<close>

definition nodes_ok :: "nuiod \<Rightarrow> bool" where
  "nodes_ok nd \<longleftrightarrow>
     map_ok (cpu_node_mapping (numa nd)) \<and>
     length (numa_nodes (numa nd)) = nat (numa_number (numa nd)) \<and>
     0 \<le> host_cpu_number nd \<and> host_cpu_number nd < 2 ^ 31 \<and>
     cpumaps_len (thread_mig nd) = host_cpu_number nd div 8 + 1 \<and>
     (\<forall>i<nat (numa_number (numa nd)). \<forall>c\<in>set (cpu_ids (numa_nodes (numa nd) ! i)).
        0 \<le> c \<and> c < host_cpu_number nd \<and> map_find (cpu_node_mapping (numa nd)) c = Some (int i))"

text \<open>What a decision that moves nothing may still change.\<close>

definition same_machines :: "nuiod \<Rightarrow> nuiod \<Rightarrow> bool" where
  "same_machines nd nd' \<longleftrightarrow> vm_infos_map nd' = vm_infos_map nd \<and> cpu_vm_mapping nd' = cpu_vm_mapping nd \<and>
     numa_nodes (numa nd') = numa_nodes (numa nd) \<and> numa_number (numa nd') = numa_number (numa nd) \<and>
     host_cpu_number nd' = host_cpu_number nd \<and>
     (nodes_ok nd \<longrightarrow> nodes_ok nd')"

lemma same_machinesD:
  "same_machines nd nd' \<Longrightarrow> vm_at nd' = vm_at nd \<and> occupant nd' = occupant nd \<and>
   (mapping_ok nd \<longrightarrow> mapping_ok nd') \<and> (exact nd \<longrightarrow> exact nd') \<and> (maps_ok nd \<longrightarrow> maps_ok nd')"
  by (auto simp: same_machines_def vm_at_def occupant_def mapping_ok_def exact_def maps_ok_def)

lemma change_nodes_ok [simp]: "nodes_ok (change_cpu_vm_mapping k vm c nd) = nodes_ok nd"
  by (simp add: nodes_ok_def change_cpu_vm_mapping_def Let_def)

lemma node_sorted_cpu_list_eq:
  assumes "length (numa_nodes nu) = nat (numa_number nu)"
  shows "node_sorted_cpu_list srt cpu_usage nu = Inr (map (sorted_cpu_list srt cpu_usage) (numa_nodes nu))"
proof -
  have "n \<le> length (numa_nodes nu) \<Longrightarrow>
      fold_res (\<lambda>i acc. bind_res (vec_at (numa_nodes nu) i) (\<lambda>node. Inr (acc @ [sorted_cpu_list srt cpu_usage node])))
        (map int [0..<n]) [] = Inr (map (sorted_cpu_list srt cpu_usage) (take n (numa_nodes nu)))" for n
    by (induction n) (auto simp: fold_res_append vec_at_nat take_Suc_conv_app_nth)
  then show ?thesis using assms by (simp add: node_sorted_cpu_list_def)
qed

lemma sorted_cpu_list_cpus:
  assumes "std_sort compare_pairs_second srt" "NaN \<notin> set cpu_usage"
  shows "fst ` set (sorted_cpu_list srt cpu_usage node) =
    {c \<in> set (cpu_ids node). 0 \<le> c \<and> c + 1 < int (length cpu_usage)}"
proof -
  let ?xs = "map (\<lambda>c. (int c, cpu_usage ! (c + 1)))
      (filter (\<lambda>c. int c \<in> set (cpu_ids node)) [0..<length cpu_usage - 1])"
  have "cpu_usage ! (c + 1) \<noteq> NaN" if "c < length cpu_usage - 1" for c
    using assms(2) that nth_mem [of "c + 1" cpu_usage] by (metis less_diff_conv)
  then have "strict_weak_on compare_pairs_second (set ?xs)" by (intro strict_weak_on_dbl) auto
  then have "set (srt ?xs) = set ?xs" by (rule std_sort.srt_set [OF assms(1)])
  then have "fst ` set (sorted_cpu_list srt cpu_usage node) =
      int ` {c. int c \<in> set (cpu_ids node) \<and> c < length cpu_usage - 1}"
    by (auto simp: sorted_cpu_list_def image_image)
  also have "\<dots> = {c \<in> set (cpu_ids node). 0 \<le> c \<and> c + 1 < int (length cpu_usage)}"
    by (auto simp: image_iff intro!: exI [of _ "nat _"])
  finally show ?thesis .
qed

lemma find_free_Some:
  "find_free m cpus = Some c \<Longrightarrow> c \<in> fst ` set cpus \<and> map_find m c = None"
  by (induction cpus) (auto simp: find_free_def split: if_splits)

lemma find_free_None: "find_free m cpus = None \<longleftrightarrow> (\<forall>c\<in>fst ` set cpus. map_find m c \<noteq> None)"
  by (induction cpus) (auto simp: find_free_def)

text \<open>One decision about a machine that is in the map.\<close>

definition act_lists :: "latency_sort \<Rightarrow> dbl list \<Rightarrow> nuiod \<Rightarrow> (int \<times> dbl) list list" where
  "act_lists srt cpu_usage nd = map (sorted_cpu_list srt cpu_usage) (numa_nodes (numa nd))"

text \<open>The CPUs of a node that no machine is mapped to.\<close>

definition free_cpus :: "nuiod \<Rightarrow> nat \<Rightarrow> int set" where
  "free_cpus nd k = {c \<in> set (cpu_ids (numa_nodes (numa nd) ! k)). occupant nd c = None}"

lemma cpus_in_nodes:
  assumes "nodes_ok nd" "i < nat (numa_number (numa nd))" "c \<in> set (cpu_ids (numa_nodes (numa nd) ! i))"
  shows "0 \<le> c" "c < host_cpu_number nd" "map_find (cpu_node_mapping (numa nd)) c = Some (int i)"
    "unat (int_to_unsigned c) div 8 < nat (cpumaps_len (thread_mig nd))"
proof -
  show c: "0 \<le> c" "c < host_cpu_number nd" "map_find (cpu_node_mapping (numa nd)) c = Some (int i)"
    using assms by (auto simp: nodes_ok_def)
  have h: "host_cpu_number nd < 2 ^ 31" "cpumaps_len (thread_mig nd) = host_cpu_number nd div 8 + 1"
    using assms(1) by (auto simp: nodes_ok_def)
  have "uint (int_to_unsigned c) = c" by (rule uint_int_to_unsigned_small) (use c h in simp_all)
  then have u: "unat (int_to_unsigned c) = nat c" by (metis nat_uint_eq)
  have "int (nat c div 8) = c div 8" using c(1) by (simp add: zdiv_int)
  also have "\<dots> < host_cpu_number nd div 8 + 1" using c(2) zdiv_mono1 [of c "host_cpu_number nd" 8] by simp
  finally show "unat (int_to_unsigned c) div 8 < nat (cpumaps_len (thread_mig nd))"
    unfolding h(2) u by linarith
qed

text \<open>The state after the lookups with \<open>operator[]\<close>.\<close>

definition looked_up :: "vm_info \<Rightarrow> nuiod \<Rightarrow> nuiod" where
  "looked_up vm nd = nd\<lparr>vm_infos_map := vm_infos_map nd, numa := (numa nd)\<lparr>cpu_node_mapping :=
     map_insert (real_cpu_no vm) 0 (cpu_node_mapping (numa nd))\<rparr>\<rparr>"

lemma looked_up_frame [simp]:
  "vm_infos_map (looked_up vm nd) = vm_infos_map nd" "cpu_vm_mapping (looked_up vm nd) = cpu_vm_mapping nd"
  "numa_nodes (numa (looked_up vm nd)) = numa_nodes (numa nd)"
  "numa_number (numa (looked_up vm nd)) = numa_number (numa nd)"
  "host_cpu_number (looked_up vm nd) = host_cpu_number nd" "thread_mig (looked_up vm nd) = thread_mig nd"
  "cpu_node_mapping (numa (looked_up vm nd)) = map_insert (real_cpu_no vm) 0 (cpu_node_mapping (numa nd))"
  by (simp_all add: looked_up_def)

lemma looked_up_same: "same_machines nd (looked_up vm nd)"
  unfolding same_machines_def nodes_ok_def
  by (simp add: map_ok_insert map_find_insert) (metis option.distinct(1))

lemma nodes_ok_cpumaps [simp]: "nodes_ok (nd\<lparr>thread_mig := (thread_mig nd)\<lparr>cpumaps := maps\<rparr>\<rparr>) = nodes_ok nd"
  by (simp add: nodes_ok_def)

lemma same_machines_pin: "same_machines nd nd' \<Longrightarrow> same_machines nd (nd'\<lparr>thread_mig := (thread_mig nd')\<lparr>cpumaps := maps\<rparr>\<rparr>)"
  by (simp add: same_machines_def)

lemma perform_act_eq:
  assumes "vm_at nd (d_dom_id act) = Some vm"
  shows "perform_act pin g cpu_lists act nd =
    (if (case map_find (map_insert (real_cpu_no vm) 0 (cpu_node_mapping (numa nd))) (real_cpu_no vm) of
           Some n \<Rightarrow> n | None \<Rightarrow> 0) = cpu_node_id act then Inr (looked_up vm nd)
     else bind_res (vec_at cpu_lists (cpu_node_id act)) (\<lambda>cpu_list.
       case find_free (cpu_vm_mapping nd) cpu_list of
         None \<Rightarrow> Inr (looked_up vm nd)
       | Some c \<Rightarrow>
           bind_res (pin_vcpu_to pin (dom_ptr vm) 0 [int_to_unsigned c] (thread_mig nd))
             (\<lambda>(ret, tm). if ret = -1 then Inr ((looked_up vm nd)\<lparr>thread_mig := tm\<rparr>)
                else Inr (change_cpu_vm_mapping (d_dom_id act) vm c ((looked_up vm nd)\<lparr>thread_mig := tm\<rparr>)))))"
proof -
  have v: "map_find (vm_infos_map nd) (d_dom_id act) = Some vm" using assms by (simp add: vm_at_def)
  then have mi: "map_insert (d_dom_id act) (VM_info_init g) (vm_infos_map nd) = vm_infos_map nd"
    by (simp add: map_insert_def)
  show ?thesis
    unfolding perform_act_def Let_def mi v option.case looked_up_def [symmetric] looked_up_frame by simp
qed

lemma node_list_free:
  assumes "nodes_ok nd" "std_sort compare_pairs_second srt" "NaN \<notin> set u"
    "int (length u) = host_cpu_number nd + 1" "0 \<le> n" "n < numa_number (numa nd)"
  shows "vec_at (act_lists srt u nd) n = Inr (sorted_cpu_list srt u (numa_nodes (numa nd) ! nat n))"
    "find_free (cpu_vm_mapping nd) (sorted_cpu_list srt u (numa_nodes (numa nd) ! nat n)) = None \<Longrightarrow> free_cpus nd (nat n) = {}"
    "find_free (cpu_vm_mapping nd) (sorted_cpu_list srt u (numa_nodes (numa nd) ! nat n)) = Some c \<Longrightarrow> c \<in> free_cpus nd (nat n)"
proof -
  let ?node = "numa_nodes (numa nd) ! nat n"
  let ?list = "sorted_cpu_list srt u ?node"
  have k: "nat n < nat (numa_number (numa nd))" "nat n < length (numa_nodes (numa nd))"
    using assms(1,5,6) by (auto simp: nodes_ok_def)
  show "vec_at (act_lists srt u nd) n = Inr ?list" using k assms(5) by (simp add: act_lists_def vec_at_def)
  have "0 \<le> c \<and> c + 1 < int (length u)" if "c \<in> set (cpu_ids ?node)" for c
    using cpus_in_nodes(1,2) [OF assms(1) k(1) that] assms(4) by simp
  then have "fst ` set ?list = set (cpu_ids ?node)"
    using sorted_cpu_list_cpus [OF assms(2,3), of ?node] by auto
  then have free: "c \<in> fst ` set ?list \<and> map_find (cpu_vm_mapping nd) c = None \<longleftrightarrow> c \<in> free_cpus nd (nat n)" for c
    by (auto simp: free_cpus_def occupant_def)
  show "free_cpus nd (nat n) = {}" if "find_free (cpu_vm_mapping nd) ?list = None"
  proof -
    have "\<forall>c\<in>fst ` set ?list. map_find (cpu_vm_mapping nd) c \<noteq> None" using that by (simp only: find_free_None)
    then show ?thesis using free by (meson equals0I)
  qed
  show "c \<in> free_cpus nd (nat n)" if "find_free (cpu_vm_mapping nd) ?list = Some c"
    using free find_free_Some [OF that] by blast
qed

lemma perform_act_cases:
  assumes "maps_ok nd" "nodes_ok nd" "std_sort compare_pairs_second srt" "NaN \<notin> set u"
    "int (length u) = host_cpu_number nd + 1" "vm_at nd (d_dom_id act) = Some vm"
    "0 \<le> cpu_node_id act" "cpu_node_id act < numa_number (numa nd)"
  obtains (stay) nd' where "perform_act pin g (act_lists srt u nd) act nd = Inr nd'" "same_machines nd nd'"
      "map_find (cpu_node_mapping (numa nd)) (real_cpu_no vm) \<in> {None, Some (cpu_node_id act)} \<or>
       free_cpus nd (nat (cpu_node_id act)) = {}"
    | (refused) nd' where "perform_act pin g (act_lists srt u nd) act nd = Inr nd'" "same_machines nd nd'"
      "\<exists>maps. pin (dom_ptr vm) 0 maps (cpumaps_len (thread_mig nd)) = -1"
    | (moved) c nd' where "perform_act pin g (act_lists srt u nd) act nd =
        Inr (change_cpu_vm_mapping (d_dom_id act) vm c nd')" "same_machines nd nd'"
      "c \<in> free_cpus nd (nat (cpu_node_id act))"
proof -
  let ?k = "nat (cpu_node_id act)"
  let ?list = "sorted_cpu_list srt u (numa_nodes (numa nd) ! ?k)"
  note free = node_list_free [OF assms(2-5,7,8)]
  let ?old = "case map_find (map_insert (real_cpu_no vm) 0 (cpu_node_mapping (numa nd))) (real_cpu_no vm) of
      Some n \<Rightarrow> n | None \<Rightarrow> 0"
  have mo: "map_ok (cpu_node_mapping (numa nd))" using assms(2) by (simp add: nodes_ok_def)
  consider "?old = cpu_node_id act" | "?old \<noteq> cpu_node_id act" "find_free (cpu_vm_mapping nd) ?list = None"
    | c where "?old \<noteq> cpu_node_id act" "find_free (cpu_vm_mapping nd) ?list = Some c"
    by (cases "find_free (cpu_vm_mapping nd) ?list") auto
  then show ?thesis
  proof cases
    case 1
    then show ?thesis
      using stay [of "looked_up vm nd"] looked_up_same
      by (simp add: perform_act_eq [OF assms(6)] map_find_insert [OF mo] split: option.splits if_splits)
  next
    case 2
    then show ?thesis
      using stay [of "looked_up vm nd"] looked_up_same free(2) by (simp add: perform_act_eq [OF assms(6)] free(1))
  next
    case (3 c)
    have c: "c \<in> free_cpus nd ?k" by (rule free(3) [OF 3(2)])
    have k: "?k < nat (numa_number (numa nd))" using assms(7,8) by simp
    obtain maps where pin: "pin_vcpu_to pin (dom_ptr vm) 0 [int_to_unsigned c] (thread_mig nd) =
        Inr (if pin (dom_ptr vm) 0 maps (cpumaps_len (thread_mig nd)) = -1 then -1 else 0,
             (thread_mig nd)\<lparr>cpumaps := maps\<rparr>)"
      using pin_vcpu_returns [of "[int_to_unsigned c]" "thread_mig nd" pin "dom_ptr vm" 0]
        cpus_in_nodes(4) [OF assms(2) k, of c] c by (auto simp: free_cpus_def)
    let ?nd = "(looked_up vm nd)\<lparr>thread_mig := (thread_mig nd)\<lparr>cpumaps := maps\<rparr>\<rparr>"
    have same: "same_machines nd ?nd"
      using same_machines_pin [OF looked_up_same [of nd vm], of maps] by (simp add: looked_up_def)
    show ?thesis
      using refused [of ?nd] moved [of c ?nd] same c 3 pin
      by (cases "pin (dom_ptr vm) 0 maps (cpumaps_len (thread_mig nd)) = -1")
         (auto simp: perform_act_eq [OF assms(6)] free(1))
  qed
qed

text \<open>Decisions about known machines and existing nodes, and what carrying one out keeps.\<close>

definition decisions_ok :: "nuiod \<Rightarrow> decision list \<Rightarrow> bool" where
  "decisions_ok nd acts \<longleftrightarrow> (\<forall>a\<in>set acts. vm_at nd (d_dom_id a) \<noteq> None \<and>
     0 \<le> cpu_node_id a \<and> cpu_node_id a < numa_number (numa nd))"

definition kept :: "nuiod \<Rightarrow> int \<Rightarrow> nuiod \<Rightarrow> bool" where
  "kept nd d nd' \<longleftrightarrow> numa_nodes (numa nd') = numa_nodes (numa nd) \<and>
     numa_number (numa nd') = numa_number (numa nd) \<and> host_cpu_number nd' = host_cpu_number nd \<and>
     (nodes_ok nd \<longrightarrow> nodes_ok nd') \<and> (mapping_ok nd \<longrightarrow> mapping_ok nd') \<and> (exact nd \<longrightarrow> exact nd') \<and>
     dom (vm_at nd') = dom (vm_at nd) \<and> (\<forall>e. e \<noteq> d \<longrightarrow> vm_at nd' e = vm_at nd e)"

lemma kept_same: "same_machines nd nd' \<Longrightarrow> kept nd d nd'"
  using same_machinesD [of nd nd'] by (auto simp: kept_def same_machines_def)

lemma kept_change:
  assumes "same_machines nd nd'" "mapping_ok nd" "vm_at nd d = Some vm" "occupant nd c = None"
  shows "kept nd d (change_cpu_vm_mapping d vm c nd')"
proof -
  note s = same_machinesD [OF assms(1)]
  have at: "vm_at nd' d = Some vm" and ok: "mapping_ok nd'" using s assms by auto
  have "vm_at (change_cpu_vm_mapping d vm c nd') = (vm_at nd)(d \<mapsto> vm\<lparr>real_cpu_no := c\<rparr>)"
    using change_views(1) [OF mapping_ok_maps [OF ok] at] s by simp
  moreover have "mapping_ok (change_cpu_vm_mapping d vm c nd')" by (rule change_mapping_ok [OF ok at])
  moreover have "exact (change_cpu_vm_mapping d vm c nd')" if "exact nd"
    using change_exact [OF _ at, of c] s assms(4) that by auto
  moreover have "host_cpu_number (change_cpu_vm_mapping d vm c nd') = host_cpu_number nd'"
    by (simp add: change_cpu_vm_mapping_def Let_def)
  ultimately show ?thesis using assms(1,3) by (auto simp: kept_def same_machines_def)
qed

lemma kept_decisions: "kept nd d nd' \<Longrightarrow> decisions_ok nd acts \<Longrightarrow> decisions_ok nd' acts"
  unfolding kept_def decisions_ok_def by (metis domIff)

lemma kept_lists: "kept nd d nd' \<Longrightarrow> act_lists srt u nd' = act_lists srt u nd"
  by (simp add: act_lists_def kept_def)

text \<open>
  After a decision the machine is on the decided node, unless the pin was
  refused, the node had no free CPU, or the machine's CPU belongs to no node.
\<close>

definition placed :: "nuiod \<Rightarrow> decision \<Rightarrow> bool" where
  "placed nd a \<longleftrightarrow> (\<exists>vm. vm_at nd (d_dom_id a) = Some vm \<and>
     real_cpu_no vm \<in> set (cpu_ids (numa_nodes (numa nd) ! nat (cpu_node_id a))))"

definition on_some_node :: "nuiod \<Rightarrow> int \<Rightarrow> bool" where
  "on_some_node nd c \<longleftrightarrow> (\<exists>i<nat (numa_number (numa nd)). c \<in> set (cpu_ids (numa_nodes (numa nd) ! i)))"

lemma placed_machine:
  assumes "nodes_ok nd" "placed nd a" "0 \<le> cpu_node_id a" "cpu_node_id a < numa_number (numa nd)"
  obtains vm where "vm_at nd (d_dom_id a) = Some vm"
    "map_find (cpu_node_mapping (numa nd)) (real_cpu_no vm) = Some (cpu_node_id a)"
proof -
  obtain vm where vm: "vm_at nd (d_dom_id a) = Some vm"
    "real_cpu_no vm \<in> set (cpu_ids (numa_nodes (numa nd) ! nat (cpu_node_id a)))"
    using assms(2) by (auto simp: placed_def)
  have "nat (cpu_node_id a) < nat (numa_number (numa nd))" using assms(3,4) by simp
  then have "map_find (cpu_node_mapping (numa nd)) (real_cpu_no vm) = Some (cpu_node_id a)"
    using cpus_in_nodes(3) [OF assms(1) _ vm(2)] assms(3) by simp
  with vm(1) show ?thesis by (rule that)
qed

text \<open>A decision that is carried out already changes nothing at all.\<close>

lemma perform_act_placed:
  assumes "nodes_ok nd" "placed nd a" "0 \<le> cpu_node_id a" "cpu_node_id a < numa_number (numa nd)"
  shows "perform_act pin g cpu_lists a nd = Inr nd"
proof -
  obtain vm where vm: "vm_at nd (d_dom_id a) = Some vm"
    "map_find (cpu_node_mapping (numa nd)) (real_cpu_no vm) = Some (cpu_node_id a)"
    using placed_machine [OF assms] .
  have "looked_up vm nd = nd" using vm(2) by (simp add: looked_up_def map_insert_def)
  then show ?thesis using vm(2) by (simp add: perform_act_eq [OF vm(1)] map_insert_def)
qed

text \<open>
  What a good decision needs and leaves: pins that succeed, machines on CPUs of
  some node, and a free CPU of the decided node for every machine that is not
  there yet; carrying it out uses that CPU and no other.
\<close>

definition pins_succeed :: "pin_fun \<Rightarrow> bool" where
  "pins_succeed pin \<longleftrightarrow> (\<forall>p maps n. pin p 0 maps n \<noteq> -1)"

definition on_nodes :: "nuiod \<Rightarrow> decision list \<Rightarrow> bool" where
  "on_nodes nd acts \<longleftrightarrow>
     (\<forall>a\<in>set acts. \<forall>vm. vm_at nd (d_dom_id a) = Some vm \<longrightarrow> on_some_node nd (real_cpu_no vm))"

definition arrivals :: "nuiod \<Rightarrow> decision list \<Rightarrow> nat \<Rightarrow> nat" where
  "arrivals nd acts k = length (filter (\<lambda>a. cpu_node_id a = int k \<and> \<not> placed nd a) acts)"

definition enough_cpus :: "nuiod \<Rightarrow> decision list \<Rightarrow> bool" where
  "enough_cpus nd acts \<longleftrightarrow> (\<forall>k<nat (numa_number (numa nd)). arrivals nd acts k \<le> card (free_cpus nd k))"

definition uses_cpu :: "nuiod \<Rightarrow> decision \<Rightarrow> nuiod \<Rightarrow> bool" where
  "uses_cpu nd a nd' \<longleftrightarrow> (\<exists>C. finite C \<and> card C \<le> (if placed nd a then 0 else 1) \<and>
     (\<forall>k<nat (numa_number (numa nd)).
        free_cpus nd k - (if int k = cpu_node_id a then C else {}) \<subseteq> free_cpus nd' k))"

lemma finite_free_cpus [simp]: "finite (free_cpus nd k)"
  by (auto simp: free_cpus_def)

lemma enough_cpus_Cons:
  assumes "enough_cpus nd (a # acts)" "0 \<le> cpu_node_id a" "cpu_node_id a < numa_number (numa nd)"
  shows "placed nd a \<or> free_cpus nd (nat (cpu_node_id a)) \<noteq> {}"
proof -
  have k: "nat (cpu_node_id a) < nat (numa_number (numa nd))" using assms(2,3) by simp
  have "arrivals nd (a # acts) (nat (cpu_node_id a)) \<le> card (free_cpus nd (nat (cpu_node_id a)))"
    using assms(1) k unfolding enough_cpus_def by blast
  then show ?thesis using assms(2) by (auto simp: arrivals_def)
qed

lemma arrivals_kept:
  assumes "distinct (map d_dom_id (a # acts))" "kept nd (d_dom_id a) nd'"
  shows "arrivals nd' acts k = arrivals nd acts k"
proof -
  have "placed nd' b = placed nd b" if "b \<in> set acts" for b
  proof -
    have "d_dom_id b \<noteq> d_dom_id a" using assms(1) that by (auto simp: image_iff)
    then show ?thesis using assms(2) by (simp add: placed_def kept_def)
  qed
  then have "filter (\<lambda>b. cpu_node_id b = int k \<and> \<not> placed nd' b) acts =
      filter (\<lambda>b. cpu_node_id b = int k \<and> \<not> placed nd b) acts"
    by (intro filter_cong) simp_all
  then show ?thesis by (simp add: arrivals_def)
qed

lemma enough_cpus_left:
  assumes "enough_cpus nd (a # acts)" "uses_cpu nd a nd'" "distinct (map d_dom_id (a # acts))"
    "kept nd (d_dom_id a) nd'"
  shows "enough_cpus nd' acts"
  unfolding enough_cpus_def
proof (intro allI impI)
  obtain C where C: "finite C" "card C \<le> (if placed nd a then 0 else 1)"
    "\<forall>k<nat (numa_number (numa nd)).
      free_cpus nd k - (if int k = cpu_node_id a then C else {}) \<subseteq> free_cpus nd' k"
    using assms(2) by (auto simp: uses_cpu_def)
  fix k assume "k < nat (numa_number (numa nd'))"
  then have k: "k < nat (numa_number (numa nd))" using assms(4) by (simp add: kept_def)
  let ?S = "if int k = cpu_node_id a then C else {}"
  have "card (free_cpus nd k - ?S) \<le> card (free_cpus nd' k)" using C(3) k by (intro card_mono) auto
  moreover have "card (free_cpus nd k) \<le> card (free_cpus nd k - ?S) + card ?S"
    using diff_card_le_card_Diff [of ?S "free_cpus nd k"] C(1) by force
  moreover have "arrivals nd (a # acts) k \<le> card (free_cpus nd k)"
    using assms(1) k by (simp add: enough_cpus_def)
  moreover have "arrivals nd acts k + card ?S \<le> arrivals nd (a # acts) k"
    using C(2) by (auto simp: arrivals_def)
  ultimately show "arrivals nd' acts k \<le> card (free_cpus nd' k)"
    unfolding arrivals_kept [OF assms(3,4)] by linarith
qed

lemma on_nodes_left:
  assumes "on_nodes nd (a # acts)" "distinct (map d_dom_id (a # acts))" "kept nd (d_dom_id a) nd'"
  shows "on_nodes nd' acts"
  unfolding on_nodes_def
proof (intro ballI allI impI)
  fix b vm assume b: "b \<in> set acts" "vm_at nd' (d_dom_id b) = Some vm"
  then have "d_dom_id b \<noteq> d_dom_id a" using assms(2) by (auto simp: image_iff)
  then have "vm_at nd (d_dom_id b) = Some vm" using assms(3) b(2) by (simp add: kept_def)
  then show "on_some_node nd' (real_cpu_no vm)"
    using assms(1,3) b(1) by (auto simp: on_nodes_def on_some_node_def kept_def)
qed

lemma uses_cpu_same:
  assumes "same_machines nd nd'"
  shows "uses_cpu nd a nd'"
proof -
  have "free_cpus nd' j = free_cpus nd j" for j
    using same_machinesD [OF assms] assms by (simp add: free_cpus_def same_machines_def)
  then show ?thesis by (auto simp: uses_cpu_def intro!: exI [of _ "{}"])
qed

lemma uses_cpu_change:
  assumes "same_machines nd nd'" "mapping_ok nd" "nodes_ok nd" "vm_at nd d = Some vm"
    "c \<in> free_cpus nd (nat (cpu_node_id a))" "0 \<le> cpu_node_id a" "cpu_node_id a < numa_number (numa nd)"
    "\<not> placed nd a"
  shows "uses_cpu nd a (change_cpu_vm_mapping d vm c nd')"
  unfolding uses_cpu_def
proof (intro exI [of _ "{c}"] conjI allI impI subsetI)
  note s = same_machinesD [OF assms(1)]
  have at: "vm_at nd' d = Some vm" and ok: "mapping_ok nd'" using s assms by auto
  note v = change_views [OF mapping_ok_maps [OF ok] at, of c]
  have k: "nat (cpu_node_id a) < nat (numa_number (numa nd))" using assms(6,7) by simp
  fix j e assume j: "j < nat (numa_number (numa nd))"
    and e: "e \<in> free_cpus nd j - (if int j = cpu_node_id a then {c} else {})"
  have "e \<noteq> c"
    using e cpus_in_nodes(3) [OF assms(3) j, of c] cpus_in_nodes(3) [OF assms(3) k, of c] assms(5,6)
    by (auto simp: free_cpus_def split: if_splits)
  then show "e \<in> free_cpus (change_cpu_vm_mapping d vm c nd') j"
    using e s assms(1) by (auto simp: free_cpus_def v(2) same_machines_def)
qed (use assms(8) in simp_all)

lemma placed_same:
  assumes "same_machines nd nd'" "nodes_ok nd" "vm_at nd (d_dom_id a) = Some vm" "on_some_node nd (real_cpu_no vm)"
    "map_find (cpu_node_mapping (numa nd)) (real_cpu_no vm) \<in> {None, Some (cpu_node_id a)}"
  shows "placed nd' a"
proof -
  obtain i where i: "i < nat (numa_number (numa nd))" "real_cpu_no vm \<in> set (cpu_ids (numa_nodes (numa nd) ! i))"
    using assms(4) by (auto simp: on_some_node_def)
  then have "i = nat (cpu_node_id a)" using assms(5) cpus_in_nodes(3) [OF assms(2) i] by auto
  then show ?thesis
    using i assms(3) same_machinesD [OF assms(1)] assms(1) by (auto simp: placed_def same_machines_def)
qed

lemma placed_change:
  assumes "same_machines nd nd'" "mapping_ok nd" "vm_at nd (d_dom_id a) = Some vm"
    "c \<in> free_cpus nd (nat (cpu_node_id a))"
  shows "placed (change_cpu_vm_mapping (d_dom_id a) vm c nd') a"
proof -
  note s = same_machinesD [OF assms(1)]
  have at: "vm_at nd' (d_dom_id a) = Some vm" and ok: "mapping_ok nd'" using s assms by auto
  show ?thesis
    using assms(1,4) by (simp add: placed_def change_views(1) [OF mapping_ok_maps [OF ok] at]
        same_machines_def free_cpus_def)
qed

lemma perform_act_result:
  assumes "mapping_ok nd" "nodes_ok nd" "std_sort compare_pairs_second srt" "NaN \<notin> set u"
    "int (length u) = host_cpu_number nd + 1" "decisions_ok nd (act # acts)"
  obtains nd' where "perform_act pin g (act_lists srt u nd) act nd = Inr nd'" "kept nd (d_dom_id act) nd'"
    "(placed nd act \<or> free_cpus nd (nat (cpu_node_id act)) \<noteq> {}) \<and> pins_succeed pin \<and> on_nodes nd (act # acts) \<longrightarrow>
       placed nd' act \<and> uses_cpu nd act nd'"
proof -
  obtain vm where vm: "vm_at nd (d_dom_id act) = Some vm" "0 \<le> cpu_node_id act"
    "cpu_node_id act < numa_number (numa nd)"
    using assms(6) by (auto simp: decisions_ok_def)
  let ?k = "nat (cpu_node_id act)"
  have refl: "same_machines nd nd" by (simp add: same_machines_def)
  show ?thesis
  proof (cases "placed nd act")
    case True
    show ?thesis
      using that [OF perform_act_placed [OF assms(2) True vm(2,3)] kept_same [OF refl]] True uses_cpu_same [OF refl] by blast
  next
    case notyet: False
    show ?thesis
    using mapping_ok_maps [OF assms(1)] assms(2-5) vm
  proof (cases rule: perform_act_cases [of nd srt u act vm pin g])
    case (stay nd')
    show ?thesis
    proof (rule that [OF stay(1) kept_same [OF stay(2)]], intro impI, elim conjE)
      assume fr: "placed nd act \<or> free_cpus nd ?k \<noteq> {}" and on: "on_nodes nd (act # acts)"
      then have "on_some_node nd (real_cpu_no vm)" using vm(1) by (simp add: on_nodes_def)
      then show "placed nd' act \<and> uses_cpu nd act nd'"
        using placed_same [OF stay(2) assms(2) vm(1)] stay(3) fr notyet uses_cpu_same [OF stay(2)] by blast
    qed
  next
    case (refused nd')
    then show ?thesis using that [OF refused(1) kept_same [OF refused(2)]] by (auto simp: pins_succeed_def)
  next
    case (moved c nd')
    have "occupant nd c = None" using moved(3) by (simp add: free_cpus_def)
    then have "kept nd (d_dom_id act) (change_cpu_vm_mapping (d_dom_id act) vm c nd')"
      by (rule kept_change [OF moved(2) assms(1) vm(1)])
    then show ?thesis
      using that [OF moved(1)] placed_change [OF moved(2) assms(1) vm(1) moved(3)]
        uses_cpu_change [OF moved(2) assms(1,2) vm(1) moved(3) vm(2,3) notyet] by simp
  qed
  qed
qed

text \<open>All decisions: what is kept, whatever the host answers.\<close>

lemma kept_trans_frame:
  "kept nd d nd' \<Longrightarrow> int (length u) = host_cpu_number nd + 1 \<Longrightarrow> int (length u) = host_cpu_number nd' + 1"
  by (simp add: kept_def)

definition performed :: "pin_fun \<Rightarrow> nuiod \<Rightarrow> decision list \<Rightarrow> nuiod \<Rightarrow> bool" where
  "performed pin nd acts nd' \<longleftrightarrow>
     mapping_ok nd' \<and> nodes_ok nd' \<and> (exact nd \<longrightarrow> exact nd') \<and>
     numa_nodes (numa nd') = numa_nodes (numa nd) \<and> numa_number (numa nd') = numa_number (numa nd) \<and>
     dom (vm_at nd') = dom (vm_at nd) \<and> (\<forall>e. e \<notin> set (map d_dom_id acts) \<longrightarrow> vm_at nd' e = vm_at nd e) \<and>
     (distinct (map d_dom_id acts) \<and> pins_succeed pin \<and> on_nodes nd acts \<and> enough_cpus nd acts \<longrightarrow>
       (\<forall>a\<in>set acts. placed nd' a))"

lemma performed_Cons:
  assumes k: "kept nd (d_dom_id a) nd1" and p: "performed pin nd1 acts nd'"
    and a: "0 \<le> cpu_node_id a" "cpu_node_id a < numa_number (numa nd)"
    and good: "(placed nd a \<or> free_cpus nd (nat (cpu_node_id a)) \<noteq> {}) \<and> pins_succeed pin \<and> on_nodes nd (a # acts) \<longrightarrow>
      placed nd1 a \<and> uses_cpu nd a nd1"
  shows "performed pin nd (a # acts) nd'"
proof -
  have "\<forall>b\<in>set (a # acts). placed nd' b"
    if d: "distinct (map d_dom_id (a # acts))" and pin: "pins_succeed pin"
      and on: "on_nodes nd (a # acts)" and cap: "enough_cpus nd (a # acts)"
  proof -
    have c: "placed nd1 a" "uses_cpu nd a nd1"
      using good enough_cpus_Cons [OF cap a] pin on by simp_all
    have "enough_cpus nd1 acts" by (rule enough_cpus_left [OF cap c(2) d k])
    then have "\<forall>b\<in>set acts. placed nd' b" using p d pin on_nodes_left [OF on d k] by (simp add: performed_def)
    moreover have "placed nd' a" using c(1) p d by (simp add: placed_def performed_def)
    ultimately show ?thesis by simp
  qed
  then show ?thesis using p k by (auto simp: performed_def kept_def)
qed

lemma perform_fold:
  assumes "mapping_ok nd" "nodes_ok nd" "std_sort compare_pairs_second srt" "NaN \<notin> set u"
    "int (length u) = host_cpu_number nd + 1" "decisions_ok nd acts"
  shows "\<exists>nd'. fold_res (perform_act pin g (act_lists srt u nd)) acts nd = Inr nd' \<and> performed pin nd acts nd'"
  using assms(1,2,5,6)
proof (induction acts arbitrary: nd)
  case Nil
  then show ?case by (simp add: performed_def)
next
  case (Cons a acts)
  have a: "0 \<le> cpu_node_id a" "cpu_node_id a < numa_number (numa nd)"
    using Cons.prems(4) by (auto simp: decisions_ok_def)
  obtain nd1 where nd1: "perform_act pin g (act_lists srt u nd) a nd = Inr nd1" "kept nd (d_dom_id a) nd1"
    and good: "(placed nd a \<or> free_cpus nd (nat (cpu_node_id a)) \<noteq> {}) \<and> pins_succeed pin \<and> on_nodes nd (a # acts) \<longrightarrow>
      placed nd1 a \<and> uses_cpu nd a nd1"
    using perform_act_result [OF Cons.prems(1,2) assms(3,4) Cons.prems(3,4), of pin g] .
  have ok1: "mapping_ok nd1" "nodes_ok nd1" "decisions_ok nd1 acts"
    using nd1(2) Cons.prems kept_decisions [OF nd1(2), of acts] by (auto simp: kept_def decisions_ok_def)
  obtain nd' where nd': "fold_res (perform_act pin g (act_lists srt u nd1)) acts nd1 = Inr nd'"
    "performed pin nd1 acts nd'"
    using Cons.IH [OF ok1(1,2) kept_trans_frame [OF nd1(2) Cons.prems(3)] ok1(3)] by blast
  have "fold_res (perform_act pin g (act_lists srt u nd)) (a # acts) nd = Inr nd'"
    using nd1 nd'(1) kept_lists [OF nd1(2)] by simp
  then show ?case using performed_Cons [OF nd1(2) nd'(2) a good] by blast
qed

lemma perform_eq:
  assumes "nodes_ok nd"
  shows "perform srt pin g acts u nd = fold_res (perform_act pin g (act_lists srt u nd)) acts nd"
  using node_sorted_cpu_list_eq [of "numa nd" srt u] assms
  by (simp add: perform_def act_lists_def nodes_ok_def)

lemma perform_settled:
  assumes "nodes_ok nd" "decisions_ok nd acts" "\<forall>a\<in>set acts. placed nd a"
  shows "perform srt pin g acts u nd = Inr nd"
proof -
  have "fold_res (perform_act pin g cpu_lists) acts nd = Inr nd" for cpu_lists
    using assms(2,3) by (induction acts) (auto simp: decisions_ok_def perform_act_placed [OF assms(1)])
  then show ?thesis by (simp add: perform_eq [OF assms(1)])
qed

text \<open>Decisions that can be carried out are, and then they are settled.\<close>

lemma perform_places:
  assumes "mapping_ok nd" "nodes_ok nd" "std_sort compare_pairs_second srt" "NaN \<notin> set u"
    "int (length u) = host_cpu_number nd + 1" "decisions_ok nd acts" "distinct (map d_dom_id acts)"
    "pins_succeed pin" "on_nodes nd acts" "enough_cpus nd acts"
  obtains nd' where "perform srt pin g acts u nd = Inr nd'" "performed pin nd acts nd'" "\<forall>a\<in>set acts. placed nd' a"
    "\<And>srt' pin' g' u'. perform srt' pin' g' acts u' nd' = Inr nd'"
proof -
  obtain nd' where nd': "perform srt pin g acts u nd = Inr nd'" "performed pin nd acts nd'"
    using perform_fold [OF assms(1-6), of pin g] perform_eq [OF assms(2), of srt pin g acts u] by auto
  then have p: "\<forall>a\<in>set acts. placed nd' a" "nodes_ok nd'" using assms(7-10) by (simp_all add: performed_def)
  have "decisions_ok nd' acts" using assms(6) nd'(2) unfolding decisions_ok_def performed_def by (metis domIff)
  then show ?thesis using that [OF nd' p(1)] perform_settled [OF p(2) _ p(1)] by blast
qed

subsection \<open>An example host\<close>

text \<open>Two nodes with two CPUs each and two machines, both on node 0 with their CPUs known.\<close>

definition ex_cpu_vm :: "int \<Rightarrow> int \<Rightarrow> vm_info" where
  "ex_cpu_vm k cpu = zeroed_vm\<lparr>dom_id := k, dom_ptr := Some k, real_cpu_no := cpu\<rparr>"

definition ex_cpu_node :: "int \<Rightarrow> int list \<Rightarrow> numa_node" where
  "ex_cpu_node i cpus = Numa_node_init\<lparr>node_id := i, cpu_ids := cpus\<rparr>"

definition ex_daemon :: "int \<Rightarrow> int \<Rightarrow> int cpp_map \<Rightarrow> nuiod" where
  "ex_daemon c1 c2 m = (Nuiod_new zeroed_nuiod (\<lambda>_. 0) (\<lambda>_. 0) 2 4 [])\<lparr>
     numa := \<lparr>numa_number = 2, numa_nodes = [ex_cpu_node 0 [0, 1], ex_cpu_node 1 [2, 3]],
              cpu_node_mapping = [(0, 0), (1, 0), (2, 1), (3, 1)], numa_latency = []\<rparr>,
     vm_infos_map := [(1, ex_cpu_vm 1 c1), (2, ex_cpu_vm 2 c2)],
     cpu_vm_mapping := m\<rparr>"

lemma ex_daemon_views:
  "vm_at (ex_daemon c1 c2 m) = [1 \<mapsto> ex_cpu_vm 1 c1, 2 \<mapsto> ex_cpu_vm 2 c2]"
  "occupant (ex_daemon c1 c2 m) = map_find m"
  by (auto simp: vm_at_def occupant_def ex_daemon_def map_find_def fun_eq_iff)

lemma ex_cpu_vm_simps [simp]:
  "dom_id (ex_cpu_vm k c) = k" "dom_ptr (ex_cpu_vm k c) = Some k" "real_cpu_no (ex_cpu_vm k c) = c"
  by (simp_all add: ex_cpu_vm_def)

lemma ex_daemon_nodes: "nodes_ok (ex_daemon c1 c2 m)"
  by (simp add: nodes_ok_def ex_daemon_def Nuiod_new_def Thread_migrate_new_def Let_def ex_cpu_node_def
      map_ok_def map_find_def All_less_Suc numeral_2_eq_2)

lemma ex_daemon_maps: "map_ok m \<Longrightarrow> maps_ok (ex_daemon c1 c2 m)"
  unfolding maps_ok_def ex_daemon_views by (auto simp: ex_daemon_def map_ok_def split: if_splits)

lemma ex_daemon_exact: "c1 < c2 \<Longrightarrow> exact (ex_daemon c1 c2 [(c1, 1), (c2, 2)])"
  using ex_daemon_maps [of "[(c1, 1), (c2, 2)]" c1 c2]
  by (auto simp: exact_def mapping_ok_def ex_daemon_views map_find_def map_ok_def split: if_splits)

subsection \<open>Properties\<close>

text \<open>C11. When no two machines share a CPU, before or after, \<open>refresh_cpu_mapping\<close> makes the records
  and the mapping agree with the host: every machine has the CPU libvirt reports (its old one when
  libvirt fails) and is the one found on it. Under the same condition a second refresh changes nothing.\<close>

theorem refresh_tracks_the_host:
  assumes "exact nd" "distinct_cpus vcpu nd"
  shows "exact (refresh_cpu_mapping vcpu nd) \<and>
    (\<forall>d vm. vm_at nd d = Some vm \<longrightarrow>
      vm_at (refresh_cpu_mapping vcpu nd) d = Some (vm\<lparr>real_cpu_no := new_cpu_of vcpu vm\<rparr>) \<and>
      (new_cpu_of vcpu vm \<noteq> -1 \<longrightarrow> occupant (refresh_cpu_mapping vcpu nd) (new_cpu_of vcpu vm) = Some d)) \<and>
    refresh_cpu_mapping vcpu (refresh_cpu_mapping vcpu nd) = refresh_cpu_mapping vcpu nd"
proof -
  let ?nd = "refresh_cpu_mapping vcpu nd"
  have r: "refreshed vcpu nd (dom (vm_at nd)) ?nd" by (rule refresh_result [OF assms])
  then have at: "vm_at ?nd d = map_option (\<lambda>vm. vm\<lparr>real_cpu_no := new_cpu_of vcpu vm\<rparr>) (vm_at nd d)" for d
    by (cases "vm_at nd d") (auto simp: refreshed_def dom_def)
  have "new_cpu_of vcpu (vm\<lparr>real_cpu_no := new_cpu_of vcpu vm\<rparr>) = new_cpu_of vcpu vm" for vm
    by (simp add: new_cpu_of_def Let_def)
  then have "refresh_cpu_mapping vcpu ?nd = ?nd" using at by (intro refresh_idle) auto
  moreover have occ: "occupant ?nd (new_cpu_of vcpu vm) = Some d"
    if "vm_at nd d = Some vm" "new_cpu_of vcpu vm \<noteq> -1" for d vm
    using r that unfolding refreshed_def by blast
  moreover have "exact ?nd" by (rule refresh_exact [OF assms])
  ultimately show ?thesis using at by (intro conjI allI impI) simp_all
qed

theorem refresh_tracks_the_host_witness:
  "exact (refresh_cpu_mapping (\<lambda>p. (1, if p = Some 1 then 1 else 0)) (ex_daemon 0 1 [(0, 1), (1, 2)]))"
proof -
  have "distinct_cpus (\<lambda>p. (1, if p = Some 1 then 1 else 0)) (ex_daemon 0 1 [(0, 1), (1, 2)])"
    by (auto simp: distinct_cpus_def ex_daemon_views new_cpu_of_def get_vm_real_cpu_def split: if_splits)
  from refresh_tracks_the_host [OF ex_daemon_exact this] show ?thesis by simp
qed

text \<open>C12. Given one usage for the total and one for each CPU, none of them NaN, \<open>perform\<close> does not fault on
  decisions about known machines and existing nodes, whatever libvirt answers to the pins. It keeps the invariant of the mapping, and an exact mapping exact; it leaves
  the machines no decision names untouched and adds or drops none.\<close>

theorem perform_keeps_the_mapping:
  assumes "mapping_ok nd" "nodes_ok nd" "std_sort compare_pairs_second srt" "NaN \<notin> set u"
    "int (length u) = host_cpu_number nd + 1" "decisions_ok nd acts"
  shows "\<exists>nd'. perform srt pin g acts u nd = Inr nd' \<and> mapping_ok nd' \<and> (exact nd \<longrightarrow> exact nd') \<and>
    dom (vm_at nd') = dom (vm_at nd) \<and>
    (\<forall>e. e \<notin> set (map d_dom_id acts) \<longrightarrow> vm_at nd' e = vm_at nd e)"
  using perform_fold [OF assms, of pin g] perform_eq [OF assms(2), of srt pin g acts u]
  by (auto simp: performed_def)

theorem perform_keeps_the_mapping_witness:
  "\<exists>nd'. perform (insertion_sort compare_pairs_second) (\<lambda>_ _ _ _. -1) zeroed_vm
      [\<lparr>d_dom_id = 2, cpu_node_id = 1, mem_node_id = 1\<rparr>] (replicate 5 (Fin 0)) (ex_daemon 0 1 [(0, 1), (1, 2)]) =
      Inr nd' \<and> mapping_ok nd' \<and> exact nd' \<and> vm_at nd' 1 = Some (ex_cpu_vm 1 0)"
proof -
  let ?nd = "ex_daemon 0 1 [(0, 1), (1, 2)]"
  have "exact ?nd" by (rule ex_daemon_exact) simp
  moreover have "int (length (replicate 5 (Fin 0))) = host_cpu_number ?nd + 1"
    by (simp add: ex_daemon_def Nuiod_new_def)
  moreover have "decisions_ok ?nd [\<lparr>d_dom_id = 2, cpu_node_id = 1, mem_node_id = 1\<rparr>]"
    by (simp add: decisions_ok_def ex_daemon_views) (simp add: ex_daemon_def)
  ultimately show ?thesis
    using perform_keeps_the_mapping [OF exact_mapping_ok ex_daemon_nodes insertion.std_sort_axioms, of 0 1 "[(0, 1), (1, 2)]"
        "replicate 5 (Fin 0)" "[\<lparr>d_dom_id = 2, cpu_node_id = 1, mem_node_id = 1\<rparr>]" "\<lambda>_ _ _ _. -1" zeroed_vm]
    by (auto simp: ex_daemon_views)
qed

text \<open>C13. When every pin succeeds, every decided machine is on a CPU of some node, and every node has at
  least as many CPUs without a machine as machines have to move to it, then after \<open>perform\<close> every
  decided machine runs on a CPU of the node decided for it. Performing the same decisions again then
  changes nothing, whatever the usages and the answers of the host are by then.\<close>

theorem perform_places_decided_machines:
  assumes "mapping_ok nd" "nodes_ok nd" "std_sort compare_pairs_second srt" "NaN \<notin> set u"
    "int (length u) = host_cpu_number nd + 1" "decisions_ok nd acts" "distinct (map d_dom_id acts)"
    "\<forall>p maps n. pin p 0 maps n \<noteq> -1"
    "\<forall>a\<in>set acts. \<forall>vm. vm_at nd (d_dom_id a) = Some vm \<longrightarrow> on_some_node nd (real_cpu_no vm)"
    "\<forall>k<nat (numa_number (numa nd)).
       length (filter (\<lambda>a. cpu_node_id a = int k \<and> \<not> placed nd a) acts) \<le> card (free_cpus nd k)"
  shows "\<exists>nd'. perform srt pin g acts u nd = Inr nd' \<and> (\<forall>a\<in>set acts. placed nd' a) \<and>
    perform srt' pin' g' acts u' nd' = Inr nd'"
proof -
  have "pins_succeed pin" "on_nodes nd acts" "enough_cpus nd acts"
    using assms(8-10) by (simp_all add: pins_succeed_def on_nodes_def enough_cpus_def arrivals_def)
  from perform_places [OF assms(1-7) this, of g] show ?thesis by metis
qed

theorem perform_places_decided_machines_witness:
  "\<exists>nd'. perform (insertion_sort compare_pairs_second) (\<lambda>_ _ _ _. 0) zeroed_vm
      [\<lparr>d_dom_id = 2, cpu_node_id = 1, mem_node_id = 1\<rparr>] (replicate 5 (Fin 0)) (ex_daemon 0 1 [(0, 1), (1, 2)]) =
      Inr nd' \<and> placed nd' \<lparr>d_dom_id = 2, cpu_node_id = 1, mem_node_id = 1\<rparr> \<and>
    perform (insertion_sort compare_pairs_second) (\<lambda>_ _ _ _. -1) zeroed_vm
      [\<lparr>d_dom_id = 2, cpu_node_id = 1, mem_node_id = 1\<rparr>] [] nd' = Inr nd'"
proof -
  let ?nd = "ex_daemon 0 1 [(0, 1), (1, 2)]" and ?act = "\<lparr>d_dom_id = 2, cpu_node_id = 1, mem_node_id = 1\<rparr>"
  have n: "numa_number (numa ?nd) = 2" by (simp add: ex_daemon_def)
  have free: "free_cpus ?nd 1 = {2, 3}"
    by (auto simp: free_cpus_def ex_daemon_views) (auto simp: ex_daemon_def ex_cpu_node_def map_find_def)
  have "\<exists>nd'. perform (insertion_sort compare_pairs_second) (\<lambda>_ _ _ _. 0) zeroed_vm [?act] (replicate 5 (Fin 0)) ?nd =
      Inr nd' \<and> (\<forall>a\<in>set [?act]. placed nd' a) \<and>
      perform (insertion_sort compare_pairs_second) (\<lambda>_ _ _ _. -1) zeroed_vm [?act] [] nd' = Inr nd'"
  proof (rule perform_places_decided_machines [OF exact_mapping_ok ex_daemon_nodes insertion.std_sort_axioms])
    show "exact ?nd" by (rule ex_daemon_exact) simp
    show "int (length (replicate 5 (Fin 0))) = host_cpu_number ?nd + 1" by (simp add: ex_daemon_def Nuiod_new_def)
    show "decisions_ok ?nd [?act]" by (simp add: decisions_ok_def ex_daemon_views n)
    show "\<forall>k<nat (numa_number (numa ?nd)). length (filter (\<lambda>a. cpu_node_id a = int k \<and> \<not> placed ?nd a) [?act]) \<le> card (free_cpus ?nd k)"
      using free by (simp add: n All_less_Suc numeral_2_eq_2)
    show "\<forall>a\<in>set [?act]. \<forall>vm. vm_at ?nd (d_dom_id a) = Some vm \<longrightarrow> on_some_node ?nd (real_cpu_no vm)"
      by (auto simp: ex_daemon_views on_some_node_def n intro!: exI [of _ 0]) (simp add: ex_daemon_def ex_cpu_node_def)
  qed simp_all
  then show ?thesis by simp
qed

text \<open>C35. When two machines share a CPU, the mapping holds one of them. If that one moves away, the
  refresh clears the entry, so the CPU counts as free although the other machine still runs there.\<close>

theorem shared_cpu_becomes_free:
  assumes "mapping_ok nd" "vm_at nd a = Some va" "vm_at nd b = Some vb" "a \<noteq> b"
    "real_cpu_no va = c" "real_cpu_no vb = c" "occupant nd c = Some a" "c' \<noteq> c" "c' \<noteq> -1"
    "\<forall>d v. vm_at nd d = Some v \<longrightarrow> new_cpu_of vcpu v = (if d = a then c' else real_cpu_no v)"
  shows "occupant (refresh_cpu_mapping vcpu nd) c = None \<and>
    vm_at (refresh_cpu_mapping vcpu nd) b = Some vb \<and> real_cpu_no vb = c"
proof -
  note m = mapping_ok_maps [OF assms(1)]
  have noop: "refresh_vm vcpu k nd' = nd'" if "vm_at nd' k = vm_at nd k" "k \<noteq> a" for k nd'
    using that assms(10) by (intro refresh_vm_idle) auto
  have fold_noop: "fold (refresh_vm vcpu) ks nd' = nd'"
    if "\<forall>k. k \<noteq> a \<longrightarrow> vm_at nd' k = vm_at nd k" "a \<notin> set ks" for ks nd'
    using that(2) by (induction ks) (use noop that(1) in auto)
  obtain xs ys where ks: "map_keys (vm_infos_map nd) = xs @ a # ys" "a \<notin> set xs" "a \<notin> set ys"
    using keys_dom [OF m] assms(2) split_list [of a "map_keys (vm_infos_map nd)"] by (auto simp: dom_def)
  note v = refresh_vm_view [OF m assms(2), of vcpu]
  have "new_cpu_of vcpu va = c'" using assms(2,10) by simp
  moreover have "refresh_cpu_mapping vcpu nd = refresh_vm vcpu a nd"
    using fold_noop [of nd xs] fold_noop [of "refresh_vm vcpu a nd" ys] v(1) ks
    by (simp add: refresh_cpu_mapping_def)
  ultimately show ?thesis using v(1,4) assms by auto
qed

theorem shared_cpu_becomes_free_witness:
  "occupant (refresh_cpu_mapping (\<lambda>p. (1, if p = Some 1 then 3 else 0)) (ex_daemon 0 0 [(0, 1)])) 0 = None \<and>
    vm_at (refresh_cpu_mapping (\<lambda>p. (1, if p = Some 1 then 3 else 0)) (ex_daemon 0 0 [(0, 1)])) 2 = Some (ex_cpu_vm 2 0) \<and>
    real_cpu_no (ex_cpu_vm 2 0) = 0"
  by (rule shared_cpu_becomes_free [where a = 1 and va = "ex_cpu_vm 1 0" and c' = 3])
     (use ex_daemon_maps [of "[(0, 1)]" 0 0] in \<open>auto simp: mapping_ok_def ex_daemon_views map_find_def
        map_ok_def new_cpu_of_def get_vm_real_cpu_def split: if_splits\<close>)

end
