(* ===== verification/SimpleStrategy.thy ===== *)
theory SimpleStrategy
  imports VMInfo
begin

section \<open>The scheduling strategy\<close>

text \<open>
  \<open>src/SimpleStrategy.cpp\<close>: the classification of the virtual machines and the
  load balancing between the NUMA nodes, operation by operation. Three things
  are arguments because the sources do not fix them: the sorting function (the
  order of equivalent elements under \<open>std::sort\<close> is unspecified), and the value
  \<open>indet\<close> that the uninitialised local \<open>vm_state\<close> holds when it is read for the
  machine under a given key. A result \<open>None\<close> of the balancing loop means that
  it does not return; \<open>Some (Inl e)\<close> that it stops at a fault.
\<close>

datatype VM_State = IO_STAT | OTHER_STAT | IDLE_STAT

type_synonym vm_states = "int \<rightharpoonup> VM_State"
type_synonym count_sort = "(int \<times> int) list \<Rightarrow> (int \<times> int) list"

definition SMOOTH_FACTOR :: dbl where "SMOOTH_FACTOR = dbl_lit 4 10"

definition SMOOTH_DEC_FACTOR :: dbl where "SMOOTH_DEC_FACTOR = dbl_lit 85 100"

text \<open>The only data member of \<open>SimpleStrategy\<close>, and its constructor.\<close>

record simple_strategy =
  io_threshold :: int

definition SimpleStrategy_new :: simple_strategy where
  "SimpleStrategy_new = \<lparr>io_threshold = 100000\<rparr>"

subsection \<open>Classification\<close>

text \<open>The estimator of \<open>analyzeIOState\<close>: \<open>old * factor + new * (1.0 - factor)\<close>.\<close>

definition smoothed_pps :: "vm_info \<Rightarrow> dbl" where
  "smoothed_pps vm =
     (let new_pps_val = packets_per_sec vm;
          old_pps_val = packets_per_sec_history vm;
          factor = (if new_pps_val < old_pps_val then SMOOTH_DEC_FACTOR else SMOOTH_FACTOR)
      in old_pps_val * factor + new_pps_val * (dbl_lit 1 1 - factor))"

definition analyzeIOState :: "simple_strategy \<Rightarrow> vm_info \<Rightarrow> vm_states \<Rightarrow> vm_states" where
  "analyzeIOState ss vm vmStateMap =
     (let new_pps_val = smoothed_pps vm
      in if dbl_of_int (io_threshold ss) < new_pps_val then vmStateMap(dom_id vm \<mapsto> IO_STAT)
         else if new_pps_val < dbl_of_int (io_threshold ss) then vmStateMap(dom_id vm \<mapsto> OTHER_STAT)
         else vmStateMap)"

definition smoothed_cpu_usage :: "vm_info \<Rightarrow> dbl \<Rightarrow> dbl" where
  "smoothed_cpu_usage vm new_cpu_usage =
     (let factor = (if new_cpu_usage < real_cpu_usage vm then SMOOTH_DEC_FACTOR else SMOOTH_FACTOR)
      in factor * real_cpu_usage vm + (dbl_lit 1 1 - factor) * new_cpu_usage)"

text \<open>
  One turn of the first loop of \<open>analyze\<close>, for the machine \<open>vm\<close> under key \<open>k\<close>.
  The state carries \<open>vmStateMap\<close>, \<open>vm_on_node\<close> and \<open>flag\<close>. The local
  \<open>vm_state\<close> is written only when the machine is idle and read in any case.
\<close>

type_synonym class_state = "vm_states \<times> int list list \<times> bool"

definition classify_vm ::
  "simple_strategy \<Rightarrow> (int \<Rightarrow> VM_State) \<Rightarrow> dbl list \<Rightarrow> int \<times> vm_info \<Rightarrow> class_state \<Rightarrow> class_state res" where
  "classify_vm ss indet cpu_usage kv s =
     (let (k, vm) = kv; (vmStateMap, vm_on_node, flag) = s;
          states = analyzeIOState ss vm vmStateMap
      in bind_res (vec_at cpu_usage (real_cpu_no vm + 1)) (\<lambda>new_cpu_usage.
         let idle = (smoothed_cpu_usage vm new_cpu_usage \<le> dbl_of_int 8);
             states' = (if idle then states(dom_id vm \<mapsto> IDLE_STAT) else states);
             vm_state = (if idle then IDLE_STAT else indet k)
         in if vm_state = IDLE_STAT then Inr (states', vm_on_node, flag)
            else bind_res (vec_at vm_on_node (mem_main_node_id vm)) (\<lambda>vm_id_ls.
                 Inr (states',
                      vm_on_node[nat (mem_main_node_id vm) := vm_id_ls @ [dom_id vm]],
                      True))))"

definition classify ::
  "simple_strategy \<Rightarrow> (int \<Rightarrow> VM_State) \<Rightarrow> dbl list \<Rightarrow> int \<Rightarrow> vm_info cpp_map \<Rightarrow> class_state res" where
  "classify ss indet cpu_usage numa_number vm_infos =
     fold_res (classify_vm ss indet cpu_usage) vm_infos
       (Map.empty, replicate (nat numa_number) [], False)"

subsection \<open>The balancing loop\<close>

text \<open>The locals of the loop, and what it reads.\<close>

record balance =
  vm_on_node :: "int list list"
  node_vm_vec :: "(int \<times> int) list"
  max_vm_idx :: int
  high_load_node :: int
  max_vm_cnt :: u32
  min_vm_cnt :: u32
  min_load_node :: int

record balance_ctx =
  cx_sort :: count_sort
  cx_vms :: "vm_info cpp_map"
  cx_nodes :: "numa_node list"
  cx_number :: int
  cx_nic :: int
  cx_states :: vm_states

text \<open>\<open>vmStateMap[id]\<close> on a missing key inserts the value-initialised enumerator.\<close>

definition vm_state_of :: "vm_states \<Rightarrow> int \<Rightarrow> VM_State" where
  "vm_state_of m i = (case m i of None \<Rightarrow> IO_STAT | Some s \<Rightarrow> s)"

definition map_at :: "'v cpp_map \<Rightarrow> int \<Rightarrow> 'v res" where
  "map_at m k = (case map_find m k of None \<Rightarrow> Inl Missing_Key | Some v \<Rightarrow> Inr v)"

definition count_nodes :: "balance_ctx \<Rightarrow> int list list \<Rightarrow> (int \<times> int) list" where
  "count_nodes cx von =
     map (\<lambda>i. (int i, size_to_int (length (von ! i)))) [0..<nat (cx_number cx)]"

text \<open>
  Lines 128 to 137 and 246 to 254: count, sort, and read off the node with the
  most machines (the last) and the one with the fewest (the first).
\<close>

definition recount :: "balance_ctx \<Rightarrow> int list list \<Rightarrow> balance res" where
  "recount cx von =
     (let vec = cx_sort cx (count_nodes cx von);
          idx = size_to_int (length vec) - 1
      in bind_res (vec_at vec idx) (\<lambda>hi.
         bind_res (vec_at vec 0) (\<lambda>lo.
         Inr \<lparr>vm_on_node = von, node_vm_vec = vec, max_vm_idx = idx, high_load_node = fst hi,
              max_vm_cnt = int_to_unsigned (snd hi), min_vm_cnt = int_to_unsigned (snd lo),
              min_load_node = fst lo\<rparr>)))"

text \<open>
  The first machine of a node's list that is in state \<open>w\<close>; \<open>None\<close> is \<open>vm_id == -1\<close>,
  which the code also takes an id of -1 for.
\<close>

fun find_vm :: "balance_ctx \<Rightarrow> VM_State \<Rightarrow> int list \<Rightarrow> int option res" where
  "find_vm cx w [] = Inr None"
| "find_vm cx w (x # xs) =
     bind_res (map_at (cx_vms cx) x) (\<lambda>vm.
     if vm_state_of (cx_states cx) (dom_id vm) = w
     then Inr (if x = -1 then None else Some x) else find_vm cx w xs)"

text \<open>
  The search through the latency list for a node that holds \<open>min_vm_cnt\<close>
  machines; \<open>min_load_node\<close> keeps its value when there is none.
\<close>

fun nearest_min :: "int list list \<Rightarrow> u32 \<Rightarrow> int \<Rightarrow> (int \<times> dbl) list \<Rightarrow> int res" where
  "nearest_min von cnt dflt [] = Inr dflt"
| "nearest_min von cnt dflt (p # ps) =
     bind_res (vec_at von (fst p)) (\<lambda>ls.
     if size_eq_unsigned (length ls) cnt then Inr (fst p) else nearest_min von cnt dflt ps)"

definition search_target :: "balance_ctx \<Rightarrow> balance \<Rightarrow> int res" where
  "search_target cx s =
     bind_res (vec_at (cx_nodes cx) (high_load_node s)) (\<lambda>node.
     nearest_min (vm_on_node s) (min_vm_cnt s) (min_load_node s) (sorted_lat_node_list node))"

text \<open>\<open>vm_id_ls.erase(vm_it)\<close> on the source's list, \<open>push_back\<close> on the target's.\<close>

definition move_vm :: "int list list \<Rightarrow> int \<Rightarrow> int \<Rightarrow> int \<Rightarrow> int list list res" where
  "move_vm von src v dst =
     bind_res (vec_at von src) (\<lambda>ls.
     let von' = von[nat src := remove1 v ls]
     in bind_res (vec_at von' dst) (\<lambda>ld. Inr (von'[nat dst := ld @ [v]])))"

text \<open>
  Lines 144 to 183: the busiest node is the NIC's and has at most two machines.
  Without a machine in state \<open>OTHER_STAT\<close>, step down to the next busiest node;
  with one, move it. The counts are not taken again.
\<close>

definition balance_nic :: "balance_ctx \<Rightarrow> balance \<Rightarrow> balance res" where
  "balance_nic cx s =
     bind_res (vec_at (vm_on_node s) (high_load_node s)) (\<lambda>vm_id_ls.
     bind_res (find_vm cx OTHER_STAT vm_id_ls) (\<lambda>found.
     case found of
       None \<Rightarrow>
         (let idx = (if max_vm_idx s - 1 < 0 then 0 else max_vm_idx s - 1)
          in bind_res (vec_at (node_vm_vec s) idx) (\<lambda>hi.
             bind_res (vec_at (node_vm_vec s) 0) (\<lambda>lo.
             Inr (s\<lparr>max_vm_idx := idx, max_vm_cnt := int_to_unsigned (snd hi),
                    high_load_node := fst hi, min_vm_cnt := int_to_unsigned (snd lo)\<rparr>))))
     | Some vm_id \<Rightarrow>
         bind_res (search_target cx s) (\<lambda>target.
         bind_res (move_vm (vm_on_node s) (high_load_node s) vm_id target) (\<lambda>von.
         Inr (s\<lparr>min_load_node := target, vm_on_node := von\<rparr>)))))"

text \<open>
  Lines 185 to 255: move an I/O intensive machine, to the NIC's node if that has
  the fewest machines, else to the nearest node that has; without one, move the
  first machine. Then take the counts again.
\<close>

definition balance_other :: "balance_ctx \<Rightarrow> balance \<Rightarrow> balance res" where
  "balance_other cx s =
     bind_res (vec_at (vm_on_node s) (high_load_node s)) (\<lambda>vm_id_ls.
     bind_res (find_vm cx IO_STAT vm_id_ls) (\<lambda>found.
     bind_res
       (case found of
          Some vm_id \<Rightarrow>
            bind_res
              (if cx_nic cx \<noteq> high_load_node s
               then bind_res (vec_at (vm_on_node s) (cx_nic cx)) (\<lambda>nic_ls.
                    Inr (size_eq_unsigned (length nic_ls) (min_vm_cnt s)))
               else Inr False) (\<lambda>to_nic.
            bind_res (if to_nic then Inr (cx_nic cx) else search_target cx s) (\<lambda>target.
            move_vm (vm_on_node s) (high_load_node s) vm_id target))
        | None \<Rightarrow>
            (case vm_id_ls of
               [] \<Rightarrow> Inl Bad_Iterator
             | vm_id # _ \<Rightarrow>
                 bind_res (search_target cx s) (\<lambda>target.
                 move_vm (vm_on_node s) (high_load_node s) vm_id target)))
       (recount cx)))"

definition balance_guard :: "balance \<Rightarrow> bool" where
  "balance_guard s \<longleftrightarrow> 1 < max_vm_cnt s \<and> 1 < max_vm_cnt s - min_vm_cnt s"

definition balance_body :: "balance_ctx \<Rightarrow> balance \<Rightarrow> balance res" where
  "balance_body cx s =
     (if high_load_node s = cx_nic cx \<and> max_vm_cnt s \<le> 2
      then balance_nic cx s else balance_other cx s)"

partial_function (option) balance_loop :: "balance_ctx \<Rightarrow> balance \<Rightarrow> balance res option" where
  "balance_loop cx s =
     (if balance_guard s
      then (case balance_body cx s of Inl e \<Rightarrow> Some (Inl e) | Inr s' \<Rightarrow> balance_loop cx s')
      else Some (Inr s))"

declare balance_loop.simps [code]

text \<open>Lines 257 to 278: a single machine per node at most, and none on the NIC's node.\<close>

definition place_on_nic :: "balance_ctx \<Rightarrow> balance \<Rightarrow> int list list res" where
  "place_on_nic cx s =
     (if max_vm_cnt s = 1
      then bind_res (vec_at (vm_on_node s) (cx_nic cx)) (\<lambda>nic_ls.
        if length nic_ls = 0
        then bind_res (vec_at (vm_on_node s) (high_load_node s)) (\<lambda>vm_id_ls.
          case vm_id_ls of
            [] \<Rightarrow> Inl Bad_Iterator
          | vm_id # _ \<Rightarrow>
              bind_res (map_at (cx_vms cx) vm_id) (\<lambda>vm.
              if vm_state_of (cx_states cx) (dom_id vm) = IO_STAT
              then move_vm (vm_on_node s) (high_load_node s) vm_id (cx_nic cx)
              else Inr (vm_on_node s)))
        else Inr (vm_on_node s))
      else Inr (vm_on_node s))"

definition decisions_of :: "int list list \<Rightarrow> decision list" where
  "decisions_of von =
     concat (map (\<lambda>i. map (\<lambda>v. \<lparr>d_dom_id = v, cpu_node_id = int i, mem_node_id = int i\<rparr>) (von ! i))
       [0..<length von])"

text \<open>Lines 125 to 278, from the placement by home node to the final one.\<close>

definition rebalance :: "balance_ctx \<Rightarrow> int list list \<Rightarrow> int list list res option" where
  "rebalance cx von =
     (case recount cx von of
        Inl e \<Rightarrow> Some (Inl e)
      | Inr s \<Rightarrow>
          (if balance_guard s
           then map_option (\<lambda>r. bind_res r (\<lambda>s'. Inr (vm_on_node s'))) (balance_loop cx s)
           else Some (place_on_nic cx s)))"

definition SimpleStrategy_analyze ::
  "count_sort \<Rightarrow> simple_strategy \<Rightarrow> (int \<Rightarrow> VM_State) \<Rightarrow> vm_info cpp_map \<Rightarrow> dbl list \<Rightarrow>
   numa_node list \<Rightarrow> int \<Rightarrow> int \<Rightarrow> decision list res option" where
  "SimpleStrategy_analyze srt ss indet vm_infos cpu_usage numa_nodes numa_number netdev_numanode =
     (case classify ss indet cpu_usage numa_number vm_infos of
        Inl e \<Rightarrow> Some (Inl e)
      | Inr (states, von, flag) \<Rightarrow>
          if \<not> flag then Some (Inr [])
          else map_option (\<lambda>r. bind_res r (\<lambda>von'. Inr (decisions_of von')))
                 (rebalance \<lparr>cx_sort = srt, cx_vms = vm_infos, cx_nodes = numa_nodes,
                    cx_number = numa_number, cx_nic = netdev_numanode, cx_states = states\<rparr> von))"

text \<open>
  \<open>schedule\<close> logs the CPU usage and the free memory of each node, which reads
  \<open>cpu_usage\<close> at every CPU of every node, and then calls \<open>analyze\<close>.
\<close>

definition node_log :: "dbl list \<Rightarrow> numa_node \<Rightarrow> (dbl \<times> u64) res" where
  "node_log cpu_usage node =
     bind_res
       (fold_res (\<lambda>cpuid total. bind_res (vec_at cpu_usage (cpuid + 1)) (\<lambda>u. Inr (total + u)))
          (cpu_ids node) (Fin 0))
       (\<lambda>total. Inr (total, free_mems node div 1024 div 1024))"

definition SimpleStrategy_schedule ::
  "count_sort \<Rightarrow> simple_strategy \<Rightarrow> (int \<Rightarrow> VM_State) \<Rightarrow> vm_info cpp_map \<Rightarrow> dbl list \<Rightarrow>
   numa_node list \<Rightarrow> int \<Rightarrow> int \<Rightarrow> decision list res option" where
  "SimpleStrategy_schedule srt ss indet vmInfo cpu_usage nodeInfos numOfNode netdev_numanode =
     (case fold_res
             (\<lambda>i log. bind_res (vec_at nodeInfos i) (\<lambda>node.
                      bind_res (node_log cpu_usage node) (\<lambda>l. Inr (log @ [l]))))
             (map int [0..<nat numOfNode]) [] of
        Inl e \<Rightarrow> Some (Inl e)
      | Inr _ \<Rightarrow>
          SimpleStrategy_analyze srt ss indet vmInfo cpu_usage nodeInfos numOfNode netdev_numanode)"

end
