(* ===== verification/Smoothing.thy ===== *)
theory Smoothing
  imports SimpleStrategy
begin

section \<open>The estimators, in floating point\<close>

text \<open>
  The smoothed packet rate and CPU usage of \<open>src/SimpleStrategy.cpp\<close>: the exact
  values of the smoothing factors as doubles, monotonicity of the weighted sum,
  and the states that the thresholds give in spite of rounding.
\<close>

subsection \<open>The factors\<close>

lemma smooth_factor: "SMOOTH_FACTOR = Fin (3602879701896397 / 9007199254740992)"
  unfolding SMOOTH_FACTOR_def dbl_lit_def
  by (subst rnd_nearI [where k = "-54" and m = 7205759403792794])
     (simp_all add: power_int_def power_divide)

lemma smooth_dec_factor: "SMOOTH_DEC_FACTOR = Fin (7656119366529843 / 9007199254740992)"
  unfolding SMOOTH_DEC_FACTOR_def dbl_lit_def
  by (subst rnd_nearI [where k = "-53" and m = 7656119366529843])
     (simp_all add: power_int_def power_divide)

lemma one_lit: "dbl_lit 1 1 = Fin 1"
  by (simp add: dbl_lit_def)

lemma one_minus_smooth_factor:
  "dbl_lit 1 1 - SMOOTH_FACTOR = Fin (5404319552844595 / 9007199254740992)"
  unfolding one_lit smooth_factor minus_dbl_def dbl_neg.simps dbl_add.simps
  by (subst rnd_nearI [where k = "-53" and m = 5404319552844595])
     (simp_all add: power_int_def power_divide)

lemma one_minus_smooth_dec_factor:
  "dbl_lit 1 1 - SMOOTH_DEC_FACTOR = Fin (1351079888211149 / 9007199254740992)"
  unfolding one_lit smooth_dec_factor minus_dbl_def dbl_neg.simps dbl_add.simps
  by (subst rnd_nearI [where k = "-55" and m = 5404319552844596])
     (simp_all add: power_int_def power_divide)

lemmas smooth_values =
  smooth_factor smooth_dec_factor
  one_minus_smooth_factor [unfolded smooth_factor]
  one_minus_smooth_dec_factor [unfolded smooth_dec_factor]

text \<open>
  A weighted sum of two values up to \<open>x\<close> is at most \<open>p + q\<close> when \<open>p\<close> and \<open>q\<close>
  are doubles above the weighted bounds; and dually.
\<close>

lemma weighted_below:
  assumes "a \<le> Fin x" "b \<le> Fin x" "0 < f" "0 < g"
    and "x * f \<le> p" "rnd p = Fin p" "x * g \<le> q" "rnd q = Fin q"
  shows "a * Fin f + b * Fin g \<le> rnd (p + q)"
proof (rule dbl_add_below)
  show "a * Fin f \<le> Fin p"
    using dbl_mult_mono [OF assms(1,3)] rnd_le_Fin [OF assms(6,5)]
    by (auto intro: dbl_le_trans simp: times_dbl_def)
  show "b * Fin g \<le> Fin q"
    using dbl_mult_mono [OF assms(2,4)] rnd_le_Fin [OF assms(8,7)]
    by (auto intro: dbl_le_trans simp: times_dbl_def)
qed

lemma weighted_above:
  assumes "Fin x \<le> a" "Fin x \<le> b" "0 < f" "0 < g"
    and "p \<le> x * f" "rnd p = Fin p" "q \<le> x * g" "rnd q = Fin q"
  shows "rnd (p + q) \<le> a * Fin f + b * Fin g"
proof (rule dbl_add_above)
  show "Fin p \<le> a * Fin f"
    using dbl_mult_mono [OF assms(1,3)] Fin_le_rnd [OF assms(6,5)]
    by (auto intro: dbl_le_trans simp: times_dbl_def)
  show "Fin q \<le> b * Fin g"
    using dbl_mult_mono [OF assms(2,4)] Fin_le_rnd [OF assms(8,7)]
    by (auto intro: dbl_le_trans simp: times_dbl_def)
qed

text \<open>The doubles used as bounds below.\<close>

lemma rnd_quarters:
  "rnd (159999 / 4) = Fin (159999 / 4)"
  "rnd (119999 / 2) = Fin (119999 / 2)"
  "rnd (339997 / 4) = Fin (339997 / 4)"
  "rnd (160001 / 4) = Fin (160001 / 4)"
  "rnd (120001 / 2) = Fin (120001 / 2)"
  "rnd (340003 / 4) = Fin (340003 / 4)"
  "rnd (399997 / 4) = Fin (399997 / 4)"
  "rnd (400003 / 4) = Fin (400003 / 4)"
  "rnd (17 / 4) = Fin (17 / 4)"
  "rnd (5 / 4) = Fin (5 / 4)"
  "rnd (7 / 2) = Fin (7 / 2)"
  "rnd (21 / 4) = Fin (21 / 4)"
  "rnd (15 / 2) = Fin (15 / 2)"
  "rnd (29 / 4) = Fin (29 / 4)"
  "rnd (35 / 4) = Fin (35 / 4)"
proof -
  show "rnd (159999 / 4) = Fin (159999 / 4)"
    using rnd_nearI [of "-37" "159999 / 4" 5497523779141632] by (simp add: power_int_def power_divide)
  show "rnd (119999 / 2) = Fin (119999 / 2)"
    using rnd_nearI [of "-37" "119999 / 2" 8246268488843264] by (simp add: power_int_def power_divide)
  show "rnd (339997 / 4) = Fin (339997 / 4)"
    using rnd_nearI [of "-36" "339997 / 4" 5841103982952448] by (simp add: power_int_def power_divide)
  show "rnd (160001 / 4) = Fin (160001 / 4)"
    using rnd_nearI [of "-37" "160001 / 4" 5497592498618368] by (simp add: power_int_def power_divide)
  show "rnd (120001 / 2) = Fin (120001 / 2)"
    using rnd_nearI [of "-37" "120001 / 2" 8246405927796736] by (simp add: power_int_def power_divide)
  show "rnd (340003 / 4) = Fin (340003 / 4)"
    using rnd_nearI [of "-36" "340003 / 4" 5841207062167552] by (simp add: power_int_def power_divide)
  show "rnd (399997 / 4) = Fin (399997 / 4)"
    using rnd_nearI [of "-36" "399997 / 4" 6871896133992448] by (simp add: power_int_def power_divide)
  show "rnd (400003 / 4) = Fin (400003 / 4)"
    using rnd_nearI [of "-36" "400003 / 4" 6871999213207552] by (simp add: power_int_def power_divide)
  show "rnd (17 / 4) = Fin (17 / 4)"
    using rnd_nearI [of "-50" "17 / 4" 4785074604081152] by (simp add: power_int_def power_divide)
  show "rnd (5 / 4) = Fin (5 / 4)"
    using rnd_nearI [of "-52" "5 / 4" 5629499534213120] by (simp add: power_int_def power_divide)
  show "rnd (7 / 2) = Fin (7 / 2)"
    using rnd_nearI [of "-51" "7 / 2" 7881299347898368] by (simp add: power_int_def power_divide)
  show "rnd (21 / 4) = Fin (21 / 4)"
    using rnd_nearI [of "-50" "21 / 4" 5910974510923776] by (simp add: power_int_def power_divide)
  show "rnd (15 / 2) = Fin (15 / 2)"
    using rnd_nearI [of "-50" "15 / 2" 8444249301319680] by (simp add: power_int_def power_divide)
  show "rnd (29 / 4) = Fin (29 / 4)"
    using rnd_nearI [of "-50" "29 / 4" 8162774324609024] by (simp add: power_int_def power_divide)
  show "rnd (35 / 4) = Fin (35 / 4)"
    using rnd_nearI [of "-49" "35 / 4" 4925812092436480] by (simp add: power_int_def power_divide)
qed

subsection \<open>The two estimators\<close>

lemma smoothed_pps_below:
  assumes "packets_per_sec_history vm \<le> Fin 99999" "packets_per_sec vm \<le> Fin 99999"
  shows "smoothed_pps vm \<le> Fin (399997 / 4)"
  using weighted_below [OF assms, of "3602879701896397 / 9007199254740992"
      "5404319552844595 / 9007199254740992" "159999 / 4" "119999 / 2"]
    weighted_below [OF assms, of "7656119366529843 / 9007199254740992"
      "1351079888211149 / 9007199254740992" "339997 / 4" 15000]
  by (simp add: smoothed_pps_def Let_def smooth_values rnd_quarters)

lemma smoothed_pps_above:
  assumes "Fin 100001 \<le> packets_per_sec_history vm" "Fin 100001 \<le> packets_per_sec vm"
  shows "Fin (400003 / 4) \<le> smoothed_pps vm"
  using weighted_above [OF assms, of "3602879701896397 / 9007199254740992"
      "5404319552844595 / 9007199254740992" "160001 / 4" "120001 / 2"]
    weighted_above [OF assms, of "7656119366529843 / 9007199254740992"
      "1351079888211149 / 9007199254740992" "340003 / 4" 15000]
  by (simp add: smoothed_pps_def Let_def smooth_values rnd_quarters)

lemma smoothed_cpu_below:
  assumes "real_cpu_usage vm \<le> Fin 7" "u \<le> Fin 7"
  shows "smoothed_cpu_usage vm u \<le> Fin (29 / 4)"
  using weighted_below [OF assms, of "3602879701896397 / 9007199254740992"
      "5404319552844595 / 9007199254740992" 3 "17 / 4"]
    weighted_below [OF assms, of "7656119366529843 / 9007199254740992"
      "1351079888211149 / 9007199254740992" 6 "5 / 4"]
  by (simp add: smoothed_cpu_usage_def Let_def smooth_values rnd_quarters dbl_mult_commute [of "Fin _"])

lemma smoothed_cpu_above:
  assumes "Fin 9 \<le> real_cpu_usage vm" "Fin 9 \<le> u"
  shows "Fin (35 / 4) \<le> smoothed_cpu_usage vm u"
  using weighted_above [OF assms, of "3602879701896397 / 9007199254740992"
      "5404319552844595 / 9007199254740992" "7 / 2" "21 / 4"]
    weighted_above [OF assms, of "7656119366529843 / 9007199254740992"
      "1351079888211149 / 9007199254740992" "15 / 2" "5 / 4"]
  by (simp add: smoothed_cpu_usage_def Let_def smooth_values rnd_quarters dbl_mult_commute [of "Fin _"])

lemma low_rate_other:
  assumes "packets_per_sec_history vm \<le> Fin 99999" "packets_per_sec vm \<le> Fin 99999"
  shows "analyzeIOState SimpleStrategy_new vm m = m(dom_id vm \<mapsto> OTHER_STAT)"
  using smoothed_pps_below [OF assms]
  by (cases "smoothed_pps vm")
     (auto simp: analyzeIOState_def SimpleStrategy_new_def dbl_of_int_def less_dbl_def less_eq_dbl_def Let_def)

lemma high_rate_io:
  assumes "Fin 100001 \<le> packets_per_sec_history vm" "Fin 100001 \<le> packets_per_sec vm"
  shows "analyzeIOState SimpleStrategy_new vm m = m(dom_id vm \<mapsto> IO_STAT)"
  using smoothed_pps_above [OF assms]
  by (cases "smoothed_pps vm")
     (auto simp: analyzeIOState_def SimpleStrategy_new_def dbl_of_int_def less_dbl_def less_eq_dbl_def Let_def)

end
