(* ===== verification/Config.thy ===== *)
theory Config
  imports NuiodState Smoothing
begin

section \<open>The configuration file\<close>

text \<open>
  \<open>parse_conf\<close> of \<open>src/Nuiod.cpp\<close>. The lines are what \<open>fgets\<close> delivers into a
  buffer of \<open>MAXLINE\<close> bytes, the members it stores into have \<open>NETDEV_LEN\<close> and
  \<open>PCI_STR_LEN\<close> bytes, and \<open>%s\<close> has no width: a longer word is written past the
  member, which is the fault \<open>Out_Of_Range\<close>. What the file means is stated with
  a list of items, of which the file is the text.
\<close>

subsection \<open>Operations\<close>

definition MAXLINE :: nat where "MAXLINE = 128"
definition NETDEV_LEN :: nat where "NETDEV_LEN = 32"
definition PCI_STR_LEN :: nat where "PCI_STR_LEN = 8"

text \<open>\<open>sscanf(line, key "%s", buf)\<close> with a buffer of the given size that holds \<open>old\<close>.\<close>

definition sscanf_s :: "nat \<Rightarrow> string \<Rightarrow> string \<Rightarrow> string \<Rightarrow> string res" where
  "sscanf_s room key line old =
     (case scan_lit key line of
        None \<Rightarrow> Inr old
      | Some r \<Rightarrow> (case scan_s r of
            None \<Rightarrow> Inr old
          | Some w \<Rightarrow> if length w < room then Inr w else Inl Out_Of_Range))"

text \<open>\<open>sscanf\<close> of one number after \<open>key\<close>, into a variable that holds \<open>old\<close>.\<close>

definition sscanf_num :: "(string \<Rightarrow> ('a \<times> string) option) \<Rightarrow> string \<Rightarrow> string \<Rightarrow> 'a \<Rightarrow> 'a" where
  "sscanf_num scan key line old =
     (case scan_lit key line of
        None \<Rightarrow> old
      | Some r \<Rightarrow> (case scan r of None \<Rightarrow> old | Some (v, _) \<Rightarrow> v))"

definition conf_line :: "string \<Rightarrow> nuiod \<Rightarrow> nuiod res" where
  "conf_line line nd =
     (if char_at line = CHR ''#'' then Inr nd
      else if strstr line ''netdev'' \<noteq> None then
        bind_res (sscanf_s NETDEV_LEN ''netdev='' line (netdev nd)) (\<lambda>s. Inr (nd\<lparr>netdev := s\<rparr>))
      else if strstr line ''pci_bus'' \<noteq> None then
        bind_res (sscanf_s PCI_STR_LEN ''pci_bus='' line (netdev_pci_bus_str nd)) (\<lambda>s.
          Inr (nd\<lparr>netdev_pci_bus_str := s, netdev_pci_bus_val := word_of_int (fst (strtol 16 s))\<rparr>))
      else if strstr line ''pci_slot'' \<noteq> None then
        bind_res (sscanf_s PCI_STR_LEN ''pci_slot='' line (pf_slot_str nd)) (\<lambda>s.
          Inr (nd\<lparr>pf_slot_str := s, netdev_pci_slot_val := word_of_int (fst (strtol 16 s))\<rparr>))
      else if strstr line ''pci_function'' \<noteq> None then
        bind_res (sscanf_s PCI_STR_LEN ''pci_function='' line (pf_funct_str nd)) (\<lambda>s.
          Inr (nd\<lparr>pf_funct_str := s, netdev_pci_funct_val := word_of_int (fst (strtol 16 s))\<rparr>))
      else if strstr line ''monitor_interval'' \<noteq> None then
        Inr (nd\<lparr>monitor_interval := sscanf_num scan_u ''monitor_interval='' line (monitor_interval nd)\<rparr>)
      else if strstr line ''io_threshold'' \<noteq> None then
        Inr (nd\<lparr>conf_io_threshold := sscanf_num scan_llu ''io_threshold='' line (conf_io_threshold nd)\<rparr>)
      else Inr nd)"

definition conf_file :: string where "conf_file = ''/etc/nuiod.conf''"

definition parse_conf :: "(string \<Rightarrow> string option) \<Rightarrow> nuiod \<Rightarrow> (int \<times> nuiod) res" where
  "parse_conf fs nd =
     (case fs conf_file of
        None \<Rightarrow> Inr (-1, nd)
      | Some s \<Rightarrow>
          bind_res (fold_res conf_line (map c_str (fgets_loop (MAXLINE - 1) s)) nd) (\<lambda>nd'. Inr (0, nd')))"

subsection \<open>What a configuration says\<close>

datatype conf_item =
    Conf_Blank | Conf_Comment string | Conf_Netdev string | Conf_Bus string | Conf_Slot string
  | Conf_Function string | Conf_Interval u32 | Conf_Threshold u64

fun item_line :: "conf_item \<Rightarrow> string" where
  "item_line Conf_Blank = []"
| "item_line (Conf_Comment s) = CHR ''#'' # s"
| "item_line (Conf_Netdev s) = ''netdev='' @ s"
| "item_line (Conf_Bus s) = ''pci_bus='' @ s"
| "item_line (Conf_Slot s) = ''pci_slot='' @ s"
| "item_line (Conf_Function s) = ''pci_function='' @ s"
| "item_line (Conf_Interval n) = ''monitor_interval='' @ show_nat (unat n)"
| "item_line (Conf_Threshold n) = ''io_threshold='' @ show_nat (unat n)"

definition conf_text :: "conf_item list \<Rightarrow> string" where
  "conf_text items = concat (map (\<lambda>i. item_line i @ [newline]) items)"

text \<open>A value for \<open>%s\<close> that fits, and one that is a hexadecimal number as well.\<close>

definition word_ok :: "nat \<Rightarrow> string \<Rightarrow> bool" where
  "word_ok room s \<longleftrightarrow> s \<noteq> [] \<and> length s < room \<and> (\<forall>c\<in>set s. \<not> isspace c \<and> c \<noteq> NUL)"

definition hex_digits :: "string \<Rightarrow> string" where
  "hex_digits s = (if take 2 s = ''0x'' then drop 2 s else s)"

definition hex_ok :: "string \<Rightarrow> bool" where
  "hex_ok s \<longleftrightarrow> hex_digits s \<noteq> [] \<and> length s < PCI_STR_LEN \<and> (\<forall>c\<in>set (hex_digits s). digit_val c < 16)"

fun item_ok :: "conf_item \<Rightarrow> bool" where
  "item_ok Conf_Blank \<longleftrightarrow> True"
| "item_ok (Conf_Comment s) \<longleftrightarrow> length s < MAXLINE - 2 \<and> newline \<notin> set s"
| "item_ok (Conf_Netdev s) \<longleftrightarrow> word_ok NETDEV_LEN s"
| "item_ok (Conf_Bus s) \<longleftrightarrow> hex_ok s"
| "item_ok (Conf_Slot s) \<longleftrightarrow> hex_ok s"
| "item_ok (Conf_Function s) \<longleftrightarrow> hex_ok s"
| "item_ok (Conf_Interval n) \<longleftrightarrow> True"
| "item_ok (Conf_Threshold n) \<longleftrightarrow> True"

definition hex_value :: "string \<Rightarrow> nat" where
  "hex_value s = foldl (\<lambda>n c. 16 * n + digit_val c) 0 (hex_digits s)"

fun apply_item :: "conf_item \<Rightarrow> nuiod \<Rightarrow> nuiod" where
  "apply_item Conf_Blank nd = nd"
| "apply_item (Conf_Comment s) nd = nd"
| "apply_item (Conf_Netdev s) nd = nd\<lparr>netdev := s\<rparr>"
| "apply_item (Conf_Bus s) nd =
     nd\<lparr>netdev_pci_bus_str := s, netdev_pci_bus_val := of_nat (hex_value s)\<rparr>"
| "apply_item (Conf_Slot s) nd = nd\<lparr>pf_slot_str := s, netdev_pci_slot_val := of_nat (hex_value s)\<rparr>"
| "apply_item (Conf_Function s) nd = nd\<lparr>pf_funct_str := s, netdev_pci_funct_val := of_nat (hex_value s)\<rparr>"
| "apply_item (Conf_Interval n) nd = nd\<lparr>monitor_interval := n\<rparr>"
| "apply_item (Conf_Threshold n) nd = nd\<lparr>conf_io_threshold := n\<rparr>"

subsection \<open>Numbers and words\<close>

lemma scan_digits_hex:
  "\<forall>c\<in>set s. digit_val c < 16 \<Longrightarrow> scan_digits 16 n s = (foldl (\<lambda>n c. 16 * n + digit_val c) n s, [])"
  by (induction s arbitrary: n) (simp_all add: mult.commute)

lemma hex_value_less:
  "\<forall>c\<in>set s. digit_val c < 16 \<Longrightarrow> foldl (\<lambda>n c. 16 * n + digit_val c) n s < (n + 1) * 16 ^ length s"
proof (induction s arbitrary: n)
  case (Cons c s)
  then have "foldl (\<lambda>n c. 16 * n + digit_val c) (16 * n + digit_val c) s < (16 * n + digit_val c + 1) * 16 ^ length s"
    by simp
  also have "\<dots> \<le> (n + 1) * 16 * 16 ^ length s"
    using Cons.prems by (intro mult_right_mono) auto
  finally show ?case by (simp add: algebra_simps)
qed simp

lemma hex_digit_facts:
  "digit_val c < 16 \<Longrightarrow> \<not> isspace c \<and> c \<noteq> NUL \<and> c \<noteq> CHR ''-'' \<and> c \<noteq> CHR ''+'' \<and> c \<noteq> CHR ''x'' \<and>
     c \<noteq> CHR ''X'' \<and> c \<notin> {CHR ''n'', CHR ''u'', CHR ''l'', CHR ''s'', CHR ''t''}"
  by (auto simp: isspace_def digit_val_def)

lemma hex_chars:
  assumes "hex_ok s" "c \<in> set s" shows "digit_val c < 16 \<or> c = CHR ''x''"
proof (cases "take 2 s = ''0x''")
  case True
  have "c \<in> set (take 2 s @ drop 2 s)" using assms(2) by (simp only: append_take_drop_id)
  then show ?thesis using True assms(1) by (auto simp: hex_ok_def hex_digits_def digit_val_def)
qed (use assms in \<open>auto simp: hex_ok_def hex_digits_def\<close>)

lemma hex_char_facts:
  assumes "hex_ok s" "c \<in> set s"
  shows "\<not> isspace c \<and> c \<noteq> NUL \<and> c \<notin> {CHR ''n'', CHR ''u'', CHR ''l'', CHR ''s'', CHR ''t'', CHR ''v''}"
  using hex_chars [OF assms] by (auto simp: isspace_def digit_val_def)

lemma hex_word: "hex_ok s \<Longrightarrow> word_ok PCI_STR_LEN s"
  using hex_char_facts by (fastforce simp: hex_ok_def word_ok_def hex_digits_def)

lemma strtol_hex:
  assumes "hex_ok s" shows "fst (strtol 16 s) = int (hex_value s)"
proof -
  let ?d = "hex_digits s"
  have s: "?d \<noteq> []" "length s < 8" "\<forall>c\<in>set ?d. digit_val c < 16" "length ?d \<le> length s"
    using assms by (auto simp: hex_ok_def PCI_STR_LEN_def) (simp add: hex_digits_def)
  obtain c cs where cs: "?d = c # cs" "digit_val c < 16" using s(1,3) by (cases ?d) auto
  have num: "digit_val (char_at ?d) < 16" using cs by (simp add: char_at_def)
  have "skip_space s = s \<and> scan_sign s = (False, s) \<and> scan_prefix 16 s = (16, ?d)"
  proof (cases "take 2 s = ''0x''")
    case True
    then have "s = ''0x'' @ ?d" using append_take_drop_id [of 2 s] by (simp add: hex_digits_def)
    moreover have "skip_space t = t \<and> scan_sign t = (False, t) \<and> scan_prefix 16 t = (16, ?d)"
      if "t = ''0x'' @ ?d" for t
      using num unfolding that
      by (simp add: skip_space_def scan_sign_def scan_prefix_def hex_prefix_def char_at_def isspace_def)
    ultimately show ?thesis by blast
  next
    case False
    then have d: "s = c # cs" using cs(1) by (simp add: hex_digits_def)
    have "char_at cs \<noteq> CHR ''x'' \<and> char_at cs \<noteq> CHR ''X''"
      using s(3) cs(1) by (cases cs) (auto simp: char_at_def digit_val_def)
    then have "\<not> hex_prefix s" by (simp add: hex_prefix_def d)
    then show ?thesis
      using hex_digit_facts [OF cs(2)] d cs(1) by (simp add: skip_space_def scan_sign_def scan_prefix_def char_at_def)
  qed
  then have "scan_number 16 s = Some (False, hex_value s, [])"
    using scan_digits_hex [OF s(3)] num by (simp add: scan_number_def hex_value_def)
  moreover have "hex_value s < 2 ^ 63"
  proof -
    have "hex_value s < 16 ^ length ?d" using hex_value_less [OF s(3), of 0] by (simp add: hex_value_def)
    also have "\<dots> \<le> 16 ^ 7" using s(2,4) by (intro power_increasing) auto
    finally show ?thesis by simp
  qed
  ultimately show ?thesis by (simp add: strtol_def)
qed

lemma scan_s_word:
  assumes "word_ok room s" shows "scan_s (s @ [newline]) = Some s"
proof -
  obtain c cs where s: "s = c # cs" "\<not> isspace c" using assms by (cases s) (auto simp: word_ok_def)
  then have "skip_space (s @ [newline]) = s @ [newline]" by (simp add: skip_space_def)
  moreover have "takeWhile (\<lambda>c. \<not> isspace c) (s @ [newline]) = s"
    using assms by (simp add: word_ok_def isspace_def takeWhile_append2)
  ultimately show ?thesis using s(1) by (simp add: scan_s_def)
qed

lemma sscanf_s_word: "word_ok room s \<Longrightarrow> sscanf_s room key (key @ s @ [newline]) old = Inr s"
  by (simp add: sscanf_s_def scan_lit_append scan_s_word) (simp add: word_ok_def)

lemma newline_ends_number: "\<not> digit_val (char_at [newline]) < 10"
  by (simp add: char_at_def digit_val_def)

lemma sscanf_u: "sscanf_num scan_u key (key @ show_nat (unat (n :: u32)) @ [newline]) old = n"
proof -
  have "unat n < 2 ^ 64" using unsigned_less [of n, where ?'a = nat] by simp
  then have "scan_u (show_nat (unat n) @ [newline]) = Some (ucast (of_nat (unat n) :: u64), [newline])"
    using scan_number_show_nat [OF newline_ends_number, of "[]" "unat n"]
      strtoul_show_nat [OF _ newline_ends_number, of "unat n" "[]"] by (simp add: scan_u_def)
  moreover have "ucast (of_nat (unat n) :: u64) = n" by (rule bit_word_eqI) (auto simp: bit_simps dest: bit_imp_le_length)
  ultimately show ?thesis by (simp add: sscanf_num_def scan_lit_append)
qed

lemma sscanf_llu: "sscanf_num scan_llu key (key @ show_nat (unat (n :: u64)) @ [newline]) old = n"
  using scan_llu_show_nat [OF _ newline_ends_number, of "unat n" "[]"] unsigned_less [of n, where ?'a = nat]
  by (simp add: sscanf_num_def scan_lit_append)

subsection \<open>One line\<close>

lemma item_line_clean:
  assumes "item_ok i" shows "newline \<notin> set (item_line i) \<and> length (item_line i) < MAXLINE - 1"
proof (cases i)
  case (Conf_Interval n)
  have "unat n < 10 ^ Suc 9" using unsigned_less [of n, where ?'a = nat] by simp
  then show ?thesis using show_nat_length [of "unat n" 9] by (simp add: Conf_Interval MAXLINE_def show_nat_clean)
next
  case (Conf_Threshold n)
  have "unat n < 10 ^ Suc 19" using unsigned_less [of n, where ?'a = nat] by simp
  then show ?thesis using show_nat_length [of "unat n" 19] by (simp add: Conf_Threshold MAXLINE_def show_nat_clean)
qed (use assms hex_word in \<open>fastforce simp: MAXLINE_def NETDEV_LEN_def PCI_STR_LEN_def word_ok_def isspace_def\<close>)+

lemma item_c_str:
  assumes "item_ok i" "\<forall>s. i \<noteq> Conf_Comment s" shows "c_str (item_line i @ [newline]) = item_line i @ [newline]"
  by (rule c_str_id)
     (use assms hex_word in \<open>cases i; force simp: word_ok_def show_nat_clean\<close>)

lemma no_key:
  "c \<in> set pat \<Longrightarrow> c \<notin> set s \<Longrightarrow> (strstr s pat \<noteq> None) = False"
  by (simp add: strstr_none)

lemma hex_avoids:
  assumes "hex_ok s"
  shows "CHR ''n'' \<notin> set s" "CHR ''u'' \<notin> set s" "CHR ''l'' \<notin> set s" "CHR ''s'' \<notin> set s" "CHR ''v'' \<notin> set s"
  using hex_char_facts [OF assms] by auto

lemma digits_avoid:
  "\<not> digit_val c < 10 \<Longrightarrow> c \<notin> set (show_nat n)"
  using show_nat_digits by blast

text \<open>Each key is found at the start of its own line, and no key that is looked for earlier occurs in it.\<close>

lemma conf_line_netdev:
  assumes "word_ok NETDEV_LEN s"
  shows "conf_line (c_str (item_line (Conf_Netdev s) @ [newline])) nd = Inr (apply_item (Conf_Netdev s) nd)"
proof -
  have "strstr (''netdev'' @ (CHR ''='' # s @ [newline])) ''netdev'' \<noteq> None" by (subst strstr_prefix) simp
  then show ?thesis
    using item_c_str [of "Conf_Netdev s"] assms assms sscanf_s_word [of NETDEV_LEN s "''netdev=''"]
    by (simp add: conf_line_def char_at_def)
qed

lemma conf_line_bus:
  assumes "hex_ok s"
  shows "conf_line (c_str (item_line (Conf_Bus s) @ [newline])) nd = Inr (apply_item (Conf_Bus s) nd)"
proof -
  have "strstr (''pci_bus'' @ (CHR ''='' # s @ [newline])) ''pci_bus'' \<noteq> None" by (subst strstr_prefix) simp
  moreover have "strstr (''pci_bus='' @ s @ [newline]) ''netdev'' = None"
    by (rule strstr_none [of "CHR ''n''"]) (use hex_avoids [OF assms] in simp_all)
  ultimately show ?thesis
    using item_c_str [of "Conf_Bus s"] assms sscanf_s_word [OF hex_word [OF assms], of "''pci_bus=''"] strtol_hex [OF assms]
    by (simp add: conf_line_def char_at_def)
qed

lemma conf_line_slot:
  assumes "hex_ok s"
  shows "conf_line (c_str (item_line (Conf_Slot s) @ [newline])) nd = Inr (apply_item (Conf_Slot s) nd)"
proof -
  have "strstr (''pci_slot'' @ (CHR ''='' # s @ [newline])) ''pci_slot'' \<noteq> None" by (subst strstr_prefix) simp
  moreover have "strstr (''pci_slot='' @ s @ [newline]) ''netdev'' = None"
    by (rule strstr_none [of "CHR ''n''"]) (use hex_avoids [OF assms] in simp_all)
  moreover have "strstr (''pci_slot='' @ s @ [newline]) ''pci_bus'' = None"
    by (rule strstr_none [of "CHR ''u''"]) (use hex_avoids [OF assms] in simp_all)
  ultimately show ?thesis
    using item_c_str [of "Conf_Slot s"] assms sscanf_s_word [OF hex_word [OF assms], of "''pci_slot=''"] strtol_hex [OF assms]
    by (simp add: conf_line_def char_at_def)
qed

lemma conf_line_function:
  assumes "hex_ok s"
  shows "conf_line (c_str (item_line (Conf_Function s) @ [newline])) nd = Inr (apply_item (Conf_Function s) nd)"
proof -
  have "strstr (''pci_function'' @ (CHR ''='' # s @ [newline])) ''pci_function'' \<noteq> None" by (subst strstr_prefix) simp
  moreover have "strstr (''pci_function='' @ s @ [newline]) ''netdev'' = None"
    by (rule strstr_none [of "CHR ''v''"]) (use hex_avoids [OF assms] in simp_all)
  moreover have "strstr (''pci_function='' @ s @ [newline]) ''pci_bus'' = None"
      "strstr (''pci_function='' @ s @ [newline]) ''pci_slot'' = None"
    by (rule strstr_none [of "CHR ''s''"]; use hex_avoids [OF assms] in simp)+
  ultimately show ?thesis
    using item_c_str [of "Conf_Function s"] assms sscanf_s_word [OF hex_word [OF assms], of "''pci_function=''"] strtol_hex [OF assms]
    by (simp add: conf_line_def char_at_def)
qed

lemma conf_line_interval:
  shows "conf_line (c_str (item_line (Conf_Interval n) @ [newline])) nd = Inr (apply_item (Conf_Interval n) nd)"
proof -
  let ?l = "''monitor_interval='' @ show_nat (unat n) @ [newline]"
  have "strstr (''monitor_interval'' @ (CHR ''='' # show_nat (unat n) @ [newline])) ''monitor_interval'' \<noteq> None"
    by (subst strstr_prefix) simp
  moreover have "strstr ?l ''netdev'' = None"
    by (rule strstr_none [of "CHR ''d''"]) (simp_all add: digits_avoid digit_val_def)
  moreover have "strstr ?l ''pci_bus'' = None" "strstr ?l ''pci_slot'' = None" "strstr ?l ''pci_function'' = None"
    by (rule strstr_none [of "CHR ''p''"]; simp add: digits_avoid digit_val_def)+
  ultimately show ?thesis
    using item_c_str [of "Conf_Interval n"] sscanf_u [of "''monitor_interval=''" n]
    by (simp add: conf_line_def char_at_def)
qed

lemma conf_line_threshold:
  shows "conf_line (c_str (item_line (Conf_Threshold n) @ [newline])) nd = Inr (apply_item (Conf_Threshold n) nd)"
proof -
  let ?l = "''io_threshold='' @ show_nat (unat n) @ [newline]"
  have "strstr (''io_threshold'' @ (CHR ''='' # show_nat (unat n) @ [newline])) ''io_threshold'' \<noteq> None"
    by (subst strstr_prefix) simp
  moreover have "strstr ?l ''netdev'' = None" "strstr ?l ''monitor_interval'' = None"
    by (rule strstr_none [of "CHR ''n''"]; simp add: digits_avoid digit_val_def)+
  moreover have "strstr ?l ''pci_bus'' = None" "strstr ?l ''pci_slot'' = None" "strstr ?l ''pci_function'' = None"
    by (rule strstr_none [of "CHR ''p''"]; simp add: digits_avoid digit_val_def)+
  ultimately show ?thesis
    using item_c_str [of "Conf_Threshold n"] sscanf_llu [of "''io_threshold=''" n]
    by (simp add: conf_line_def char_at_def)
qed

lemma conf_line_item:
  assumes "item_ok i" shows "conf_line (c_str (item_line i @ [newline])) nd = Inr (apply_item i nd)"
proof (cases i)
  case Conf_Blank
  then show ?thesis by (simp add: conf_line_def c_str_def char_at_def)
next
  case (Conf_Comment s)
  then show ?thesis by (simp add: conf_line_def c_str_def char_at_def)
qed (use assms in \<open>simp_all only: item_ok.simps conf_line_netdev conf_line_bus conf_line_slot conf_line_function
    conf_line_interval conf_line_threshold\<close>)

lemma conf_lines_items:
  "\<forall>i\<in>set items. item_ok i \<Longrightarrow>
   fold_res conf_line (map c_str (map (\<lambda>i. item_line i @ [newline]) items)) nd = Inr (fold apply_item items nd)"
  by (induction items arbitrary: nd) (simp_all add: conf_line_item del: append_assoc)

lemma conf_text_lines:
  assumes "\<forall>i\<in>set items. item_ok i"
  shows "fgets_loop (MAXLINE - 1) (conf_text items) = map (\<lambda>i. item_line i @ [newline]) items"
  using fgets_loop_lines [of "map item_line items" "MAXLINE - 1"] item_line_clean assms
  by (fastforce simp: conf_text_def o_def)

subsection \<open>Properties\<close>

text \<open>C18. Reading back a configuration: a file with one line per item, each of a length that fits, has
  exactly the effect of its items in the order of the file; comments have none.\<close>

theorem configuration_round_trip:
  assumes "\<forall>i\<in>set items. item_ok i" "fs conf_file = Some (conf_text items)"
  shows "parse_conf fs nd = Inr (0, fold apply_item items nd)"
  using conf_lines_items [OF assms(1), of nd] conf_text_lines [OF assms(1)] assms(2)
  by (simp add: parse_conf_def)

text \<open>The settings of the file \<open>nuiod.conf\<close> of the repository.\<close>

definition ex_conf :: "conf_item list" where
  "ex_conf = [Conf_Comment '' specify the NIC name which nuiod should monitor'', Conf_Netdev ''enp6s0'', Conf_Blank,
     Conf_Bus ''0x06'', Conf_Slot ''0x00'', Conf_Function ''0x0'', Conf_Interval 1, Conf_Threshold 100000]"

theorem configuration_round_trip_witness:
  "parse_conf (\<lambda>_. Some (conf_text ex_conf)) zeroed_nuiod =
     Inr (0, zeroed_nuiod\<lparr>netdev := ''enp6s0'', netdev_pci_bus_str := ''0x06'', netdev_pci_bus_val := 6,
       pf_slot_str := ''0x00'', netdev_pci_slot_val := 0, pf_funct_str := ''0x0'', netdev_pci_funct_val := 0,
       monitor_interval := 1, conf_io_threshold := 100000\<rparr>)"
proof -
  have ok: "\<forall>i\<in>set ex_conf. item_ok i"
    by (simp add: ex_conf_def word_ok_def hex_ok_def hex_digits_def MAXLINE_def NETDEV_LEN_def PCI_STR_LEN_def
        isspace_def digit_val_def)
  show ?thesis
    unfolding configuration_round_trip [OF ok refl] by (simp add: ex_conf_def hex_value_def hex_digits_def digit_val_def)
qed

text \<open>C31. When a machine is I/O intensive does not depend on the configuration. \<open>nuiod.conf\<close> documents \<open>io_threshold\<close>
  (lines 22 to 25) as the number of packets per second above which a machine is considered I/O intensive, and
  the code reads it into the daemon; but the strategy compares with a constant of its own. Whatever
  threshold \<open>t\<close> has been configured, a machine with the current and the previous rate at most 99999 is
  recorded as \<open>OTHER_STAT\<close>, and one with both at least 100001 as \<open>IO_STAT\<close>, in spite of rounding.\<close>

theorem configured_threshold_is_ignored:
  assumes "\<forall>i\<in>set items. item_ok i" "fs conf_file = Some (conf_text (items @ [Conf_Threshold t]))"
  shows "\<exists>nd'. parse_conf fs nd = Inr (0, nd') \<and> conf_io_threshold nd' = t \<and>
    (packets_per_sec_history vm \<le> Fin 99999 \<longrightarrow> packets_per_sec vm \<le> Fin 99999 \<longrightarrow>
       analyzeIOState SimpleStrategy_new vm m = m(dom_id vm \<mapsto> OTHER_STAT)) \<and>
    (Fin 100001 \<le> packets_per_sec_history vm \<longrightarrow> Fin 100001 \<le> packets_per_sec vm \<longrightarrow>
       analyzeIOState SimpleStrategy_new vm m = m(dom_id vm \<mapsto> IO_STAT))"
proof -
  have ok: "\<forall>i\<in>set (items @ [Conf_Threshold t]). item_ok i" using assms(1) by auto
  have "parse_conf fs nd = Inr (0, fold apply_item (items @ [Conf_Threshold t]) nd)"
    using conf_lines_items [OF ok, of nd] conf_text_lines [OF ok] assms(2) by (simp add: parse_conf_def)
  then show ?thesis using low_rate_other high_rate_io by auto
qed

theorem configured_threshold_is_ignored_witness:
  "\<exists>nd'. parse_conf (\<lambda>_. Some (conf_text ([] @ [Conf_Threshold 10]))) zeroed_nuiod = Inr (0, nd') \<and> conf_io_threshold nd' = 10 \<and>
    analyzeIOState SimpleStrategy_new
      (zeroed_vm\<lparr>dom_id := 4, packets_per_sec := Fin 90000, packets_per_sec_history := Fin 20000\<rparr>)
      Map.empty = [4 \<mapsto> OTHER_STAT]"
proof -
  let ?vm = "zeroed_vm\<lparr>dom_id := 4, packets_per_sec := Fin 90000, packets_per_sec_history := Fin 20000\<rparr>"
  have ok: "\<forall>i\<in>set []. item_ok i" by simp
  from configured_threshold_is_ignored [where t = 10 and fs = "\<lambda>_. Some (conf_text ([] @ [Conf_Threshold 10]))" and nd = zeroed_nuiod
      and vm = ?vm and m = Map.empty, OF ok refl]
  show ?thesis by (auto simp: zeroed_vm_def less_eq_dbl_def)
qed

text \<open>A comment that does not fit the line buffer is cut after 127 characters, and what follows is
  read as if it were a line of its own, so commented text can take effect.\<close>

theorem long_comment_takes_effect:
  assumes "length s = 126" "newline \<notin> set s" "fs conf_file = Some (CHR ''#'' # s @ r)" "fs' conf_file = Some r"
  shows "parse_conf fs nd = parse_conf fs' nd"
proof -
  have "fgets_loop 127 ((CHR ''#'' # s) @ r) = (CHR ''#'' # s) # fgets_loop 127 r"
    by (rule fgets_loop_full) (use assms in simp_all)
  moreover have "conf_line (c_str (CHR ''#'' # s)) nd = Inr nd"
    by (simp add: conf_line_def c_str_def char_at_def)
  ultimately show ?thesis using assms(3,4) by (simp add: parse_conf_def MAXLINE_def)
qed

theorem long_comment_takes_effect_witness:
  "parse_conf (\<lambda>_. Some (CHR ''#'' # replicate 126 (CHR ''x'') @ ''netdev=eth9'' @ [newline])) zeroed_nuiod =
   parse_conf (\<lambda>_. Some (''netdev=eth9'' @ [newline])) zeroed_nuiod"
  by (rule long_comment_takes_effect [where s = "replicate 126 (CHR ''x'')"]) simp_all

text \<open>A missing file gives -1 and changes nothing. A device name of 32 characters or more on the
  first line is written past the end of its member, whatever the rest of the file says.\<close>

theorem long_device_name_overflows:
  assumes "word_ok 120 s" "NETDEV_LEN \<le> length s" "fs conf_file = Some (conf_text (Conf_Netdev s # items))"
  shows "parse_conf (\<lambda>_. None) nd = Inr (-1, nd) \<and> parse_conf fs nd = Inl Out_Of_Range"
proof -
  let ?l = "''netdev='' @ s"
  have "newline \<notin> set s" "NUL \<notin> set s" "length s < 120" using assms(1) by (auto simp: word_ok_def isspace_def)
  then have "fgets_loop 127 (?l @ newline # conf_text items) = (?l @ [newline]) # fgets_loop 127 (conf_text items)"
    by (intro fgets_loop_line) auto
  moreover have "c_str (?l @ [newline]) = ?l @ [newline]" by (rule c_str_id) (use \<open>NUL \<notin> set s\<close> in simp)
  moreover have "strstr (''netdev'' @ (CHR ''='' # s @ [newline])) ''netdev'' \<noteq> None" by (subst strstr_prefix) simp
  then have "conf_line (?l @ [newline]) nd = Inl Out_Of_Range"
    using scan_s_word [OF assms(1)] assms(2) scan_lit_append [of "''netdev=''" "s @ [newline]"]
    by (simp add: conf_line_def char_at_def sscanf_s_def)
  ultimately show ?thesis using assms(3) by (simp add: parse_conf_def MAXLINE_def conf_text_def)
qed

theorem long_device_name_overflows_witness:
  "parse_conf (\<lambda>_. Some (conf_text [Conf_Netdev (replicate 32 (CHR ''e''))])) zeroed_nuiod = Inl Out_Of_Range"
  using long_device_name_overflows [of "replicate 32 (CHR ''e'')"
      "\<lambda>_. Some (conf_text [Conf_Netdev (replicate 32 (CHR ''e''))])" "[]" zeroed_nuiod]
  by (simp add: word_ok_def NETDEV_LEN_def isspace_def)

end
