(* ===== verification/Lifecycle.thy ===== *)
theory Lifecycle
  imports CpuMapping Config
begin

section \<open>Machines that start, stop and change state\<close>

text \<open>
  \<open>set_vm_info\<close>, \<open>init_vminfo\<close> and \<open>virVMEventCallBack\<close> of \<open>src/Nuiod.cpp\<close>. The steps
  of \<open>set_vm_info\<close> carry the flag it returns and the record it fills, which is an
  element of \<open>vm_infos_map\<close>; of the rest of the state it changes only the mapping
  of the CPUs. Faults: a machine without a name, a bus string too long for the
  search pattern, an XML attribute without a quote, a page count for a negative
  node, signed overflow in the number of the virtual function, a negative number of
  domains, and an event about a machine that is not in the map.
\<close>

subsection \<open>The record of a machine\<close>

definition VM_NAME_LEN :: nat where "VM_NAME_LEN = 64"

definition set_real_cpu :: "(vir_ptr \<Rightarrow> int \<times> int) \<Rightarrow> vir_ptr \<Rightarrow> vm_info \<Rightarrow> nuiod \<Rightarrow> int \<times> vm_info \<times> nuiod" where
  "set_real_cpu vcpu ptr vm nd =
     (let ret = get_vm_real_cpu vcpu ptr
      in if ret = -1 then (-1, vm, nd)
         else (0, vm\<lparr>real_cpu_no := ret\<rparr>,
               nd\<lparr>cpu_vm_mapping := map_insert ret (dom_id vm) (cpu_vm_mapping nd)\<rparr>))"

definition set_name :: "string \<Rightarrow> int \<times> vm_info \<Rightarrow> (int \<times> vm_info) res" where
  "set_name name = (\<lambda>(flag, vm).
     let len = size_to_int (length name)
     in if int VM_NAME_LEN \<le> len then Inr (-1, vm)
        else if len < 0 then Inl Out_Of_Range
        else Inr (flag, vm\<lparr>vm_name := name\<rparr>))"

definition pid_path :: "string \<Rightarrow> string" where
  "pid_path name = snprintf MAX_PATH_LEN (''/var/run/libvirt/qemu/'' @ name @ ''.pid'')"

definition set_pid :: "(string \<Rightarrow> string option) \<Rightarrow> string \<Rightarrow> int \<times> vm_info \<Rightarrow> int \<times> vm_info" where
  "set_pid fs name = (\<lambda>(flag, vm).
     case fs (pid_path name) of
       None \<Rightarrow> (-1, vm)
     | Some s \<Rightarrow> (flag, vm\<lparr>pid := (case scan_u s of None \<Rightarrow> pid vm | Some (v, _) \<Rightarrow> v)\<rparr>))"

definition set_distribution :: "(string \<Rightarrow> string option) \<Rightarrow> int \<Rightarrow> int \<times> vm_info \<Rightarrow> (int \<times> vm_info) res" where
  "set_distribution fs number = (\<lambda>(flag, vm).
     bind_res (get_proc_mem_numa_distribution fs number (pid vm) (mem_node_distr vm)) (\<lambda>(ret, distr).
       Inr (if ret \<noteq> 0 then -1 else flag, vm\<lparr>mem_node_distr := distr\<rparr>)))"

text \<open>The node with the most pages; \<open>old\<close> is what the member holds before.\<close>

definition main_node_step :: "u32 list \<Rightarrow> nat \<Rightarrow> u32 \<times> int \<Rightarrow> u32 \<times> int" where
  "main_node_step distr node = (\<lambda>(pages_num, main).
     if pages_num < distr ! node then (distr ! node, int node) else (pages_num, main))"

definition main_node :: "u32 list \<Rightarrow> int \<Rightarrow> int" where
  "main_node distr old = snd (fold (main_node_step distr) [0..<length distr] (0, old))"

text \<open>The number after the next quote, and the text after it.\<close>

definition quoted_long :: "string \<Rightarrow> (int \<times> string) res" where
  "quoted_long p =
     (case dropWhile (\<lambda>c. c \<noteq> quote) p of [] \<Rightarrow> Inl Out_Of_Range | c # s \<Rightarrow> Inr (strtol 0 s))"

definition target_bus :: "string \<Rightarrow> string res" where
  "target_bus bus =
     (let t = ''bus='' @ quote # bus @ [quote]
      in if length t < PCI_STR_LEN + 3 then Inr t else Inl Out_Of_Range)"

text \<open>Slot and function of the first address on the bus, \<open>None\<close> when an attribute is missing.\<close>

definition parse_address :: "string \<Rightarrow> string \<Rightarrow> (int \<times> int) option res" where
  "parse_address bus dom_xml =
     bind_res (target_bus bus) (\<lambda>target.
     case strstr dom_xml target of
       None \<Rightarrow> Inr None
     | Some bus_p \<Rightarrow>
        (case strstr bus_p ''slot'' of
           None \<Rightarrow> Inr None
         | Some slot_p \<Rightarrow>
             bind_res (quoted_long slot_p) (\<lambda>(slot_val, p).
             case strstr p ''function'' of
               None \<Rightarrow> Inr None
             | Some funct_p \<Rightarrow>
                 bind_res (quoted_long funct_p) (\<lambda>(func_val, q). Inr (Some (slot_val, func_val))))))"

text \<open>The expression for \<open>vf_no\<close> is computed in \<open>long\<close>, whose overflow is undefined.\<close>

definition long_fits :: "int \<Rightarrow> bool" where
  "long_fits i \<longleftrightarrow> - (2 ^ 63) \<le> i \<and> i < 2 ^ 63"

definition vf_number :: "nuiod \<Rightarrow> int \<Rightarrow> int \<Rightarrow> int res" where
  "vf_number nd slot_val func_val =
     (let slots = slot_val - uint (netdev_pci_slot_val nd)
      in if long_fits slots \<and> long_fits (slots * 8) \<and> long_fits (func_val - 1) \<and> long_fits (slots * 8 + (func_val - 1))
         then Inr (long_to_int (slots * 8 + (func_val - 1))) else Inl Out_Of_Range)"

definition set_vf_no :: "string option \<Rightarrow> nuiod \<Rightarrow> int \<times> vm_info \<Rightarrow> (int \<times> vm_info) res" where
  "set_vf_no xml nd = (\<lambda>(flag, vm).
     case xml of
       None \<Rightarrow> Inr (-1, vm)
     | Some dom_xml \<Rightarrow>
         bind_res (parse_address (netdev_pci_bus_str nd) dom_xml) (\<lambda>addr.
         case addr of
           None \<Rightarrow> Inr (-1, vm)
         | Some (slot_val, func_val) \<Rightarrow>
             bind_res (vf_number nd slot_val func_val) (\<lambda>no. Inr (flag, vm\<lparr>vf_no := no\<rparr>))))"

definition set_vm_info :: "host \<Rightarrow> vir_ptr \<Rightarrow> int \<Rightarrow> vm_info \<Rightarrow> nuiod \<Rightarrow> (int \<times> vm_info \<times> nuiod) res" where
  "set_vm_info h ptr d vm nd =
     (let (flag, vm1, nd1) = set_real_cpu (h_vcpu h) ptr (vm\<lparr>dom_ptr := ptr, dom_id := d\<rparr>) nd
      in case h_name h ptr of
           None \<Rightarrow> Inl Null_Pointer
         | Some name \<Rightarrow>
             bind_res (set_name name (flag, vm1)) (\<lambda>fv.
             bind_res (set_distribution (h_file h) (mem_numa_number (mem_mon nd)) (set_pid (h_file h) name fv))
               (\<lambda>(flag2, vm2).
             bind_res (set_vf_no (h_xml h ptr) nd
                 (flag2, vm2\<lparr>mem_main_node_id := main_node (mem_node_distr vm2) (mem_main_node_id vm2)\<rparr>))
               (\<lambda>(flag3, vm3). Inr (flag3, vm3, nd1)))))"

text \<open>A fresh record enters the map and is filled in place.\<close>

definition register_vm :: "host \<Rightarrow> int \<Rightarrow> nuiod \<Rightarrow> (int \<times> nuiod) res" where
  "register_vm h d nd =
     (let vm = VM_info_init (h_vm_storage h);
          nd0 = nd\<lparr>vm_infos_map := map_assign d vm (vm_infos_map nd)\<rparr>
      in bind_res (set_vm_info h (h_lookup h d) d vm nd0) (\<lambda>(flag, vm', nd').
         Inr (flag, nd'\<lparr>vm_infos_map := map_assign d vm' (vm_infos_map nd')\<rparr>)))"

subsection \<open>The machines that run when the daemon starts\<close>

definition init_domain :: "host \<Rightarrow> int \<Rightarrow> int \<times> nuiod \<Rightarrow> (int \<times> nuiod) res" where
  "init_domain h d = (\<lambda>(ret, nd).
     bind_res (register_vm h d nd) (\<lambda>(flag, nd').
       Inr (if flag = -1 then -1 else ret, nd')))"

definition init_vminfo :: "host \<Rightarrow> nuiod \<Rightarrow> (int \<times> nuiod) res" where
  "init_vminfo h nd =
     (if h_num_domains h < 0 then Inl Uncaught
      else let (dom_num, ids) = h_list_domains h (h_num_domains h)
           in fold_res (\<lambda>i s. bind_res (vec_at ids i) (\<lambda>d. init_domain h d s))
                (map int [0..<nat dom_num]) (0, nd))"

subsection \<open>The events of libvirt\<close>

definition set_event :: "int \<Rightarrow> vir_event \<Rightarrow> nuiod \<Rightarrow> nuiod" where
  "set_event d ev nd =
     (case map_find (vm_infos_map nd) d of
        None \<Rightarrow> nd
      | Some vm \<Rightarrow> nd\<lparr>vm_infos_map := map_assign d (vm\<lparr>vm_event_state := ev\<rparr>) (vm_infos_map nd)\<rparr>)"

definition remove_vm :: "int \<Rightarrow> vm_info \<Rightarrow> nuiod \<Rightarrow> nuiod" where
  "remove_vm d vm nd =
     nd\<lparr>cpu_vm_mapping :=
           (if map_find (cpu_vm_mapping nd) (real_cpu_no vm) = Some (dom_id vm)
            then map_erase (real_cpu_no vm) (cpu_vm_mapping nd) else cpu_vm_mapping nd),
         vm_infos_map := map_erase d (vm_infos_map nd)\<rparr>"

definition handled_events :: "vir_event list" where
  "handled_events = [VIR_DOMAIN_EVENT_SUSPENDED, VIR_DOMAIN_EVENT_RESUMED, VIR_DOMAIN_EVENT_STOPPED,
     VIR_DOMAIN_EVENT_SHUTDOWN, VIR_DOMAIN_EVENT_CRASHED]"

definition turned_off :: "vir_event \<Rightarrow> vir_event \<Rightarrow> bool" where
  "turned_off lastVMEventState curEventState \<longleftrightarrow>
     (lastVMEventState = VIR_DOMAIN_EVENT_SHUTDOWN \<or> lastVMEventState = VIR_DOMAIN_EVENT_STOPPED) \<and>
     curEventState = VIR_DOMAIN_EVENT_STOPPED"

text \<open>
  For the other events the code takes the record behind the iterator that \<open>find\<close> returns before it compares
  the iterator with \<open>end()\<close>: for an unknown machine it dereferences the end of the map, and the branch
  that reports the error and returns -1 is never reached without that.
\<close>

definition handle_event :: "host \<Rightarrow> vir_ptr \<Rightarrow> vir_event \<Rightarrow> nuiod \<Rightarrow> (int \<times> nuiod) res" where
  "handle_event h dm event nd =
     (let domId = h_id h dm
      in if event = VIR_DOMAIN_EVENT_STARTED then
           bind_res (register_vm h domId nd) (\<lambda>(flag, nd').
             Inr (if flag = -1 then -1 else 0, set_event domId event nd'))
         else if event \<in> set handled_events then
           (case map_find (vm_infos_map nd) domId of
              None \<Rightarrow> Inl Bad_Iterator
            | Some vm \<Rightarrow>
                if turned_off (vm_event_state vm) event then Inr (0, remove_vm domId vm nd)
                else Inr (0, set_event domId event nd))
         else Inr (0, nd))"

text \<open>The callback itself; \<open>data\<close> is \<open>None\<close> when the pointer is \<open>NULL\<close>.\<close>

definition virVMEventCallBack ::
  "host \<Rightarrow> vir_ptr \<Rightarrow> vir_event \<Rightarrow> nuiod option \<Rightarrow> (int \<times> nuiod option) res" where
  "virVMEventCallBack h dm event data =
     (case data of
        None \<Rightarrow> Inr (-1, None)
      | Some nd \<Rightarrow> bind_res (handle_event h dm event nd) (\<lambda>(ret, nd'). Inr (ret, Some nd')))"

subsection \<open>What \<open>set_vm_info\<close> changes\<close>

lemma set_name_keeps:
  "set_name name (flag, vm) = Inr (flag', vm') \<Longrightarrow> \<exists>n. vm' = vm\<lparr>vm_name := n\<rparr>"
  by (auto simp: set_name_def Let_def split: if_splits intro: exI [of _ "vm_name vm"])

lemma set_pid_keeps: "\<exists>n. snd (set_pid fs name fv) = (snd fv)\<lparr>pid := n\<rparr>"
  by (auto simp: set_pid_def split: option.splits prod.splits intro: exI [of _ "pid (snd fv)"])

lemma set_distribution_keeps:
  "set_distribution fs number (flag, vm) = Inr (flag', vm') \<Longrightarrow> \<exists>n. vm' = vm\<lparr>mem_node_distr := n\<rparr>"
  by (auto simp: set_distribution_def res_simps)

lemma set_vf_no_keeps:
  "set_vf_no xml nd (flag, vm) = Inr (flag', vm') \<Longrightarrow> \<exists>n. vm' = vm\<lparr>vf_no := n\<rparr>"
  by (auto simp: set_vf_no_def res_simps split: option.splits intro: exI [of _ "vf_no vm"])

lemma set_vm_info_result:
  assumes "set_vm_info h ptr d vm nd = Inr (flag, vm', nd')"
  shows "dom_id vm' = d" "dom_ptr vm' = ptr" "vm_event_state vm' = vm_event_state vm"
    "real_cpu_no vm' = (if get_vm_real_cpu (h_vcpu h) ptr = -1 then real_cpu_no vm
       else get_vm_real_cpu (h_vcpu h) ptr)"
    "nd' = (if get_vm_real_cpu (h_vcpu h) ptr = -1 then nd
       else nd\<lparr>cpu_vm_mapping := map_insert (get_vm_real_cpu (h_vcpu h) ptr) d (cpu_vm_mapping nd)\<rparr>)"
proof -
  obtain f1 vm1 nd1 where 1: "set_real_cpu (h_vcpu h) ptr (vm\<lparr>dom_ptr := ptr, dom_id := d\<rparr>) nd = (f1, vm1, nd1)"
    by (cases "set_real_cpu (h_vcpu h) ptr (vm\<lparr>dom_ptr := ptr, dom_id := d\<rparr>) nd") auto
  obtain name f2 vm2 f3 vm3 f4 vm4 where r: "set_name name (f1, vm1) = Inr (f2, vm2)"
    "set_distribution (h_file h) (mem_numa_number (mem_mon nd)) (set_pid (h_file h) name (f2, vm2)) = Inr (f3, vm3)"
    "set_vf_no (h_xml h ptr) nd (f3, vm3\<lparr>mem_main_node_id := main_node (mem_node_distr vm3) (mem_main_node_id vm3)\<rparr>) =
       Inr (f4, vm')" "nd' = nd1"
    using assms by (auto simp: set_vm_info_def 1 res_simps split: option.splits)
  obtain n where n: "vm2 = vm1\<lparr>vm_name := n\<rparr>" using set_name_keeps [OF r(1)] by blast
  obtain q where q: "snd (set_pid (h_file h) name (f2, vm2)) = vm2\<lparr>pid := q\<rparr>"
    using set_pid_keeps [of "h_file h" name "(f2, vm2)"] by auto
  then obtain fl where fl: "set_pid (h_file h) name (f2, vm2) = (fl, vm2\<lparr>pid := q\<rparr>)" by (metis prod.collapse)
  obtain e where e: "vm3 = vm2\<lparr>pid := q, mem_node_distr := e\<rparr>"
    using set_distribution_keeps [OF r(2) [unfolded fl]] by auto
  obtain v where v: "vm' = vm3\<lparr>mem_main_node_id := main_node (mem_node_distr vm3) (mem_main_node_id vm3), vf_no := v\<rparr>"
    using set_vf_no_keeps [OF r(3)] by auto
  show "dom_id vm' = d" "dom_ptr vm' = ptr" "vm_event_state vm' = vm_event_state vm"
    "real_cpu_no vm' = (if get_vm_real_cpu (h_vcpu h) ptr = -1 then real_cpu_no vm
       else get_vm_real_cpu (h_vcpu h) ptr)"
    "nd' = (if get_vm_real_cpu (h_vcpu h) ptr = -1 then nd
       else nd\<lparr>cpu_vm_mapping := map_insert (get_vm_real_cpu (h_vcpu h) ptr) d (cpu_vm_mapping nd)\<rparr>)"
    using 1 r(4) by (auto simp: v e n set_real_cpu_def Let_def split: if_splits)
qed

subsection \<open>When \<open>set_vm_info\<close> returns\<close>

text \<open>The pages of a process are counted for nodes that are not negative.\<close>

definition pages_readable :: "(string \<Rightarrow> string option) \<Rightarrow> bool" where
  "pages_readable fs \<longleftrightarrow> (\<forall>q s. fs (numa_maps_path q) = Some s \<longrightarrow>
     (\<forall>t\<in>set (numa_maps_tokens s). char_at t = CHR ''N'' \<longrightarrow> 0 \<le> long_to_int (fst (strtol 10 (tl t)))))"

text \<open>After every \<open>slot\<close> or \<open>function\<close> of an XML text a quote follows somewhere.\<close>

definition attributes_quoted :: "string \<Rightarrow> bool" where
  "attributes_quoted xml \<longleftrightarrow> (\<forall>p q. (xml = p @ ''slot'' @ q \<or> xml = p @ ''function'' @ q) \<longrightarrow> quote \<in> set q)"

text \<open>The numbers of a PCI address that the code finds are 32-bit numbers at most.\<close>

definition address_small :: "string \<Rightarrow> string \<Rightarrow> bool" where
  "address_small bus xml \<longleftrightarrow> (case parse_address bus xml of
     Inr (Some (slot_val, func_val)) \<Rightarrow> \<bar>slot_val\<bar> < 2 ^ 32 \<and> \<bar>func_val\<bar> < 2 ^ 32 | _ \<Rightarrow> True)"

text \<open>The daemon can read what it needs about a machine.\<close>

definition vm_readable :: "host \<Rightarrow> nuiod \<Rightarrow> vir_ptr \<Rightarrow> bool" where
  "vm_readable h nd ptr \<longleftrightarrow>
     (\<exists>name. h_name h ptr = Some name \<and> length name < 2 ^ 31) \<and> pages_readable (h_file h) \<and>
     length (netdev_pci_bus_str nd) \<le> 4 \<and>
     (\<forall>xml. h_xml h ptr = Some xml \<longrightarrow> attributes_quoted xml \<and> address_small (netdev_pci_bus_str nd) xml)"

lemma strstr_suffix: "strstr s pat = Some q \<Longrightarrow> \<exists>p r. s = p @ q \<and> q = pat @ r"
proof (induction s)
  case (Cons c s)
  show ?case
  proof (cases "take (length pat) (c # s) = pat")
    case True
    then have "q = pat @ drop (length pat) (c # s) \<and> q = c # s"
      using Cons.prems append_take_drop_id [of "length pat" "c # s"] by (metis option.inject strstr.simps(2))
    then show ?thesis by (metis append_Nil)
  next
    case False
    then obtain p r where "s = p @ q" "q = pat @ r" using Cons by auto
    then show ?thesis by (intro exI [of _ "c # p"] exI [of _ r]) simp
  qed
qed (auto split: if_splits)

lemma scan_digits_suffix: "\<exists>p. s = p @ snd (scan_digits b n s)"
proof (induction s arbitrary: n)
  case (Cons c s)
  obtain p where "s = p @ snd (scan_digits b (n * b + digit_val c) s)" using Cons by blast
  then have "c # s = (c # p) @ snd (scan_digits b (n * b + digit_val c) s)" by simp
  then show ?case by (metis append_Nil scan_digits.simps(2) snd_conv)
qed simp

lemma strtol_suffix: "\<exists>p. s = p @ snd (strtol b s)"
proof (cases "scan_number b s")
  case (Some x)
  obtain neg n r where x: "x = (neg, n, r)" by (cases x) auto
  obtain b' d where d: "scan_prefix b (snd (scan_sign (skip_space s))) = (b', d)" "scan_digits b' 0 d = (n, r)"
    using Some by (auto simp: scan_number_def x split: prod.splits if_splits)
  obtain p1 where p1: "s = p1 @ skip_space s"
    using takeWhile_dropWhile_id [of isspace s] by (metis skip_space_def)
  obtain p2 where p2: "skip_space s = p2 @ snd (scan_sign (skip_space s))"
    by (cases "skip_space s") (force simp: scan_sign_def)+
  have "d = snd (scan_sign (skip_space s)) \<or> d = drop 2 (snd (scan_sign (skip_space s)))"
    using d(1) by (auto simp: scan_prefix_def split: if_splits)
  then obtain p3 where p3: "snd (scan_sign (skip_space s)) = p3 @ d"
    by (metis append_Nil append_take_drop_id)
  obtain p4 where "d = p4 @ r" using scan_digits_suffix [of d b' 0] d(2) by auto
  then have "s = (p1 @ p2 @ p3 @ p4) @ r" using p1 p2 p3 by (metis append.assoc)
  then show ?thesis using Some by (auto simp: strtol_def x)
qed (simp add: strtol_def)

lemma quoted_long_suffix:
  assumes "quote \<in> set s" shows "\<exists>v p. quoted_long s = Inr (v, drop (length p) s) \<and> s = p @ drop (length p) s"
proof -
  obtain p q where s: "s = p @ quote # q" "quote \<notin> set p" using assms split_list_first by metis
  have "\<forall>c\<in>set p. c \<noteq> quote" using s(2) by blast
  then have "dropWhile (\<lambda>c. c \<noteq> quote) s = quote # q" unfolding s(1) by (subst dropWhile_append2) simp_all
  moreover obtain p' where "q = p' @ snd (strtol 0 q)" using strtol_suffix by blast
  ultimately show ?thesis
    using s(1) by (intro exI [of _ "fst (strtol 0 q)"] exI [of _ "p @ quote # p'"])
      (simp add: quoted_long_def, metis append_eq_conv_conj prod.collapse)
qed

lemma parse_address_returns:
  assumes "length bus \<le> 4" "attributes_quoted xml" shows "\<exists>a. parse_address bus xml = Inr a"
proof -
  obtain t where t: "target_bus bus = Inr t" using assms(1) by (simp add: target_bus_def Let_def PCI_STR_LEN_def)
  show ?thesis
  proof (cases "strstr xml t")
    case (Some bus_p)
    obtain p1 where p1: "xml = p1 @ bus_p" using strstr_suffix [OF Some] by auto
    show ?thesis
    proof (cases "strstr bus_p ''slot''")
      case (Some slot_p)
      then obtain p2 where p2: "bus_p = p2 @ slot_p" "\<exists>q. slot_p = ''slot'' @ q" using strstr_suffix [OF Some] by blast
      then obtain q2 where q2: "slot_p = ''slot'' @ q2" by blast
      then have "xml = (p1 @ p2) @ ''slot'' @ q2" using p1 p2(1) by simp
      then have "quote \<in> set slot_p" using assms(2) q2 unfolding attributes_quoted_def by auto
      then obtain v p3 r where r: "quoted_long slot_p = Inr (v, r)" "slot_p = p3 @ r"
        using quoted_long_suffix by blast
      show ?thesis
      proof (cases "strstr r ''function''")
        case (Some funct_p)
        then obtain p4 where p4: "r = p4 @ funct_p" "\<exists>q. funct_p = ''function'' @ q" using strstr_suffix [OF Some] by blast
        then obtain q4 where q4: "funct_p = ''function'' @ q4" by blast
        then have "xml = (p1 @ p2 @ p3 @ p4) @ ''function'' @ q4" using p1 p2(1) r(2) p4(1) by simp
        then have "quote \<in> set funct_p" using assms(2) q4 unfolding attributes_quoted_def by auto
        then obtain w r' where "quoted_long funct_p = Inr (w, r')" using quoted_long_suffix by blast
        then show ?thesis using t \<open>strstr xml t = Some bus_p\<close> \<open>strstr bus_p ''slot'' = Some slot_p\<close> r(1) Some
          by (simp add: parse_address_def)
      qed (use t \<open>strstr xml t = Some bus_p\<close> \<open>strstr bus_p ''slot'' = Some slot_p\<close> r(1) in \<open>simp add: parse_address_def\<close>)
    qed (use t \<open>strstr xml t = Some bus_p\<close> in \<open>simp add: parse_address_def\<close>)
  qed (use t in \<open>simp add: parse_address_def\<close>)
qed

lemma numa_tokens_return:
  assumes "\<forall>t\<in>set ts. char_at t = CHR ''N'' \<longrightarrow> 0 \<le> long_to_int (fst (strtol 10 (tl t)))" "int (length np) = max 0 number"
  shows "\<exists>r np'. numa_tokens number ts np = Inr (r, np') \<and> length np' = length np"
  using assms
proof (induction ts arbitrary: np)
  case (Cons t ts)
  have "\<exists>r np'. numa_token number t np = Inr (r, np') \<and> length np' = length np"
    using Cons.prems by (auto simp: numa_token_def Let_def vec_at_def split: prod.splits)
  then obtain r np' where "numa_token number t np = Inr (r, np')" "length np' = length np" by blast
  then show ?case using Cons.IH [of np'] Cons.prems by (cases "r = -1") auto
qed simp

lemma distribution_returns:
  assumes "pages_readable fs" shows "\<exists>r np. get_proc_mem_numa_distribution fs number proc old = Inr (r, np)"
proof (cases "fs (numa_maps_path proc)")
  case (Some s)
  have "\<exists>r np. numa_tokens number (numa_maps_tokens s) (replicate (nat number) 0) = Inr (r, np) \<and>
      length np = length (replicate (nat number) (0 :: u32))"
    by (rule numa_tokens_return) (use assms Some in \<open>auto simp: pages_readable_def\<close>)
  then show ?thesis using Some by (auto simp: get_proc_mem_numa_distribution_def)
qed (simp add: get_proc_mem_numa_distribution_def)

lemma vf_number_small:
  assumes "\<bar>slot_val\<bar> < 2 ^ 32" "\<bar>func_val\<bar> < 2 ^ 32"
  shows "vf_number nd slot_val func_val =
    Inr (long_to_int ((slot_val - uint (netdev_pci_slot_val nd)) * 8 + (func_val - 1)))"
proof -
  obtain u where u: "uint (netdev_pci_slot_val nd) = u" by blast
  have "0 \<le> u" "u < 4294967296" using uint_lt2p [of "netdev_pci_slot_val nd"] uint_ge_0 [of "netdev_pci_slot_val nd"] by (simp_all add: u)
  moreover have "slot_val < 4294967296" "- 4294967296 < slot_val" "func_val < 4294967296" "- 4294967296 < func_val"
    using assms by simp_all
  ultimately show ?thesis unfolding vf_number_def long_fits_def u by simp
qed

lemma set_vf_no_returns:
  assumes "vm_readable h nd ptr" shows "\<exists>fv'. set_vf_no (h_xml h ptr) nd fv = Inr fv'"
proof (cases "h_xml h ptr")
  case (Some xml)
  then have r: "length (netdev_pci_bus_str nd) \<le> 4" "attributes_quoted xml" "address_small (netdev_pci_bus_str nd) xml"
    using assms by (auto simp: vm_readable_def)
  obtain a where a: "parse_address (netdev_pci_bus_str nd) xml = Inr a" using parse_address_returns [OF r(1,2)] by blast
  show ?thesis
  proof (cases a)
    case (Some sf)
    then have "\<bar>fst sf\<bar> < 2 ^ 32" "\<bar>snd sf\<bar> < 2 ^ 32" using r(3) a by (auto simp: address_small_def split: prod.splits)
    from vf_number_small [OF this, of nd] show ?thesis
      using \<open>h_xml h ptr = Some xml\<close> a Some by (cases fv; cases sf) (simp add: set_vf_no_def)
  qed (use Some a in \<open>cases fv; simp add: set_vf_no_def\<close>)
qed (cases fv; simp add: set_vf_no_def)

lemma set_vm_info_returns:
  assumes "vm_readable h nd ptr" shows "\<exists>flag vm' nd'. set_vm_info h ptr d vm nd = Inr (flag, vm', nd')"
proof -
  obtain name where name: "h_name h ptr = Some name" "length name < 2 ^ 31" using assms by (auto simp: vm_readable_def)
  have 1: "\<exists>fv'. set_name name fv = Inr fv'" for fv
    using size_to_int_small [OF name(2)] by (cases fv) (auto simp: set_name_def Let_def)
  have 2: "\<exists>fv'. set_distribution (h_file h) n fv = Inr fv'" for n fv
    using distribution_returns [of "h_file h" n "pid (snd fv)" "mem_node_distr (snd fv)"] assms
    by (cases fv) (auto simp: set_distribution_def vm_readable_def)
  have 3: "\<exists>fv'. set_vf_no (h_xml h ptr) nd fv = Inr fv'" for fv
    by (rule set_vf_no_returns [OF assms])
  obtain f1 vm1 nd1 where s: "set_real_cpu (h_vcpu h) ptr (vm\<lparr>dom_ptr := ptr, dom_id := d\<rparr>) nd = (f1, vm1, nd1)"
    by (cases "set_real_cpu (h_vcpu h) ptr (vm\<lparr>dom_ptr := ptr, dom_id := d\<rparr>) nd") auto
  obtain fv2 where "set_name name (f1, vm1) = Inr fv2" using 1 by blast
  moreover obtain f3 vm3 where "set_distribution (h_file h) (mem_numa_number (mem_mon nd)) (set_pid (h_file h) name fv2) = Inr (f3, vm3)"
    using 2 by (metis prod.collapse)
  moreover obtain f4 vm4 where "set_vf_no (h_xml h ptr) nd
      (f3, vm3\<lparr>mem_main_node_id := main_node (mem_node_distr vm3) (mem_main_node_id vm3)\<rparr>) = Inr (f4, vm4)"
    using 3 by (metis prod.collapse)
  ultimately show ?thesis using name(1) by (simp add: set_vm_info_def s)
qed

subsection \<open>The maps after a registration\<close>

text \<open>All of the state except the two maps of machines.\<close>

definition core :: "nuiod \<Rightarrow> nuiod" where
  "core nd = nd\<lparr>vm_infos_map := [], cpu_vm_mapping := []\<rparr>"

lemma core_simps [simp]:
  "core (nd\<lparr>vm_infos_map := m\<rparr>) = core nd" "core (nd\<lparr>cpu_vm_mapping := n\<rparr>) = core nd"
  by (simp_all add: core_def)

lemma core_fields:
  assumes "core nd' = core nd"
  shows "numa nd' = numa nd" "host_cpu_number nd' = host_cpu_number nd" "thread_mig nd' = thread_mig nd"
    "netdev_pci_bus_str nd' = netdev_pci_bus_str nd" "mem_mon nd' = mem_mon nd" "cpu_mon nd' = cpu_mon nd"
    "netdev_pci_slot_val nd' = netdev_pci_slot_val nd" "conn nd' = conn nd" "io_mon nd' = io_mon nd"
    "netdev_numanode nd' = netdev_numanode nd"
  using arg_cong [OF assms, of numa] arg_cong [OF assms, of host_cpu_number] arg_cong [OF assms, of thread_mig]
    arg_cong [OF assms, of netdev_pci_bus_str] arg_cong [OF assms, of mem_mon] arg_cong [OF assms, of cpu_mon]
    arg_cong [OF assms, of netdev_pci_slot_val] arg_cong [OF assms, of conn] arg_cong [OF assms, of io_mon]
    arg_cong [OF assms, of netdev_numanode]
  by (simp_all add: core_def)

lemma core_readable: "core nd' = core nd \<Longrightarrow> vm_readable h nd' ptr = vm_readable h nd ptr"
  unfolding vm_readable_def by (drule core_fields(4)) simp

lemma core_nodes_ok: "core nd' = core nd \<Longrightarrow> nodes_ok nd' = nodes_ok nd"
  unfolding nodes_ok_def by (frule core_fields(1), frule core_fields(2), drule core_fields(3)) simp

text \<open>The CPU a machine that is registered is found on, -1 when libvirt fails.\<close>

definition start_cpu :: "host \<Rightarrow> int \<Rightarrow> int" where
  "start_cpu h d = get_vm_real_cpu (h_vcpu h) (h_lookup h d)"

lemma register_result:
  assumes "maps_ok nd" "register_vm h d nd = Inr (flag, nd')"
  obtains vm where "vm_at nd' = (vm_at nd)(d \<mapsto> vm)" "dom_id vm = d" "dom_ptr vm = h_lookup h d"
    "real_cpu_no vm = start_cpu h d" "vm_event_state vm = VIR_DOMAIN_EVENT_UNDEFINED" "maps_ok nd'" "core nd' = core nd"
    "occupant nd' = (if start_cpu h d = -1 \<or> occupant nd (start_cpu h d) \<noteq> None then occupant nd
       else (occupant nd)(start_cpu h d \<mapsto> d))"
proof -
  let ?vm = "VM_info_init (h_vm_storage h)"
  let ?nd0 = "nd\<lparr>vm_infos_map := map_assign d ?vm (vm_infos_map nd)\<rparr>"
  obtain vm nd1 where 1: "set_vm_info h (h_lookup h d) d ?vm ?nd0 = Inr (flag, vm, nd1)"
    "nd' = nd1\<lparr>vm_infos_map := map_assign d vm (vm_infos_map nd1)\<rparr>"
    using assms(2) by (auto simp: register_vm_def Let_def res_simps)
  note r = set_vm_info_result [OF 1(1), folded start_cpu_def]
  have ok: "map_ok (vm_infos_map nd)" "map_ok (cpu_vm_mapping nd)" using assms(1) by (simp_all add: maps_ok_def)
  have m: "vm_infos_map nd1 = map_assign d ?vm (vm_infos_map nd)" by (simp add: r(5))
  have at: "vm_at nd' = (vm_at nd)(d \<mapsto> vm)"
    using ok(1) by (simp add: vm_at_def 1(2) m vmap.find_assign vmap.ok_assign)
  have occ: "occupant nd' = (if start_cpu h d = -1 \<or> occupant nd (start_cpu h d) \<noteq> None then occupant nd
       else (occupant nd)(start_cpu h d \<mapsto> d))"
    using ok(2) by (auto simp: occupant_def 1(2) r(5) map_find_insert fun_eq_iff)
  have "map_ok (cpu_vm_mapping nd')" using ok(2) by (simp add: 1(2) r(5) map_ok_insert)
  moreover have "map_ok (vm_infos_map nd')" using ok(1) by (simp add: 1(2) m vmap.ok_assign)
  ultimately have "maps_ok nd'" using assms(1) r(1) by (auto simp: maps_ok_def at)
  moreover have "core nd' = core nd" by (simp add: 1(2) r(5))
  moreover have "real_cpu_no vm = start_cpu h d" using r(4) by simp
  moreover have "vm_event_state vm = VIR_DOMAIN_EVENT_UNDEFINED" using r(3) by (simp add: VM_info_init_def)
  ultimately show ?thesis using that [OF at r(1,2)] occ by simp
qed

lemma register_returns:
  assumes "vm_readable h nd (h_lookup h d)" shows "\<exists>flag nd'. register_vm h d nd = Inr (flag, nd')"
proof -
  let ?vm = "VM_info_init (h_vm_storage h)"
  have "vm_readable h (nd\<lparr>vm_infos_map := m\<rparr>) (h_lookup h d)" for m using assms by (simp add: vm_readable_def)
  from set_vm_info_returns [OF this, of d ?vm "map_assign d ?vm (vm_infos_map nd)"]
  show ?thesis by (auto simp: register_vm_def Let_def)
qed

lemma register_mapping_ok:
  assumes "mapping_ok nd" "vm_at nd d = None" "register_vm h d nd = Inr (flag, nd')"
  shows "mapping_ok nd'"
proof -
  note m = mapping_ok_maps [OF assms(1)]
  obtain vm where v: "vm_at nd' = (vm_at nd)(d \<mapsto> vm)" "real_cpu_no vm = start_cpu h d" "maps_ok nd'"
    "occupant nd' = (if start_cpu h d = -1 \<or> occupant nd (start_cpu h d) \<noteq> None then occupant nd
       else (occupant nd)(start_cpu h d \<mapsto> d))"
    using register_result [OF m assms(3)] by metis
  have "\<exists>vm. vm_at nd' e = Some vm \<and> real_cpu_no vm = c" if "occupant nd' c = Some e" for c e
    using that mapping_okD [OF assms(1), of c e] assms(2) by (auto simp: v(1,2,4) split: if_splits)
  then show ?thesis using v(3) by (simp add: mapping_ok_def)
qed

text \<open>A machine that starts on a CPU nobody is known on.\<close>

lemma register_exact:
  assumes "exact nd" "vm_at nd d = None" "register_vm h d nd = Inr (flag, nd')"
    "start_cpu h d = -1 \<or> occupant nd (start_cpu h d) = None"
  shows "exact nd'"
proof -
  note ok = exact_mapping_ok [OF assms(1)]
  obtain vm where v: "vm_at nd' = (vm_at nd)(d \<mapsto> vm)" "real_cpu_no vm = start_cpu h d"
    "occupant nd' = (if start_cpu h d = -1 \<or> occupant nd (start_cpu h d) \<noteq> None then occupant nd
       else (occupant nd)(start_cpu h d \<mapsto> d))"
    using register_result [OF mapping_ok_maps [OF ok] assms(3)] by metis
  have "occupant nd' (real_cpu_no w) = Some e" if "vm_at nd' e = Some w" "real_cpu_no w \<noteq> -1" for e w
  proof (cases "e = d")
    case True
    then have "w = vm" using that(1) by (simp add: v(1))
    then show ?thesis using that(2) assms(4) True v(2) by (auto simp: v(3))
  next
    case False
    then show ?thesis using that exactD [OF assms(1), of e w] by (auto simp: v(1,3))
  qed
  then show ?thesis using register_mapping_ok [OF ok assms(2,3)] by (simp add: exact_def)
qed

subsection \<open>The maps after an event\<close>

lemma set_event_views:
  assumes "maps_ok nd" "vm_at nd d = Some vm"
  shows "vm_at (set_event d ev nd) = (vm_at nd)(d \<mapsto> vm\<lparr>vm_event_state := ev\<rparr>)"
    "occupant (set_event d ev nd) = occupant nd" "maps_ok (set_event d ev nd)" "core (set_event d ev nd) = core nd"
proof -
  have f: "map_find (vm_infos_map nd) d = Some vm" using assms(2) by (simp add: vm_at_def)
  have ok: "map_ok (vm_infos_map nd)" using assms(1) by (simp add: maps_ok_def)
  show v: "vm_at (set_event d ev nd) = (vm_at nd)(d \<mapsto> vm\<lparr>vm_event_state := ev\<rparr>)"
    by (simp add: set_event_def f vm_at_def vmap.find_assign [OF ok])
  show "occupant (set_event d ev nd) = occupant nd" "core (set_event d ev nd) = core nd"
    by (simp_all add: set_event_def f occupant_def)
  have "dom_id vm = d" using assms by (simp add: maps_ok_def)
  moreover have "map_ok (vm_infos_map (set_event d ev nd))" "cpu_vm_mapping (set_event d ev nd) = cpu_vm_mapping nd"
    by (simp_all add: set_event_def f vmap.ok_assign [OF ok])
  ultimately show "maps_ok (set_event d ev nd)" using assms(1) by (auto simp: maps_ok_def v)
qed

lemma set_event_mapping_ok:
  assumes "mapping_ok nd" "vm_at nd d = Some vm" shows "mapping_ok (set_event d ev nd)"
  using set_event_views [OF mapping_ok_maps [OF assms(1)] assms(2), of ev] assms mapping_okD [OF assms(1)]
  by (fastforce simp: mapping_ok_def)

lemma remove_vm_views:
  assumes "maps_ok nd" "vm_at nd d = Some vm"
  shows "vm_at (remove_vm d vm nd) = (vm_at nd)(d := None)"
    "occupant (remove_vm d vm nd) =
       (if occupant nd (real_cpu_no vm) = Some d then (occupant nd)(real_cpu_no vm := None) else occupant nd)"
    "maps_ok (remove_vm d vm nd)" "core (remove_vm d vm nd) = core nd"
proof -
  have ok: "map_ok (vm_infos_map nd)" "map_ok (cpu_vm_mapping nd)" "dom_id vm = d" using assms by (auto simp: maps_ok_def)
  show v: "vm_at (remove_vm d vm nd) = (vm_at nd)(d := None)"
    using ok(1) by (simp add: vm_at_def remove_vm_def vmap.find_erase)
  show "occupant (remove_vm d vm nd) =
       (if occupant nd (real_cpu_no vm) = Some d then (occupant nd)(real_cpu_no vm := None) else occupant nd)"
    using ok by (simp add: occupant_def remove_vm_def vmap.find_erase)
  show "core (remove_vm d vm nd) = core nd" by (simp add: remove_vm_def core_def)
  have "map_ok (vm_infos_map (remove_vm d vm nd))" "map_ok (cpu_vm_mapping (remove_vm d vm nd))"
    using ok by (simp_all add: remove_vm_def vmap.ok_erase)
  then show "maps_ok (remove_vm d vm nd)" using assms(1) by (auto simp: maps_ok_def v)
qed

lemma remove_vm_mapping_ok:
  assumes "mapping_ok nd" "vm_at nd d = Some vm" shows "mapping_ok (remove_vm d vm nd)"
proof -
  note v = remove_vm_views [OF mapping_ok_maps [OF assms(1)] assms(2)]
  have "e \<noteq> d" if "occupant (remove_vm d vm nd) c = Some e" for c e
    using that mapping_ok_cpu [OF assms(1), of c d vm] assms(2) by (auto simp: v(2) split: if_splits)
  moreover have "occupant nd c = Some e" if "occupant (remove_vm d vm nd) c = Some e" for c e
    using that by (auto simp: v(2) split: if_splits)
  ultimately have "\<exists>w. vm_at (remove_vm d vm nd) e = Some w \<and> real_cpu_no w = c"
    if "occupant (remove_vm d vm nd) c = Some e" for c e
    using that mapping_okD [OF assms(1), of c e] by (simp add: v(1))
  then show ?thesis using v(3) by (simp add: mapping_ok_def)
qed

subsection \<open>The life of a machine\<close>

text \<open>
  What the daemon remembers of a machine, as an automaton: nothing, or the last
  event. It has a fault of its own: nothing is remembered of the machine an event
  is about. A run of events comes with the host each handler sees; the event loop of
  libvirt ignores the return values.
\<close>

definition lc_step :: "vir_event \<Rightarrow> vir_event option \<Rightarrow> vir_event option res" where
  "lc_step ev st =
     (case ev of
        VIR_DOMAIN_EVENT_STARTED \<Rightarrow> Inr (Some ev)
      | VIR_DOMAIN_EVENT_DEFINED \<Rightarrow> Inr st
      | VIR_DOMAIN_EVENT_UNDEFINED \<Rightarrow> Inr st
      | VIR_DOMAIN_EVENT_PMSUSPENDED \<Rightarrow> Inr st
      | VIR_DOMAIN_EVENT_STOPPED \<Rightarrow>
          (case st of None \<Rightarrow> Inl Bad_Iterator
           | Some last_ev \<Rightarrow>
               Inr (if last_ev \<in> {VIR_DOMAIN_EVENT_SHUTDOWN, VIR_DOMAIN_EVENT_STOPPED} then None else Some ev))
      | _ \<Rightarrow> (case st of None \<Rightarrow> Inl Bad_Iterator | Some last_ev \<Rightarrow> Inr (Some ev)))"

lemma lc_step_eq:
  "lc_step ev st =
     (if ev = VIR_DOMAIN_EVENT_STARTED then Inr (Some ev)
      else if ev \<in> set handled_events then
        (case st of None \<Rightarrow> Inl Bad_Iterator | Some last_ev \<Rightarrow> Inr (if turned_off last_ev ev then None else Some ev))
      else Inr st)"
  by (cases ev; cases st) (simp_all add: lc_step_def handled_events_def turned_off_def)

definition lc_state :: "nuiod \<Rightarrow> int \<Rightarrow> vir_event option" where
  "lc_state nd d = map_option vm_event_state (vm_at nd d)"

type_synonym vir_notification = "host \<times> vir_ptr \<times> vir_event"

definition run_event :: "vir_notification \<Rightarrow> nuiod \<Rightarrow> nuiod res" where
  "run_event n nd = (case n of (h, dm, ev) \<Rightarrow> bind_res (handle_event h dm ev nd) (\<lambda>(ret, nd'). Inr nd'))"

definition notification_ok :: "nuiod \<Rightarrow> vir_notification \<Rightarrow> bool" where
  "notification_ok nd n =
     (case n of (h, dm, ev) \<Rightarrow> ev = VIR_DOMAIN_EVENT_STARTED \<longrightarrow> vm_readable h nd (h_lookup h (h_id h dm)))"

text \<open>The automaton of machine \<open>d\<close> over a run of notifications, of which it sees its own only.\<close>

definition lc_run :: "int \<Rightarrow> vir_notification list \<Rightarrow> vir_event option \<Rightarrow> vir_event option res" where
  "lc_run d ns st = fold_res (\<lambda>(h, dm, ev) st. if h_id h dm = d then lc_step ev st else Inr st) ns st"

lemma lc_run_Nil [simp]: "lc_run d [] st = Inr st"
  by (simp add: lc_run_def)

lemma lc_run_Cons [simp]:
  "lc_run d ((h, dm, ev) # ns) st = (if h_id h dm = d then bind_res (lc_step ev st) (lc_run d ns) else lc_run d ns st)"
  unfolding lc_run_def [abs_def] by simp

lemma started_not_handled: "VIR_DOMAIN_EVENT_STARTED \<notin> set handled_events"
  by (simp add: handled_events_def)

lemma handle_event_started:
  assumes "vm_readable h nd (h_lookup h (h_id h dm))"
  shows "\<exists>flag nd1. register_vm h (h_id h dm) nd = Inr (flag, nd1) \<and>
    handle_event h dm VIR_DOMAIN_EVENT_STARTED nd =
      Inr (if flag = -1 then -1 else 0, set_event (h_id h dm) VIR_DOMAIN_EVENT_STARTED nd1)"
  using register_returns [OF assms] by (auto simp: handle_event_def)

lemma handle_event_unknown:
  assumes "ev \<in> set handled_events" "vm_at nd (h_id h dm) = None"
  shows "handle_event h dm ev nd = Inl Bad_Iterator" "lc_step ev (lc_state nd (h_id h dm)) = Inl Bad_Iterator"
  using assms started_not_handled by (auto simp: handle_event_def Let_def lc_step_eq lc_state_def vm_at_def)

text \<open>An event that is not about an unknown machine.\<close>

definition known_machine :: "nuiod \<Rightarrow> vir_notification \<Rightarrow> bool" where
  "known_machine nd n = (case n of (h, dm, ev) \<Rightarrow> ev \<in> set handled_events \<longrightarrow> vm_at nd (h_id h dm) \<noteq> None)"

lemma handle_event_step:
  assumes "maps_ok nd" "notification_ok nd (h, dm, ev)" "known_machine nd (h, dm, ev)"
  shows "\<exists>ret nd'. handle_event h dm ev nd = Inr (ret, nd') \<and> maps_ok nd' \<and> core nd' = core nd \<and>
    (\<forall>d. (if d = h_id h dm then lc_step ev (lc_state nd d) else Inr (lc_state nd d)) = Inr (lc_state nd' d)) \<and>
    (mapping_ok nd \<longrightarrow> (ev = VIR_DOMAIN_EVENT_STARTED \<longrightarrow> vm_at nd (h_id h dm) = None) \<longrightarrow> mapping_ok nd')"
proof -
  let ?d = "h_id h dm"
  consider (start) "ev = VIR_DOMAIN_EVENT_STARTED"
    | (known) vm where "ev \<noteq> VIR_DOMAIN_EVENT_STARTED" "ev \<in> set handled_events" "vm_at nd ?d = Some vm"
    | (other) "ev \<noteq> VIR_DOMAIN_EVENT_STARTED" "ev \<notin> set handled_events"
    using assms(3) by (cases "vm_at nd ?d") (auto simp: known_machine_def)
  then show ?thesis
  proof cases
    case start
    then obtain flag nd1 where r: "register_vm h ?d nd = Inr (flag, nd1)"
      "handle_event h dm ev nd = Inr (if flag = -1 then -1 else 0, set_event ?d ev nd1)"
      using handle_event_started [of h nd dm] assms(2) by (auto simp: notification_ok_def)
    obtain vm where v: "vm_at nd1 = (vm_at nd)(?d \<mapsto> vm)" "maps_ok nd1" "core nd1 = core nd"
      using register_result [OF assms(1) r(1)] by metis
    then have at: "vm_at nd1 ?d = Some vm" by simp
    note e = set_event_views [OF v(2) at, of ev]
    have "mapping_ok (set_event ?d ev nd1)" if "mapping_ok nd" "vm_at nd ?d = None"
      by (rule set_event_mapping_ok [OF register_mapping_ok [OF that r(1)] at])
    then show ?thesis using r(2) e v start by (auto simp: lc_state_def lc_step_eq)
  next
    case (known vm)
    then have f: "map_find (vm_infos_map nd) ?d = Some vm" by (simp add: vm_at_def)
    show ?thesis
    proof (cases "turned_off (vm_event_state vm) ev")
      case True
      then show ?thesis
        using known f remove_vm_views [OF assms(1) known(3)] remove_vm_mapping_ok [OF _ known(3)]
        by (auto simp: handle_event_def Let_def lc_state_def lc_step_eq)
    next
      case False
      then show ?thesis
        using known f set_event_views [OF assms(1) known(3), of ev] set_event_mapping_ok [OF _ known(3), of ev]
        by (auto simp: handle_event_def Let_def lc_state_def lc_step_eq)
    qed
  next
    case other
    then show ?thesis using assms(1) by (simp add: handle_event_def Let_def lc_step_eq)
  qed
qed

text \<open>What is left of a machine that stops.\<close>

lemma handle_event_stopped:
  assumes "mapping_ok nd" "vm_at nd (h_id h dm) = Some vm"
    "handle_event h dm VIR_DOMAIN_EVENT_STOPPED nd = Inr (ret, nd')" "d = h_id h dm"
  shows "ret = 0 \<and>
      (if vm_event_state vm \<in> {VIR_DOMAIN_EVENT_SHUTDOWN, VIR_DOMAIN_EVENT_STOPPED}
       then vm_at nd' = (vm_at nd)(d := None) \<and>
         occupant nd' = (\<lambda>c. if occupant nd c = Some d then None else occupant nd c)
       else vm_at nd' = (vm_at nd)(d \<mapsto> vm\<lparr>vm_event_state := VIR_DOMAIN_EVENT_STOPPED\<rparr>) \<and>
         occupant nd' = occupant nd)"
proof -
  note m = mapping_ok_maps [OF assms(1)]
  have at: "vm_at nd d = Some vm" and f: "map_find (vm_infos_map nd) d = Some vm" using assms(2,4) by (simp_all add: vm_at_def)
  show ?thesis
  proof (cases "vm_event_state vm \<in> {VIR_DOMAIN_EVENT_SHUTDOWN, VIR_DOMAIN_EVENT_STOPPED}")
    case True
    have "occupant (remove_vm d vm nd) c = (if occupant nd c = Some d then None else occupant nd c)" for c
      unfolding remove_vm_views(2) [OF m at]
      using mapping_ok_cpu [OF assms(1) _ at, of c] by (cases "c = real_cpu_no vm") auto
    then have "occupant (remove_vm d vm nd) = (\<lambda>c. if occupant nd c = Some d then None else occupant nd c)" by (rule ext)
    then show ?thesis
      using True f assms(3,4) remove_vm_views(1) [OF m at]
      by (auto simp: handle_event_def Let_def handled_events_def turned_off_def)
  next
    case False
    then show ?thesis
      using f assms(3,4) set_event_views(1,2) [OF m at]
      by (auto simp: handle_event_def Let_def handled_events_def turned_off_def)
  qed
qed

subsection \<open>Reading the host\<close>

text \<open>The main node is the first one with the most pages.\<close>

lemma main_node_fold:
  assumes "n \<le> length distr" "fold (main_node_step distr) [0..<n] (0, old) = (p, m)"
  shows "(p = 0 \<and> m = old \<and> (\<forall>k<n. distr ! k = 0)) \<or>
    (\<exists>j<n. m = int j \<and> p = distr ! j \<and> p \<noteq> 0 \<and> (\<forall>k<n. distr ! k \<le> p) \<and> (\<forall>k<j. distr ! k < p))"
  using assms
proof (induction n arbitrary: p m)
  case (Suc n)
  obtain q l where ql: "fold (main_node_step distr) [0..<n] (0, old) = (q, l)" by (meson surj_pair)
  note ih = Suc.IH [OF _ ql]
  have pm: "(p, m) = (if q < distr ! n then (distr ! n, int n) else (q, l))"
    using Suc.prems(2) ql by (simp add: main_node_step_def [of distr n])
  have n: "n \<le> length distr" using Suc.prems(1) by simp
  show ?case
  proof (cases "q < distr ! n")
    case True
    then have "distr ! k < distr ! n" if "k < n" for k
      using ih [OF n] that by (metis le_less_trans word_not_simps(1) word_gt_0 order_le_less)
    then show ?thesis using True pm
      by (intro disjI2 exI [of _ n]) (auto simp: less_Suc_eq order.strict_implies_order word_not_simps)
  next
    case False
    then have le: "distr ! n \<le> q" "(p, m) = (q, l)" using pm by auto
    from ih [OF n] show ?thesis
    proof
      assume "q = 0 \<and> l = old \<and> (\<forall>k<n. distr ! k = 0)"
      then show ?thesis using le by (auto simp: less_Suc_eq)
    next
      assume "\<exists>j<n. l = int j \<and> q = distr ! j \<and> q \<noteq> 0 \<and> (\<forall>k<n. distr ! k \<le> q) \<and> (\<forall>k<j. distr ! k < q)"
      then obtain j where "j < n" "l = int j" "q = distr ! j" "q \<noteq> 0" "\<forall>k<n. distr ! k \<le> q" "\<forall>k<j. distr ! k < q" by blast
      then show ?thesis using le by (intro disjI2 exI [of _ j]) (auto simp: less_Suc_eq)
    qed
  qed
qed simp

lemma main_node_max:
  assumes "k < length distr" "distr ! k \<noteq> 0"
  shows "\<exists>j<length distr. main_node distr old = int j \<and> (\<forall>i<length distr. distr ! i \<le> distr ! j) \<and>
    (\<forall>i<j. distr ! i < distr ! j)"
proof -
  obtain p m where pm: "fold (main_node_step distr) [0..<length distr] (0, old) = (p, m)" by (meson surj_pair)
  then have "main_node distr old = m" by (simp add: main_node_def)
  then show ?thesis using main_node_fold [OF order_refl pm] assms by auto
qed

lemma main_node_no_pages: "\<forall>k<length distr. distr ! k = 0 \<Longrightarrow> main_node distr old = old"
proof -
  assume z: "\<forall>k<length distr. distr ! k = 0"
  obtain p m where pm: "fold (main_node_step distr) [0..<length distr] (0, old) = (p, m)" by (meson surj_pair)
  then have "main_node distr old = m" by (simp add: main_node_def)
  then show ?thesis using main_node_fold [OF order_refl pm] z by auto
qed

lemma strstr_skip: "hd pat \<notin> set p \<Longrightarrow> pat \<noteq> [] \<Longrightarrow> strstr (p @ s) pat = strstr s pat"
proof (induction p)
  case (Cons c p)
  then have "take (length pat) (c # p @ s) \<noteq> pat" by (cases pat) auto
  then show ?case using Cons by simp
qed simp

text \<open>A number printed as \<open>0x\<close> and hexadecimal digits, read in base 0.\<close>

lemma strtol_0x:
  assumes "hex_ok (''0x'' @ ds)" "\<not> digit_val (char_at r) < 16"
  shows "strtol 0 (''0x'' @ ds @ r) = (int (hex_value (''0x'' @ ds)), r)"
proof -
  have d: "ds \<noteq> []" "length ds < 6" "\<forall>c\<in>set ds. digit_val c < 16" using assms(1) by (auto simp: hex_ok_def hex_digits_def PCI_STR_LEN_def)
  then have c: "digit_val (char_at (ds @ r)) < 16" by (cases ds) (auto simp: char_at_def)
  have "scan_digits 16 0 (ds @ r) = (hex_value (''0x'' @ ds), r)"
    using d(3) scan_digits_hex [OF d(3), of 0] scan_digits_stop [OF assms(2)]
    by (subst scan_digits_append) (simp_all add: hex_value_def hex_digits_def)
  then have "scan_number 0 (''0x'' @ ds @ r) = Some (False, hex_value (''0x'' @ ds), r)"
    using c by (simp add: scan_number_def skip_space_def scan_sign_def scan_prefix_def hex_prefix_def
        char_at_def isspace_def)
  moreover have "hex_value (''0x'' @ ds) < 2 ^ 63"
  proof -
    have "hex_value (''0x'' @ ds) < 16 ^ length ds" using hex_value_less [OF d(3), of 0] by (simp add: hex_value_def hex_digits_def)
    also have "\<dots> \<le> 16 ^ 7" using d(2) by (intro power_increasing) auto
    finally show ?thesis by simp
  qed
  ultimately show ?thesis by (simp add: strtol_def)
qed

text \<open>The attributes of a PCI address from its bus on, as libvirt prints them.\<close>

definition address_text :: "string \<Rightarrow> string \<Rightarrow> string \<Rightarrow> string" where
  "address_text bus s f =
     ''bus='' @ quote # bus @ [quote] @ '' slot='' @ quote # ''0x'' @ s @ [quote] @ '' function='' @ quote # ''0x'' @ f @ [quote]"

lemma quoted_long_value:
  assumes "hex_ok (''0x'' @ ds)" "quote \<notin> set p"
  shows "quoted_long (p @ quote # ''0x'' @ ds @ quote # r) = Inr (int (hex_value (''0x'' @ ds)), quote # r)"
proof -
  have "\<forall>c\<in>set p. c \<noteq> quote" using assms(2) by blast
  then have "dropWhile (\<lambda>c. c \<noteq> quote) (p @ quote # ''0x'' @ ds @ quote # r) = quote # ''0x'' @ ds @ quote # r"
    by (subst dropWhile_append2) simp_all
  then show ?thesis
    using strtol_0x [OF assms(1), of "quote # r"] by (simp add: quoted_long_def char_at_def digit_val_def)
qed

lemma parse_address_text:
  assumes "hex_ok bus" "length bus \<le> 4" "hex_ok (''0x'' @ s)" "hex_ok (''0x'' @ f)"
    "strstr xml (''bus='' @ quote # bus @ [quote]) = Some (address_text bus s f @ rest)"
  shows "parse_address bus xml = Inr (Some (int (hex_value (''0x'' @ s)), int (hex_value (''0x'' @ f))))"
proof -
  let ?q = "''='' @ quote # ''0x'' @ s @ quote # '' function='' @ quote # ''0x'' @ f @ quote # rest"
  let ?r = "''='' @ quote # ''0x'' @ f @ quote # rest"
  have "target_bus bus = Inr (''bus='' @ quote # bus @ [quote])"
    using assms(2) by (simp add: target_bus_def Let_def PCI_STR_LEN_def)
  moreover have "strstr (address_text bus s f @ rest) ''slot'' = Some (''slot'' @ ?q)"
    using strstr_skip [of "''slot''" "bus @ [quote, CHR '' '']" "''slot'' @ ?q"] strstr_prefix [of "''slot''" ?q]
      hex_avoids(4) [OF assms(1)] by (simp add: address_text_def)
  moreover have "quoted_long (''slot'' @ ?q) = Inr (int (hex_value (''0x'' @ s)), quote # '' function'' @ ?r)"
    using quoted_long_value [OF assms(3), of "''slot=''" "'' function='' @ quote # ''0x'' @ f @ quote # rest"] by simp
  moreover have "strstr (quote # '' function'' @ ?r) ''function'' = Some (''function'' @ ?r)"
    using strstr_prefix [of "''function''" ?r] by simp
  moreover have "quoted_long (''function'' @ ?r) = Inr (int (hex_value (''0x'' @ f)), quote # rest)"
    using quoted_long_value [OF assms(4), of "''function=''" rest] by simp
  ultimately show ?thesis using assms(5) by (simp add: parse_address_def)
qed

text \<open>What the host says about a machine that libvirt describes completely: its CPU and name, a file with the number
  of its process, the lines of \<open>numa_maps\<close>, and a PCI address on the bus of the network card in its XML text.\<close>

definition described ::
  "host \<Rightarrow> nuiod \<Rightarrow> int \<Rightarrow> int \<Rightarrow> string \<Rightarrow> nat \<Rightarrow> numa_tok list list \<Rightarrow> string \<Rightarrow> string \<Rightarrow> bool" where
  "described h nd d c name q tss s f \<longleftrightarrow>
     (let number = mem_numa_number (mem_mon nd); bus = netdev_pci_bus_str nd
      in start_cpu h d = c \<and> c \<noteq> -1 \<and>
         h_name h (h_lookup h d) = Some name \<and> length name \<le> 37 \<and>
         (\<exists>r. h_file h (''/var/run/libvirt/qemu/'' @ name @ ''.pid'') = Some (show_nat q @ r) \<and> \<not> digit_val (char_at r) < 10) \<and>
         q < 2 ^ 32 \<and>
         h_file h (numa_maps_path (of_nat q)) =
           Some (concat (map (\<lambda>ts. numa_line (map tok_str ts) @ [newline]) tss)) \<and>
         list_all (\<lambda>ts. list_all (tok_ok number) ts \<and> length (numa_line (map tok_str ts)) < 255) tss \<and>
         number < 2 ^ 31 \<and> hex_ok bus \<and> length bus \<le> 4 \<and> hex_ok (''0x'' @ s) \<and> hex_ok (''0x'' @ f) \<and>
         uint (netdev_pci_slot_val nd) < 2 ^ 20 \<and>
         (\<exists>xml rest. h_xml h (h_lookup h d) = Some xml \<and>
            strstr xml (''bus='' @ quote # bus @ [quote]) = Some (address_text bus s f @ rest)))"

lemma hex_value_0x_less:
  assumes "hex_ok (''0x'' @ s)" shows "hex_value (''0x'' @ s) < 2 ^ 20"
proof -
  have s: "\<forall>c\<in>set s. digit_val c < 16" "length s < 6" using assms by (auto simp: hex_ok_def hex_digits_def PCI_STR_LEN_def)
  have "hex_value (''0x'' @ s) < 16 ^ length s" using hex_value_less [OF s(1), of 0] by (simp add: hex_value_def hex_digits_def)
  also have "\<dots> \<le> 16 ^ 5" using s(2) by (intro power_increasing) auto
  finally show ?thesis by simp
qed

lemma set_pid_text:
  assumes "length name \<le> 37" "fs (''/var/run/libvirt/qemu/'' @ name @ ''.pid'') = Some (show_nat q @ r)" "q < 2 ^ 32"
    "\<not> digit_val (char_at r) < 10"
  shows "set_pid fs name (flag, vm) = (flag, vm\<lparr>pid := of_nat q\<rparr>)"
proof -
  have "pid_path name = ''/var/run/libvirt/qemu/'' @ name @ ''.pid''"
    using assms(1) by (simp add: pid_path_def snprintf_def MAX_PATH_LEN_def)
  moreover have "scan_u (show_nat q @ r) = Some (ucast (of_nat q :: u64), r)"
    using scan_number_show_nat [OF assms(4), of "[]" q] strtoul_show_nat [OF _ assms(4), of q "[]"] assms(3)
    by (simp add: scan_u_def)
  moreover have "ucast (of_nat q :: u64) = (of_nat q :: u32)" by (rule bit_word_eqI) (auto simp: bit_simps)
  ultimately show ?thesis using assms(2) by (simp add: set_pid_def)
qed

lemma vf_number_fits:
  assumes "0 \<le> a" "a < 1048576" "0 \<le> b" "b < 1048576" "uint (netdev_pci_slot_val nd) < 1048576"
  shows "vf_number nd a b = Inr ((a - uint (netdev_pci_slot_val nd)) * 8 + (b - 1))"
proof -
  obtain u where u: "uint (netdev_pci_slot_val nd) = u" by blast
  then have "0 \<le> u" "u < 1048576" using assms(5) uint_ge_0 [of "netdev_pci_slot_val nd"] by simp_all
  then have "long_to_int ((a - u) * 8 + (b - 1)) = (a - u) * 8 + (b - 1)"
    by (intro long_to_int_small) (use assms(1-4) in simp_all)
  then show ?thesis using vf_number_small [of a b nd] assms(1-4) by (simp add: u)
qed

lemma register_described:
  assumes "maps_ok nd" "described h nd d c name q tss s f"
  shows "\<exists>nd' vm distr. register_vm h d nd = Inr (0, nd') \<and> vm_at nd' = (vm_at nd)(d \<mapsto> vm) \<and>
    vm_name vm = name \<and> pid vm = of_nat q \<and> dom_id vm = d \<and> real_cpu_no vm = c \<and>
    distr = map (\<lambda>k. of_nat (\<Sum>t\<leftarrow>concat tss. pages_on k t)) [0..<nat (mem_numa_number (mem_mon nd))] \<and>
    mem_node_distr vm = distr \<and> mem_main_node_id vm = main_node distr (mem_main_node_id (h_vm_storage h)) \<and>
    vf_no vm = (int (hex_value (''0x'' @ s)) - uint (netdev_pci_slot_val nd)) * 8 + int (hex_value (''0x'' @ f)) - 1"
proof -
  let ?ptr = "h_lookup h d" and ?vm = "VM_info_init (h_vm_storage h)"
  let ?nd0 = "nd\<lparr>vm_infos_map := map_assign d ?vm (vm_infos_map nd)\<rparr>"
  let ?distr = "map (\<lambda>k. of_nat (\<Sum>t\<leftarrow>concat tss. pages_on k t)) [0..<nat (mem_numa_number (mem_mon nd))]"
  let ?v = "(int (hex_value (''0x'' @ s)) - uint (netdev_pci_slot_val nd)) * 8 + (int (hex_value (''0x'' @ f)) - 1)"
  let ?vm1 = "(?vm\<lparr>dom_ptr := ?ptr, dom_id := d\<rparr>)\<lparr>real_cpu_no := c\<rparr>"
  obtain xml rest where x: "h_xml h ?ptr = Some xml" "strstr xml (''bus='' @ quote # netdev_pci_bus_str nd @ [quote]) =
      Some (address_text (netdev_pci_bus_str nd) s f @ rest)"
    using assms(2) by (auto simp: described_def Let_def)
  have a: "start_cpu h d = c" "c \<noteq> -1" "h_name h ?ptr = Some name" "length name \<le> 37" "q < 2 ^ 32"
    "h_file h (numa_maps_path (of_nat q)) = Some (concat (map (\<lambda>ts. numa_line (map tok_str ts) @ [newline]) tss))"
    "list_all (\<lambda>ts. list_all (tok_ok (mem_numa_number (mem_mon nd))) ts \<and> length (numa_line (map tok_str ts)) < 255) tss"
    "mem_numa_number (mem_mon nd) < 2 ^ 31" "hex_ok (netdev_pci_bus_str nd)" "length (netdev_pci_bus_str nd) \<le> 4"
    "hex_ok (''0x'' @ s)" "hex_ok (''0x'' @ f)" "uint (netdev_pci_slot_val nd) < 2 ^ 20"
    using assms(2) by (simp_all add: described_def Let_def)
  obtain r where r: "h_file h (''/var/run/libvirt/qemu/'' @ name @ ''.pid'') = Some (show_nat q @ r)" "\<not> digit_val (char_at r) < 10"
    using assms(2) by (auto simp: described_def Let_def)
  have 1: "set_real_cpu (h_vcpu h) ?ptr (?vm\<lparr>dom_ptr := ?ptr, dom_id := d\<rparr>) ?nd0 =
      (0, ?vm1, ?nd0\<lparr>cpu_vm_mapping := map_insert c d (cpu_vm_mapping nd)\<rparr>)"
    using a(1,2) by (simp add: set_real_cpu_def Let_def start_cpu_def)
  have 2: "set_name name (0, v) = Inr (0, v\<lparr>vm_name := name\<rparr>)" for v
    using a(4) size_to_int_small [of "length name"] by (simp add: set_name_def VM_NAME_LEN_def)
  have 3: "set_pid (h_file h) name (0, v) = (0, v\<lparr>pid := of_nat q\<rparr>)" for v by (rule set_pid_text [where fs = "h_file h", OF a(4) r(1) a(5) r(2)])
  have 4: "set_distribution (h_file h) (mem_numa_number (mem_mon nd)) (0, v\<lparr>pid := of_nat q\<rparr>) =
      Inr (0, v\<lparr>pid := of_nat q, mem_node_distr := ?distr\<rparr>)" for v
    by (simp add: set_distribution_def distribution_counts [where fs = "h_file h", OF a(6,7,8)])
  have "int (hex_value (''0x'' @ s)) < 1048576" "int (hex_value (''0x'' @ f)) < 1048576"
    "uint (netdev_pci_slot_val nd) < 1048576"
    using hex_value_0x_less [OF a(11)] hex_value_0x_less [OF a(12)] a(13) by simp_all
  then have "vf_number ?nd0 (int (hex_value (''0x'' @ s))) (int (hex_value (''0x'' @ f))) = Inr ?v"
    by (subst vf_number_fits) simp_all
  then have 5: "set_vf_no (h_xml h ?ptr) ?nd0 (0, v) = Inr (0, v\<lparr>vf_no := ?v\<rparr>)" for v
    using parse_address_text [OF a(9,10,11,12) x(2)] by (simp add: set_vf_no_def x(1))
  let ?vm' = "?vm1\<lparr>vm_name := name, pid := of_nat q, mem_node_distr := ?distr,
     mem_main_node_id := main_node ?distr (mem_main_node_id ?vm), vf_no := ?v\<rparr>"
  obtain vm' where vm': "vm' = ?vm'" by blast
  have 6: "set_vm_info h ?ptr d ?vm ?nd0 = Inr (0, vm', ?nd0\<lparr>cpu_vm_mapping := map_insert c d (cpu_vm_mapping nd)\<rparr>)"
    by (simp add: set_vm_info_def 1 a(3) 2 3 4 5 vm')
  then obtain nd' where r: "register_vm h d nd = Inr (0, nd')" "vm_infos_map nd' = map_assign d vm' (map_assign d ?vm (vm_infos_map nd))"
    by (simp add: register_vm_def)
  have "map_ok (vm_infos_map nd)" using assms(1) by (simp add: maps_ok_def)
  then have "vm_at nd' = (vm_at nd)(d \<mapsto> vm')" by (simp add: vm_at_def r(2) vmap.find_assign vmap.ok_assign)
  then show ?thesis using r(1) by (intro exI [of _ nd'] exI [of _ vm'] exI [of _ ?distr]) (simp add: vm')
qed

subsection \<open>The running machines\<close>

text \<open>No two of the machines start on the same CPU.\<close>

definition distinct_starts :: "host \<Rightarrow> int list \<Rightarrow> bool" where
  "distinct_starts h ids \<longleftrightarrow> distinct (filter (\<lambda>c. c \<noteq> -1) (map (start_cpu h) ids))"

definition running :: "host \<Rightarrow> nuiod \<Rightarrow> int \<Rightarrow> bool" where
  "running h nd d \<longleftrightarrow> (\<exists>vm. vm_at nd d = Some vm \<and> real_cpu_no vm = start_cpu h d \<and> dom_ptr vm = h_lookup h d)"

lemma init_domains:
  assumes "\<forall>d\<in>set ids. vm_readable h nd (h_lookup h d)" "distinct ids" "set ids \<inter> dom (vm_at nd) = {}" "mapping_ok nd"
  shows "\<exists>ret' nd'. fold_res (init_domain h) ids (ret, nd) = Inr (ret', nd') \<and> ret' \<in> {ret, -1} \<and>
    mapping_ok nd' \<and> core nd' = core nd \<and> (\<forall>d\<in>set ids. running h nd' d) \<and>
    (\<forall>d. d \<notin> set ids \<longrightarrow> vm_at nd' d = vm_at nd d) \<and>
    (exact nd \<and> distinct_starts h ids \<and> (\<forall>d\<in>set ids. start_cpu h d = -1 \<or> occupant nd (start_cpu h d) = None) \<longrightarrow> exact nd')"
  using assms
proof (induction ids arbitrary: ret nd)
  case Nil
  then show ?case by (intro exI [of _ ret] exI [of _ nd]) simp
next
  case (Cons d ids)
  obtain flag nd1 where r: "register_vm h d nd = Inr (flag, nd1)" using register_returns [of h nd d] Cons.prems(1) by auto
  have d: "vm_at nd d = None" using Cons.prems(3) by auto
  obtain vm where v: "vm_at nd1 = (vm_at nd)(d \<mapsto> vm)" "dom_ptr vm = h_lookup h d" "real_cpu_no vm = start_cpu h d"
    "core nd1 = core nd"
    "occupant nd1 = (if start_cpu h d = -1 \<or> occupant nd (start_cpu h d) \<noteq> None then occupant nd
       else (occupant nd)(start_cpu h d \<mapsto> d))"
    using register_result [OF mapping_ok_maps [OF Cons.prems(4)] r] by metis
  have p1: "\<forall>e\<in>set ids. vm_readable h nd1 (h_lookup h e)" using Cons.prems(1) core_readable [OF v(4)] by simp
  have p2: "distinct ids" "set ids \<inter> dom (vm_at nd1) = {}" using Cons.prems(2,3) by (auto simp: v(1) dom_def)
  have p3: "mapping_ok nd1" by (rule register_mapping_ok [OF Cons.prems(4) d r])
  from Cons.IH [OF p1 p2 p3, of "if flag = -1 then -1 else ret"] obtain ret' nd' where i: "fold_res (init_domain h) ids (if flag = -1 then -1 else ret, nd1) = Inr (ret', nd')"
    "ret' \<in> {if flag = -1 then -1 else ret, -1}" "mapping_ok nd'" "core nd' = core nd1" "\<forall>e\<in>set ids. running h nd' e"
    "\<forall>e. e \<notin> set ids \<longrightarrow> vm_at nd' e = vm_at nd1 e"
    "exact nd1 \<and> distinct_starts h ids \<and> (\<forall>e\<in>set ids. start_cpu h e = -1 \<or> occupant nd1 (start_cpu h e) = None) \<longrightarrow> exact nd'"
    by (elim exE conjE) (rule that)
  have "running h nd' d" using i(6) Cons.prems(2) v(1-3) by (auto simp: running_def)
  moreover have "exact nd'"
    if e: "exact nd" "distinct_starts h (d # ids)" "\<forall>e\<in>set (d # ids). start_cpu h e = -1 \<or> occupant nd (start_cpu h e) = None"
  proof -
    have e1: "exact nd1" by (rule register_exact [OF e(1) d r]) (use e(3) in auto)
    have e2: "start_cpu h x = -1 \<or> occupant nd1 (start_cpu h x) = None" if "x \<in> set ids" for x
    proof (cases "start_cpu h x = -1")
      case False
      then have "start_cpu h x \<in> set (filter (\<lambda>c. c \<noteq> -1) (map (start_cpu h) ids))" using that by simp
      then have "start_cpu h x \<noteq> start_cpu h d" using e(2) False by (auto simp: distinct_starts_def split: if_splits)
      moreover have "occupant nd (start_cpu h x) = None" using e(3) that False by auto
      ultimately show ?thesis unfolding v(5) by simp
    qed simp
    have e3: "distinct_starts h ids" using e(2) by (auto simp: distinct_starts_def split: if_splits)
    show ?thesis by (intro mp [OF i(7)] conjI ballI e1 e2 e3)
  qed
  moreover have "fold_res (init_domain h) (d # ids) (ret, nd) = Inr (ret', nd')" using i(1) r by (simp add: init_domain_def)
  moreover have "ret' \<in> {ret, -1}" using i(2) by auto
  moreover have "vm_at nd' e = vm_at nd e" if "e \<notin> set (d # ids)" for e using that i(6) v(1) by simp
  ultimately show ?case using i(3-5) v(4) by (intro exI [of _ ret'] exI [of _ nd']) simp
qed

text \<open>The flag of a registration depends on the host and the part of the state that no registration changes.\<close>

lemma set_vm_info_core:
  assumes "core nd' = core nd" "set_vm_info h ptr d vm nd = Inr (flag, vm', nd1)"
  shows "\<exists>nd1'. set_vm_info h ptr d vm nd' = Inr (flag, vm', nd1')"
proof -
  note c = core_fields [OF assms(1)]
  have vf: "vf_number nd' = vf_number nd" by (simp add: vf_number_def fun_eq_iff c)
  have "set_vf_no xml nd' = set_vf_no xml nd" for xml unfolding set_vf_no_def vf c ..
  moreover have "fst (set_real_cpu v p w nd') = fst (set_real_cpu v p w nd)"
    "fst (snd (set_real_cpu v p w nd')) = fst (snd (set_real_cpu v p w nd))" for v p w
    by (simp_all add: set_real_cpu_def Let_def)
  ultimately show ?thesis
    using assms(2) by (auto simp: set_vm_info_def Let_def c(5) case_prod_beta res_simps split: option.splits)
qed

lemma register_flag_core:
  assumes "core nd' = core nd" "register_vm h d nd = Inr (flag, nd1)"
  shows "\<exists>nd1'. register_vm h d nd' = Inr (flag, nd1')"
proof -
  let ?vm = "VM_info_init (h_vm_storage h)"
  have "core (nd'\<lparr>vm_infos_map := map_assign d ?vm (vm_infos_map nd')\<rparr>) =
      core (nd\<lparr>vm_infos_map := map_assign d ?vm (vm_infos_map nd)\<rparr>)" using assms(1) by simp
  from set_vm_info_core [OF this] show ?thesis
    using assms(2) unfolding register_vm_def Let_def bind_res_eq_Inr by (auto simp: bind_res_eq_Inr) blast
qed

lemma register_core:
  assumes "register_vm h d nd = Inr (flag, nd1)" shows "core nd1 = core nd"
  using assms by (auto simp: register_vm_def Let_def res_simps dest!: set_vm_info_result(5))

text \<open>The result is -1 when the registration of one of the machines says so.\<close>

lemma init_domains_flag:
  assumes "fold_res (init_domain h) ids (ret, nd) = Inr (ret', nd')"
  shows "ret' = (if \<exists>d\<in>set ids. \<exists>nd1. register_vm h d nd = Inr (-1, nd1) then -1 else ret)"
  using assms
proof (induction ids arbitrary: ret nd)
  case (Cons d ids)
  then obtain s where s: "init_domain h d (ret, nd) = Inr s" "fold_res (init_domain h) ids s = Inr (ret', nd')"
    by (cases "init_domain h d (ret, nd)") simp_all
  then obtain flag nd1 where r: "register_vm h d nd = Inr (flag, nd1)" "s = (if flag = -1 then -1 else ret, nd1)"
    by (auto simp: init_domain_def res_simps)
  note r = r(1) s(2) [unfolded r(2)]
  have "(\<exists>n. register_vm h e nd1 = Inr (-1, n)) \<longleftrightarrow> (\<exists>n. register_vm h e nd = Inr (-1, n))" for e
    using register_flag_core [of nd1 nd h e] register_flag_core [of nd nd1 h e] register_core [OF r(1)] by metis
  then have "(\<exists>e\<in>set (d # ids). \<exists>n. register_vm h e nd = Inr (-1, n)) \<longleftrightarrow>
      flag = -1 \<or> (\<exists>e\<in>set ids. \<exists>n. register_vm h e nd1 = Inr (-1, n))"
    using r(1) by auto
  then show ?case using Cons.IH [OF r(2)] by auto
qed simp

subsection \<open>An example host\<close>

text \<open>One machine \<open>vm1\<close> with the identifier 7, process 77, on CPU 3, with pages on two nodes.\<close>

definition ex_tokens :: "numa_tok list list" where
  "ex_tokens = [[Text ''7f00'', Text ''default'', Pages 0 3, Pages 1 2], [Text ''7f80'', Pages 1 40]]"

definition ex_xml :: string where
  "ex_xml = ''<address domain='' @ quote # ''0x0000'' @ quote # CHR '' '' # address_text ''0x06'' ''10'' ''4'' @ ''/>''"

definition ex_host :: host where
  "ex_host = \<lparr>h_vcpu = (\<lambda>p. (1, 3)), h_pin = (\<lambda>_ _ _ _. 0), h_name = (\<lambda>p. Some ''vm1''),
     h_xml = (\<lambda>p. Some ex_xml), h_lookup = (\<lambda>d. Some d),
     h_id = (\<lambda>p. case p of None \<Rightarrow> -1 | Some d \<Rightarrow> d), h_num_domains = 1, h_list_domains = (\<lambda>n. (1, [7])),
     h_file = (\<lambda>p. if p = ''/var/run/libvirt/qemu/vm1.pid'' then Some (show_nat 77 @ [newline])
        else if p = numa_maps_path 77
        then Some (concat (map (\<lambda>ts. numa_line (map tok_str ts) @ [newline]) ex_tokens)) else None),
     h_now = (\<lambda>d. (0, 0)), h_cells = (\<lambda>n. (-1, [])), h_perf = (\<lambda>d. Some []),
     h_vm_storage = zeroed_vm, h_stack = replicate 128 NUL\<rparr>"

definition ex_conf_daemon :: nuiod where
  "ex_conf_daemon = (ex_daemon 0 1 [(0, 1), (1, 2)])\<lparr>netdev_pci_bus_str := ''0x06'', netdev_pci_slot_val := 16\<rparr>"

lemma ex_conf_exact: "exact ex_conf_daemon"
  using ex_daemon_exact [of 0 1]
  by (simp add: ex_conf_daemon_def exact_def mapping_ok_def maps_ok_def vm_at_def occupant_def)

lemma ex_conf_views:
  "vm_at ex_conf_daemon = [1 \<mapsto> ex_cpu_vm 1 0, 2 \<mapsto> ex_cpu_vm 2 1]" "occupant ex_conf_daemon = map_find [(0, 1), (1, 2)]"
  using ex_daemon_views [of 0 1 "[(0, 1), (1, 2)]"] by (simp_all add: ex_conf_daemon_def vm_at_def occupant_def)

lemma ex_conf_fields [simp]:
  "netdev_pci_bus_str ex_conf_daemon = ''0x06''" "netdev_pci_slot_val ex_conf_daemon = 16"
  "mem_numa_number (mem_mon ex_conf_daemon) = 2"
  by (simp_all add: ex_conf_daemon_def ex_daemon_def Nuiod_new_def Mem_monitor_new_def)

lemma ex_described: "described ex_host ex_conf_daemon 7 3 ''vm1'' 77 ex_tokens ''10'' ''4''"
proof -
  have "numa_maps_path 77 \<noteq> ''/var/run/libvirt/qemu/vm1.pid''"
    by (simp add: numa_maps_path_def snprintf_def)
  moreover have "strstr ex_xml (''bus='' @ quote # ''0x06'' @ [quote]) = Some (address_text ''0x06'' ''10'' ''4'' @ ''/>'')"
    by (simp add: ex_xml_def address_text_def)
  ultimately show ?thesis
    by (auto simp: described_def ex_host_def start_cpu_def get_vm_real_cpu_def hex_ok_def hex_digits_def PCI_STR_LEN_def
        digit_val_def ex_tokens_def plain_def is_delimiter_def char_at_def show_nat.simps)
qed

lemma ex_tokens_ok: "\<forall>ts\<in>set ex_tokens. list_all (tok_ok 2) ts \<and> length (numa_line (map tok_str ts)) < 255"
  by (simp add: ex_tokens_def plain_def is_delimiter_def char_at_def show_nat.simps)

lemma ex_maps_tokens: "numa_maps_tokens (concat (map (\<lambda>ts. numa_line (map tok_str ts) @ [newline]) ex_tokens)) =
    map tok_str (concat ex_tokens)"
proof -
  have "list_all (\<lambda>ts. list_all plain ts \<and> length (numa_line ts) < 255) (map (map tok_str) ex_tokens)"
    using ex_tokens_ok tok_plain [of 2] by (auto simp: list_all_iff)
  from numa_maps_tokens_lines [OF this] show ?thesis by (simp add: map_concat o_def)
qed

lemma last_quote:
  assumes "c \<notin> set b" "c \<noteq> quote" "a @ quote # b = p @ c # q" shows "quote \<in> set q"
proof -
  have "\<exists>us. a = p @ us \<and> us @ quote # b = c # q \<or> a @ us = p \<and> quote # b = us @ c # q"
    using assms(3) by (simp add: append_eq_append_conv2)
  then obtain us where "us @ quote # b = c # q \<or> quote # b = us @ c # q" by blast
  then show ?thesis using assms(1,2) by (cases us) auto
qed

lemma attributes_quotedI:
  assumes "xml = a @ quote # b" "CHR ''t'' \<notin> set b" "CHR ''n'' \<notin> set b" shows "attributes_quoted xml"
  unfolding attributes_quoted_def
proof (intro allI impI)
  fix p q assume "xml = p @ ''slot'' @ q \<or> xml = p @ ''function'' @ q"
  then consider "a @ quote # b = (p @ ''slo'') @ CHR ''t'' # q" | "a @ quote # b = (p @ ''functio'') @ CHR ''n'' # q"
    using assms(1) by auto
  then show "quote \<in> set q"
    using last_quote [OF assms(2), of a "p @ ''slo''" q] last_quote [OF assms(3), of a "p @ ''functio''" q] by cases auto
qed

lemma ex_host_readable:
  assumes "netdev_pci_bus_str nd = ''0x06''" shows "vm_readable ex_host nd ptr"
proof -
  have x: "strstr ex_xml (''bus='' @ quote # ''0x06'' @ [quote]) = Some (address_text ''0x06'' ''10'' ''4'' @ ''/>'')"
    by (simp add: ex_xml_def address_text_def)
  have "parse_address ''0x06'' ex_xml = Inr (Some (int (hex_value (''0x'' @ ''10'')), int (hex_value (''0x'' @ ''4''))))"
    by (rule parse_address_text [OF _ _ _ _ x]) (simp_all add: hex_ok_def hex_digits_def PCI_STR_LEN_def digit_val_def)
  then have "address_small ''0x06'' ex_xml"
    by (simp add: address_small_def hex_value_def hex_digits_def digit_val_def)
  moreover
  have "pages_readable (h_file ex_host)"
    unfolding pages_readable_def
  proof (intro allI impI ballI)
    fix q s t assume f: "h_file ex_host (numa_maps_path q) = Some s" "t \<in> set (numa_maps_tokens s)" "char_at t = CHR ''N''"
    have "numa_maps_path q \<noteq> ''/var/run/libvirt/qemu/vm1.pid''" by (simp add: numa_maps_path_def snprintf_def)
    then have "t \<in> set (map tok_str (concat ex_tokens))"
      using f(1,2) ex_maps_tokens by (auto simp: ex_host_def split: if_splits)
    then obtain x where x: "x \<in> set (concat ex_tokens)" "t = tok_str x" by auto
    then have ok: "tok_ok 2 x" using ex_tokens_ok by (auto simp: list_all_iff)
    then obtain k n where k: "x = Pages k n" "k < 2" using x(2) f(3) by (cases x) auto
    have "strtol 10 (show_nat k @ CHR ''='' # show_nat n) = (int k, CHR ''='' # show_nat n)"
      by (rule strtol_show_nat) (use k(2) in \<open>simp_all add: char_at_def digit_val_def\<close>)
    then show "0 \<le> long_to_int (fst (strtol 10 (tl t)))" using k x(2) by (simp add: long_to_int_small)
  qed
  moreover have "attributes_quoted ex_xml"
    by (rule attributes_quotedI [of _ "''<address domain='' @ quote # ''0x0000'' @ quote # CHR '' '' #
        ''bus='' @ quote # ''0x06'' @ [quote] @ '' slot='' @ quote # ''0x10'' @ [quote] @ '' function='' @ quote # ''0x4''" "''/>''"])
      (simp_all add: ex_xml_def address_text_def)
  ultimately show ?thesis using assms by (simp add: vm_readable_def ex_host_def)
qed

subsection \<open>Properties\<close>

text \<open>C15. A machine that libvirt describes completely and that has pages on some node is registered without an error: the record gets
  its name, process, CPU, pages per node and virtual function, the main node is the first one with
  the most pages, and the machine becomes the occupant of its CPU unless there is one already.\<close>

theorem registration_reads_the_host:
  assumes "maps_ok nd" "described h nd d c name q tss s f"
    "distr = map (\<lambda>k. of_nat (\<Sum>t\<leftarrow>concat tss. pages_on k t)) [0..<nat (mem_numa_number (mem_mon nd))]"
    "i < length distr" "distr ! i \<noteq> 0"
  shows "\<exists>nd' vm. register_vm h d nd = Inr (0, nd') \<and> vm_at nd' = (vm_at nd)(d \<mapsto> vm) \<and>
    vm_name vm = name \<and> pid vm = of_nat q \<and> dom_id vm = d \<and> real_cpu_no vm = c \<and> mem_node_distr vm = distr \<and>
    vf_no vm = (int (hex_value (''0x'' @ s)) - uint (netdev_pci_slot_val nd)) * 8 + int (hex_value (''0x'' @ f)) - 1 \<and>
    (\<exists>j<length distr. mem_main_node_id vm = int j \<and> (\<forall>k<length distr. distr ! k \<le> distr ! j) \<and> (\<forall>k<j. distr ! k < distr ! j)) \<and>
    occupant nd' c = (case occupant nd c of None \<Rightarrow> Some d | Some e \<Rightarrow> Some e)"
proof -
  obtain nd' vm where r: "register_vm h d nd = Inr (0, nd')" "vm_at nd' = (vm_at nd)(d \<mapsto> vm)"
    "vm_name vm = name" "pid vm = of_nat q" "dom_id vm = d" "real_cpu_no vm = c" "mem_node_distr vm = distr"
    "mem_main_node_id vm = main_node distr (mem_main_node_id (h_vm_storage h))"
    "vf_no vm = (int (hex_value (''0x'' @ s)) - uint (netdev_pci_slot_val nd)) * 8 + int (hex_value (''0x'' @ f)) - 1"
    using register_described [OF assms(1,2)] assms(3) by blast
  have "start_cpu h d = c" "c \<noteq> -1" using assms(2) by (auto simp: described_def Let_def)
  moreover have "occupant nd' = (if start_cpu h d = -1 \<or> occupant nd (start_cpu h d) \<noteq> None then occupant nd
       else (occupant nd)(start_cpu h d \<mapsto> d))"
    using register_result [OF assms(1) r(1)] by metis
  ultimately have "occupant nd' c = (case occupant nd c of None \<Rightarrow> Some d | Some e \<Rightarrow> Some e)"
    by (cases "occupant nd c") simp_all
  then show ?thesis
    using r main_node_max [OF assms(4,5), of "mem_main_node_id (h_vm_storage h)"] by (intro exI [of _ nd'] exI [of _ vm]) simp
qed

theorem registration_reads_the_host_witness:
  "\<exists>nd' vm. register_vm ex_host 7 ex_conf_daemon = Inr (0, nd') \<and> vm_at nd' 7 = Some vm \<and> vm_name vm = ''vm1'' \<and>
    mem_node_distr vm = [3, 42] \<and> vf_no vm = 3 \<and> mem_main_node_id vm = 1 \<and> occupant nd' 3 = Some 7"
proof -
  have d: "[3, 42] = map (\<lambda>k. of_nat (\<Sum>t\<leftarrow>concat ex_tokens. pages_on k t)) [0..<nat (mem_numa_number (mem_mon ex_conf_daemon))]"
    by (simp add: ex_tokens_def upt_conv_Cons)
  have i: "1 < length [3, 42 :: u32]" "[3, 42 :: u32] ! 1 \<noteq> 0" by simp_all
  from registration_reads_the_host [OF mapping_ok_maps [OF exact_mapping_ok [OF ex_conf_exact]] ex_described d i]
  obtain nd' vm j where r: "register_vm ex_host 7 ex_conf_daemon = Inr (0, nd')" "vm_at nd' = (vm_at ex_conf_daemon)(7 \<mapsto> vm)"
    "vm_name vm = ''vm1''" "mem_node_distr vm = [3, 42]"
    "vf_no vm = (int (hex_value (''0x'' @ ''10'')) - uint (netdev_pci_slot_val ex_conf_daemon)) * 8 + int (hex_value (''0x'' @ ''4'')) - 1"
    "j < length [3, 42 :: u32]" "mem_main_node_id vm = int j" "\<forall>k<length [3, 42 :: u32]. [3, 42 :: u32] ! k \<le> [3, 42] ! j"
    "occupant nd' 3 = (case occupant ex_conf_daemon 3 of None \<Rightarrow> Some 7 | Some e \<Rightarrow> Some e)"
    by (elim exE conjE) (rule that, assumption+)
  have "j = 1" using r(6) r(8) [rule_format, of 1] by (cases j) simp_all
  then show ?thesis
    using r by (intro exI [of _ nd'] exI [of _ vm])
      (simp add: ex_conf_views map_find_def hex_value_def hex_digits_def digit_val_def)
qed

text \<open>C14. Starting the daemon on a host that can be read registers exactly the running machines, each with
  the CPU libvirt reports, keeps the invariant of the mapping, and the mapping is exact when no two
  machines run on the same CPU. The result is -1 when the registration of one of the machines reports
  that something about it could not be read, and 0 otherwise; all of them are registered in either case.\<close>

theorem init_registers_running_machines:
  assumes "vm_infos_map nd = []" "cpu_vm_mapping nd = []" "0 \<le> h_num_domains h"
    "h_list_domains h (h_num_domains h) = (int (length ids), ids)" "distinct ids"
    "\<forall>d\<in>set ids. vm_readable h nd (h_lookup h d)"
  shows "\<exists>ret nd'. init_vminfo h nd = Inr (ret, nd') \<and> mapping_ok nd' \<and> core nd' = core nd \<and>
    ret = (if \<exists>d\<in>set ids. \<exists>nd1. register_vm h d nd = Inr (-1, nd1) then -1 else 0) \<and>
    dom (vm_at nd') = set ids \<and> (\<forall>d\<in>set ids. running h nd' d) \<and> (distinct_starts h ids \<longrightarrow> exact nd')"
proof -
  have e: "exact nd" "vm_at nd = (\<lambda>_. None)" "occupant nd = (\<lambda>_. None)"
    using assms(1,2) by (simp_all add: exact_def mapping_ok_def maps_ok_def vm_at_def occupant_def fun_eq_iff)
  have e0: "set ids \<inter> dom (vm_at nd) = {}" by (simp add: e(2))
  from init_domains [OF assms(6,5) e0 exact_mapping_ok [OF e(1)], of 0]
  obtain ret nd' where r: "fold_res (init_domain h) ids (0, nd) = Inr (ret, nd')" "ret \<in> {0, -1}" "mapping_ok nd'"
    "core nd' = core nd" "\<forall>d\<in>set ids. running h nd' d" "\<forall>d. d \<notin> set ids \<longrightarrow> vm_at nd' d = vm_at nd d"
    "exact nd \<and> distinct_starts h ids \<and> (\<forall>d\<in>set ids. start_cpu h d = -1 \<or> occupant nd (start_cpu h d) = None) \<longrightarrow> exact nd'"
    by (elim exE conjE) (rule that)
  have "init_vminfo h nd = Inr (ret, nd')"
    using r(1) assms(3,4) fold_res_vec_at [of ids "init_domain h" "(0, nd)"] by (simp add: init_vminfo_def)
  moreover have "dom (vm_at nd') = set ids"
    using r(5,6) e(2) by (auto simp: running_def dom_def)
  ultimately show ?thesis
    using init_domains_flag [OF r(1)] r(3-5,7) e(1,3) by (intro exI [of _ ret] exI [of _ nd']) simp
qed

theorem init_registers_running_machines_witness:
  "\<exists>nd'. init_vminfo ex_host (ex_conf_daemon\<lparr>vm_infos_map := [], cpu_vm_mapping := []\<rparr>) = Inr (0, nd') \<and>
    dom (vm_at nd') = {7} \<and> exact nd'"
proof -
  let ?nd = "ex_conf_daemon\<lparr>vm_infos_map := [], cpu_vm_mapping := []\<rparr>"
  have "\<exists>ret nd'. init_vminfo ex_host ?nd = Inr (ret, nd') \<and> mapping_ok nd' \<and> core nd' = core ?nd \<and>
    ret = (if \<exists>d\<in>set [7]. \<exists>nd1. register_vm ex_host d ?nd = Inr (-1, nd1) then -1 else 0) \<and>
    dom (vm_at nd') = set [7] \<and> (\<forall>d\<in>set [7]. running ex_host nd' d) \<and> (distinct_starts ex_host [7] \<longrightarrow> exact nd')"
    by (rule init_registers_running_machines) (simp_all add: ex_host_readable, simp_all add: ex_host_def)
  moreover have "distinct_starts ex_host [7]" by (simp add: distinct_starts_def)
  moreover have "described ex_host ?nd 7 3 ''vm1'' 77 ex_tokens ''10'' ''4''"
    using ex_described by (simp add: described_def)
  moreover have "maps_ok ?nd" by (simp add: maps_ok_def vm_at_def)
  then have "\<not> (\<exists>nd1. register_vm ex_host 7 ?nd = Inr (-1, nd1))"
    using register_described [of ?nd] \<open>described ex_host ?nd 7 3 ''vm1'' 77 ex_tokens ''10'' ''4''\<close> by fastforce
  ultimately show ?thesis by auto
qed

lemma run_events_refine:
  assumes "maps_ok nd" "\<forall>n\<in>set ns. notification_ok nd n"
  shows "case fold_res run_event ns nd of
      Inr nd' \<Rightarrow> \<forall>d. lc_run d ns (lc_state nd d) = Inr (lc_state nd' d)
    | Inl e \<Rightarrow> e = Bad_Iterator \<and> (\<exists>d. lc_run d ns (lc_state nd d) = Inl Bad_Iterator)"
  using assms
proof (induction ns arbitrary: nd)
  case (Cons n ns)
  obtain h dm ev where n: "n = (h, dm, ev)" by (cases n) auto
  show ?case
  proof (cases "known_machine nd (h, dm, ev)")
    case False
    then have "ev \<in> set handled_events" "vm_at nd (h_id h dm) = None" by (auto simp: known_machine_def)
    note u = handle_event_unknown [where h = h and dm = dm, OF this]
    have "lc_run (h_id h dm) (n # ns) (lc_state nd (h_id h dm)) = Inl Bad_Iterator" by (simp add: n u(2))
    then show ?thesis using u(1) by (auto simp: n run_event_def)
  next
    case True
    obtain ret nd1 where 1: "handle_event h dm ev nd = Inr (ret, nd1)" "maps_ok nd1" "core nd1 = core nd"
      "\<forall>d. (if d = h_id h dm then lc_step ev (lc_state nd d) else Inr (lc_state nd d)) = Inr (lc_state nd1 d)"
      using handle_event_step [OF Cons.prems(1) _ True] Cons.prems(2) n by auto
    have "\<forall>n\<in>set ns. notification_ok nd1 n"
      using Cons.prems(2) core_readable [OF 1(3)] by (auto simp: notification_ok_def)
    note ih = Cons.IH [OF 1(2) this]
    have "lc_run d (n # ns) (lc_state nd d) = lc_run d ns (lc_state nd1 d)" for d
      using 1(4) [rule_format, of d] by (auto simp: n split: if_splits)
    moreover have "fold_res run_event (n # ns) nd = fold_res run_event ns nd1" by (simp add: n run_event_def 1(1))
    ultimately show ?thesis using ih by presburger
  qed
qed simp

text \<open>C6. The event handler implements the life-cycle automaton, its fault included: when the machines that start are
  readable, a run of notifications is carried out exactly when the automaton of no machine faults on its own
  events, and then what is remembered of each machine is what its automaton computes. The only fault there
  is comes from an event about a machine that is unknown when it arrives: the code dereferences the end of
  the map then.\<close>

theorem events_refine_life_cycle:
  assumes "maps_ok nd" "\<forall>n\<in>set ns. notification_ok nd n"
  shows "case fold_res run_event ns nd of
      Inr nd' \<Rightarrow> \<forall>d. lc_run d ns (lc_state nd d) = Inr (lc_state nd' d)
    | Inl e \<Rightarrow> e = Bad_Iterator \<and> (\<exists>d. lc_run d ns (lc_state nd d) = Inl Bad_Iterator)"
  by (rule run_events_refine [OF assms])

theorem events_refine_life_cycle_witness:
  "\<exists>nd'. fold_res run_event [(ex_host, Some 7, VIR_DOMAIN_EVENT_STARTED), (ex_host, Some 7, VIR_DOMAIN_EVENT_SHUTDOWN),
      (ex_host, Some 1, VIR_DOMAIN_EVENT_SUSPENDED), (ex_host, Some 7, VIR_DOMAIN_EVENT_STOPPED)] ex_conf_daemon = Inr nd' \<and>
    lc_state nd' 7 = None \<and> lc_state nd' 1 = Some VIR_DOMAIN_EVENT_SUSPENDED"
proof -
  let ?ns = "[(ex_host, Some 7, VIR_DOMAIN_EVENT_STARTED), (ex_host, Some 7, VIR_DOMAIN_EVENT_SHUTDOWN),
      (ex_host, Some 1, VIR_DOMAIN_EVENT_SUSPENDED), (ex_host, Some 7, VIR_DOMAIN_EVENT_STOPPED)]"
  have "\<forall>n\<in>set ?ns. notification_ok ex_conf_daemon n" by (simp add: notification_ok_def ex_host_readable)
  note t = events_refine_life_cycle [OF mapping_ok_maps [OF exact_mapping_ok [OF ex_conf_exact]] this]
  have id: "h_id ex_host (Some d) = d" for d by (simp add: ex_host_def)
  have r: "lc_run d ?ns (lc_state ex_conf_daemon d) =
      Inr (if d = 7 then None else if d = 1 then Some VIR_DOMAIN_EVENT_SUSPENDED else lc_state ex_conf_daemon d)" for d
    by (simp add: id lc_step_def lc_state_def ex_conf_views)
  show ?thesis
  proof (cases "fold_res run_event ?ns ex_conf_daemon")
    case (Inl e)
    then show ?thesis using t unfolding Inl r by simp
  next
    case (Inr nd')
    then have "\<forall>d. (if d = 7 then None else if d = 1 then Some VIR_DOMAIN_EVENT_SUSPENDED else lc_state ex_conf_daemon d) =
        lc_state nd' d" using t unfolding Inr r by simp
    from this [rule_format, of 7] this [rule_format, of 1]
    have "lc_state nd' 7 = None" "lc_state nd' 1 = Some VIR_DOMAIN_EVENT_SUSPENDED" by simp_all
    then show ?thesis using Inr by blast
  qed
qed

text \<open>C10. An event that comes with what its handler needs - a machine that starts is new and readable, any other
  event that is handled is about a known machine - is handled without a fault and keeps the invariant of the
  mapping. A machine that was last seen shutting down or stopped is forgotten when it stops: its record and
  its CPU are released. Any other machine that stops, such as one that is destroyed while it runs, keeps its
  record and its CPU.\<close>

theorem stopping_releases_the_cpu:
  assumes "mapping_ok nd" "notification_ok nd (h, dm, ev)" "known_machine nd (h, dm, ev)" "d = h_id h dm"
    "ev = VIR_DOMAIN_EVENT_STARTED \<Longrightarrow> vm_at nd d = None"
  shows "\<exists>ret nd'. handle_event h dm ev nd = Inr (ret, nd') \<and> mapping_ok nd' \<and>
    (\<forall>vm. ev = VIR_DOMAIN_EVENT_STOPPED \<and> vm_at nd d = Some vm \<longrightarrow> ret = 0 \<and>
      (if vm_event_state vm \<in> {VIR_DOMAIN_EVENT_SHUTDOWN, VIR_DOMAIN_EVENT_STOPPED}
       then vm_at nd' = (vm_at nd)(d := None) \<and>
         occupant nd' = (\<lambda>c. if occupant nd c = Some d then None else occupant nd c)
       else vm_at nd' = (vm_at nd)(d \<mapsto> vm\<lparr>vm_event_state := VIR_DOMAIN_EVENT_STOPPED\<rparr>) \<and>
         occupant nd' = occupant nd))"
proof -
  note m = mapping_ok_maps [OF assms(1)]
  obtain ret nd' where s: "handle_event h dm ev nd = Inr (ret, nd')" "mapping_ok nd'"
    using handle_event_step [OF m assms(2,3)] assms(1,4,5) by auto
  then show ?thesis using handle_event_stopped [OF assms(1), of h dm _ ret nd'] assms(4) by blast
qed

theorem stopping_releases_the_cpu_witness:
  "\<exists>nd'. handle_event ex_host (Some 1) VIR_DOMAIN_EVENT_STOPPED ex_conf_daemon = Inr (0, nd') \<and> mapping_ok nd' \<and>
    vm_at nd' 1 = Some ((ex_cpu_vm 1 0)\<lparr>vm_event_state := VIR_DOMAIN_EVENT_STOPPED\<rparr>) \<and> occupant nd' 0 = Some 1"
proof -
  have i: "1 = h_id ex_host (Some 1)" by (simp add: ex_host_def)
  have "notification_ok ex_conf_daemon (ex_host, Some 1, VIR_DOMAIN_EVENT_STOPPED)"
    "known_machine ex_conf_daemon (ex_host, Some 1, VIR_DOMAIN_EVENT_STOPPED)"
    by (simp_all add: notification_ok_def known_machine_def ex_conf_views ex_host_def)
  from stopping_releases_the_cpu [OF exact_mapping_ok [OF ex_conf_exact] this i] show ?thesis
    by (auto simp: ex_conf_views map_find_def ex_cpu_vm_def zeroed_vm_def)
qed

text \<open>C36. A machine reported as started again while it is still known, on another CPU, leaves its old
  entry in the mapping: the record says the new CPU, and the old CPU stays occupied.\<close>

theorem restart_leaves_a_stale_entry:
  assumes "mapping_ok nd" "vm_at nd d = Some vm" "occupant nd (real_cpu_no vm) = Some d" "h_id h dm = d"
    "vm_readable h nd (h_lookup h d)" "start_cpu h d \<noteq> real_cpu_no vm"
  shows "\<exists>ret nd' vm'. handle_event h dm VIR_DOMAIN_EVENT_STARTED nd = Inr (ret, nd') \<and>
    vm_at nd' d = Some vm' \<and> real_cpu_no vm' = start_cpu h d \<and> occupant nd' (real_cpu_no vm) = Some d \<and> \<not> mapping_ok nd'"
proof -
  obtain flag nd1 where r: "register_vm h d nd = Inr (flag, nd1)"
    "handle_event h dm VIR_DOMAIN_EVENT_STARTED nd =
       Inr (if flag = -1 then -1 else 0, set_event d VIR_DOMAIN_EVENT_STARTED nd1)"
    using handle_event_started [of h nd dm] assms(4,5) by auto
  obtain w where w: "vm_at nd1 = (vm_at nd)(d \<mapsto> w)" "real_cpu_no w = start_cpu h d" "maps_ok nd1"
    "occupant nd1 = (if start_cpu h d = -1 \<or> occupant nd (start_cpu h d) \<noteq> None then occupant nd
       else (occupant nd)(start_cpu h d \<mapsto> d))"
    using register_result [OF mapping_ok_maps [OF assms(1)] r(1)] by metis
  have "vm_at nd1 d = Some w" by (simp add: w(1))
  note e = set_event_views [OF w(3) this, of VIR_DOMAIN_EVENT_STARTED]
  let ?nd' = "set_event d VIR_DOMAIN_EVENT_STARTED nd1" and ?w = "w\<lparr>vm_event_state := VIR_DOMAIN_EVENT_STARTED\<rparr>"
  have at: "vm_at ?nd' d = Some ?w" "real_cpu_no ?w = start_cpu h d" by (simp_all add: e(1) w(2))
  have occ: "occupant ?nd' (real_cpu_no vm) = Some d" using assms(3,6) by (simp add: e(2) w(4))
  then have "\<not> mapping_ok ?nd'" using mapping_ok_cpu [OF _ occ at(1)] at(2) assms(6) by auto
  then show ?thesis using r(2) at occ by (intro exI [of _ "if flag = -1 then -1 else 0"] exI [of _ ?nd'] exI [of _ ?w]) simp
qed

theorem restart_leaves_a_stale_entry_witness:
  "\<exists>ret nd' vm'. handle_event ex_host (Some 1) VIR_DOMAIN_EVENT_STARTED ex_conf_daemon = Inr (ret, nd') \<and>
    vm_at nd' 1 = Some vm' \<and> real_cpu_no vm' = 3 \<and> occupant nd' 0 = Some 1 \<and> \<not> mapping_ok nd'"
proof -
  have s: "start_cpu ex_host 1 = 3" "h_id ex_host (Some 1) = 1"
    by (simp_all add: start_cpu_def get_vm_real_cpu_def ex_host_def)
  have "vm_at ex_conf_daemon 1 = Some (ex_cpu_vm 1 0)" by (simp add: ex_conf_views)
  from restart_leaves_a_stale_entry [OF exact_mapping_ok [OF ex_conf_exact] this, of ex_host "Some 1"] show ?thesis
    by (simp add: s ex_conf_views map_find_def ex_host_readable)
qed

text \<open>A name of 38 to 63 characters fits the record, but the path of the file with the process number
  is cut off at 63 characters; unless a file of that cut-off name exists, the registration reports an error and the
  process number stays -1.\<close>

theorem long_name_loses_the_process:
  assumes "maps_ok nd" "vm_readable h nd (h_lookup h d)" "h_name h (h_lookup h d) = Some name" "38 \<le> length name"
    "length name < 64" "h_file h (take 63 (''/var/run/libvirt/qemu/'' @ name @ ''.pid'')) = None"
  shows "\<exists>nd' vm. register_vm h d nd = Inr (-1, nd') \<and> vm_at nd' d = Some vm \<and> vm_name vm = name \<and> pid vm = - 1"
proof -
  let ?vm = "VM_info_init (h_vm_storage h)"
  let ?nd0 = "nd\<lparr>vm_infos_map := map_assign d ?vm (vm_infos_map nd)\<rparr>"
  obtain flag nd' where r: "register_vm h d nd = Inr (flag, nd')" using register_returns [OF assms(2)] by blast
  then obtain vm nd1 where 1: "set_vm_info h (h_lookup h d) d ?vm ?nd0 = Inr (flag, vm, nd1)"
    "nd' = nd1\<lparr>vm_infos_map := map_assign d vm (vm_infos_map nd1)\<rparr>"
    by (auto simp: register_vm_def Let_def res_simps)
  obtain f1 vm1 nd2 where 2: "set_real_cpu (h_vcpu h) (h_lookup h d) (?vm\<lparr>dom_ptr := h_lookup h d, dom_id := d\<rparr>) ?nd0 = (f1, vm1, nd2)"
    by (cases "set_real_cpu (h_vcpu h) (h_lookup h d) (?vm\<lparr>dom_ptr := h_lookup h d, dom_id := d\<rparr>) ?nd0") auto
  have p1: "pid vm1 = - 1" using 2 by (auto simp: set_real_cpu_def Let_def VM_info_init_def split: if_splits)
  have "set_name name (f1, vm1) = Inr (f1, vm1\<lparr>vm_name := name\<rparr>)"
    using assms(5) size_to_int_small [of "length name"] by (simp add: set_name_def VM_NAME_LEN_def)
  moreover have "set_pid (h_file h) name (f1, vm1\<lparr>vm_name := name\<rparr>) = (-1, vm1\<lparr>vm_name := name\<rparr>)"
    using assms(6) by (simp add: set_pid_def pid_path_def snprintf_def MAX_PATH_LEN_def)
  ultimately obtain g vm2 where 3: "set_distribution (h_file h) (mem_numa_number (mem_mon nd)) (-1, vm1\<lparr>vm_name := name\<rparr>) = Inr (g, vm2)"
    "set_vf_no (h_xml h (h_lookup h d)) ?nd0 (g, vm2\<lparr>mem_main_node_id := main_node (mem_node_distr vm2) (mem_main_node_id vm2)\<rparr>) =
       Inr (flag, vm)"
    using 1(1) assms(3) by (auto simp: set_vm_info_def 2 res_simps)
  have g: "g = -1" using 3(1) by (auto simp: set_distribution_def res_simps)
  obtain m where m: "vm2 = vm1\<lparr>vm_name := name, mem_node_distr := m\<rparr>" using set_distribution_keeps [OF 3(1)] by auto
  have "flag = -1" using 3(2) g by (auto simp: set_vf_no_def res_simps split: option.splits)
  moreover have "pid vm = - 1 \<and> vm_name vm = name" using set_vf_no_keeps [OF 3(2)] by (auto simp: m p1)
  moreover have "vm_at nd' d = Some vm"
    using assms(1) set_vm_info_result(5) [OF 1(1)]
    by (auto simp: 1(2) vm_at_def maps_ok_def vmap.find_assign vmap.ok_assign split: if_splits)
  ultimately show ?thesis using r by blast
qed

theorem long_name_loses_the_process_witness:
  "\<exists>nd' vm. register_vm (ex_host\<lparr>h_name := \<lambda>p. Some (replicate 40 (CHR ''a''))\<rparr>) 7 ex_conf_daemon = Inr (-1, nd') \<and>
    vm_at nd' 7 = Some vm \<and> vm_name vm = replicate 40 (CHR ''a'') \<and> pid vm = - 1"
proof (rule long_name_loses_the_process [OF mapping_ok_maps [OF exact_mapping_ok [OF ex_conf_exact]]])
  show "vm_readable (ex_host\<lparr>h_name := \<lambda>p. Some (replicate 40 (CHR ''a''))\<rparr>) ex_conf_daemon
      (h_lookup (ex_host\<lparr>h_name := \<lambda>p. Some (replicate 40 (CHR ''a''))\<rparr>) 7)"
    using ex_host_readable [of ex_conf_daemon "Some 7"] by (simp add: vm_readable_def ex_host_def)
qed (simp_all add: ex_host_def numa_maps_path_def snprintf_def)

end
