(* ===== verification/Balance.thy ===== *)
theory Balance
  imports SimpleStrategy
begin

section \<open>The balancing loop returns, keeps every machine, and balances\<close>

text \<open>
  The correctness of the loop of \<open>SimpleStrategy::analyze\<close>. Machines and nodes
  are never lost by a move (\<open>reshuffle\<close>); after \<open>recount\<close> the loop's counters
  describe the placement (\<open>fresh\<close>); in the phase after \<open>balance_nic\<close> they are
  out of date in a controlled way (\<open>stale\<close>). Every phase decreases the sum of
  the squared list lengths, so the loop returns.
\<close>

subsection \<open>Well-formed inputs\<close>

text \<open>
  What the rest of the program provides: at least one node, a NIC attached to
  one of them, an array entry per node, and latency lists that name every node.
\<close>

definition cx_ok :: "balance_ctx \<Rightarrow> bool" where
  "cx_ok cx \<longleftrightarrow>
     std_sort compare_pairs_second (cx_sort cx) \<and>
     0 < cx_number cx \<and> cx_number cx < 2 ^ 31 \<and>
     0 \<le> cx_nic cx \<and> cx_nic cx < cx_number cx \<and>
     length (cx_nodes cx) = nat (cx_number cx) \<and>
     (\<forall>node\<in>set (cx_nodes cx). fst ` set (sorted_lat_node_list node) = {0..<cx_number cx})"

definition placement_ok :: "balance_ctx \<Rightarrow> int list list \<Rightarrow> bool" where
  "placement_ok cx von \<longleftrightarrow>
     length von = nat (cx_number cx) \<and> length (concat von) < 2 ^ 31 \<and>
     (\<forall>v\<in>set (concat von). map_find (cx_vms cx) v \<noteq> None)"

definition load :: "int list list \<Rightarrow> nat \<Rightarrow> nat" where
  "load von i = length (von ! i)"

definition sumsq :: "int list list \<Rightarrow> int" where
  "sumsq von = sum_list (map (\<lambda>l. (int (length l))\<^sup>2) von)"

lemma sumsq_nonneg: "0 \<le> sumsq von"
  unfolding sumsq_def by (rule sum_list_nonneg) auto

lemma load_le_total: "i < length von \<Longrightarrow> load von i \<le> length (concat von)"
proof (induction von arbitrary: i)
  case (Cons l von)
  then show ?case by (cases i) (fastforce simp: load_def)+
qed simp

subsection \<open>Moving a machine\<close>

definition moved :: "int list list \<Rightarrow> nat \<Rightarrow> int \<Rightarrow> nat \<Rightarrow> int list list" where
  "moved von h v t = von[h := remove1 v (von ! h), t := von ! t @ [v]]"

definition reshuffle :: "int list list \<Rightarrow> int list list \<Rightarrow> bool" where
  "reshuffle von von' \<longleftrightarrow>
     mset (concat von') = mset (concat von) \<and> length von' = length von \<and>
     (\<forall>b. (\<forall>i<length von. load von i \<le> b) \<longrightarrow> (\<forall>i<length von. load von' i \<le> b))"

lemma reshuffle_refl [simp]: "reshuffle von von"
  by (simp add: reshuffle_def)

lemma reshuffle_trans: "reshuffle a b \<Longrightarrow> reshuffle b c \<Longrightarrow> reshuffle a c"
  unfolding reshuffle_def by metis

lemma reshuffle_total: "reshuffle von von' \<Longrightarrow> length (concat von') = length (concat von)"
  unfolding reshuffle_def by (metis size_mset)

lemma reshuffle_placement: "reshuffle von von' \<Longrightarrow> placement_ok cx von \<Longrightarrow> placement_ok cx von'"
  using reshuffle_total [of von von'] unfolding placement_ok_def reshuffle_def
  by (metis set_mset_mset)

text \<open>The conditions under which moving \<open>v\<close> from node \<open>h\<close> to node \<open>t\<close> makes sense.\<close>

definition movable :: "int list list \<Rightarrow> nat \<Rightarrow> int \<Rightarrow> nat \<Rightarrow> bool" where
  "movable von h v t \<longleftrightarrow> h < length von \<and> t < length von \<and> h \<noteq> t \<and> v \<in> set (von ! h)"

lemma move_vm_moved: "movable von h v t \<Longrightarrow> move_vm von (int h) v (int t) = Inr (moved von h v t)"
  by (simp add: movable_def move_vm_def moved_def vec_at_nat Let_def)

lemma length_moved [simp]: "length (moved von h v t) = length von"
  by (simp add: moved_def)

lemma load_moved:
  "movable von h v t \<Longrightarrow> load (moved von h v t) i =
     (if i = h then load von h - 1 else if i = t then load von t + 1 else load von i)"
  by (auto simp: movable_def load_def moved_def nth_list_update length_remove1)

lemma movable_load_pos: "movable von h v t \<Longrightarrow> 0 < load von h"
  by (auto simp: movable_def load_def)

lemma mset_moved:
  assumes "movable von h v t"
  shows "mset (concat (moved von h v t)) = mset (concat von)"
proof -
  have ht: "h < length von" "t < length von" "h \<noteq> t" and v: "v \<in> set (von ! h)"
    using assms by (auto simp: movable_def)
  define w where "w = von[h := remove1 v (von ! h)]"
  have 1: "mset (concat w) + mset (von ! h) = mset (concat von) + mset (remove1 v (von ! h))"
    using mset_concat_update [OF ht(1)] by (simp add: w_def)
  have 2: "mset (concat (moved von h v t)) + mset (von ! t) = mset (concat w) + mset (von ! t @ [v])"
    using mset_concat_update [of t w "von ! t @ [v]"] ht by (simp add: w_def moved_def)
  have 3: "add_mset v (mset (remove1 v (von ! h))) = mset (von ! h)" using v by simp
  have "mset (concat (moved von h v t)) = add_mset v (mset (concat w))" using 2 by simp
  moreover have "add_mset v (mset (concat w)) = mset (concat von)"
    using 1 3 by (metis add_mset_add_single add_right_cancel union_mset_add_mset_left union_mset_add_mset_right)
  ultimately show ?thesis by simp
qed

lemma sumsq_moved:
  assumes "movable von h v t"
  shows "sumsq (moved von h v t) = sumsq von - 2 * int (load von h) + 2 * int (load von t) + 2"
proof -
  have ht: "h < length von" "t < length von" "h \<noteq> t" and v: "v \<in> set (von ! h)"
    using assms by (auto simp: movable_def)
  let ?f = "\<lambda>l :: int list. (int (length l))\<^sup>2"
  have 1: "sumsq (moved von h v t) = sumsq (von[h := remove1 v (von ! h)]) - ?f (von ! t) + ?f (von ! t @ [v])"
    using sum_list_update [of t "von[h := remove1 v (von ! h)]" ?f] ht by (simp add: sumsq_def moved_def)
  have 2: "sumsq (von[h := remove1 v (von ! h)]) = sumsq von - ?f (von ! h) + ?f (remove1 v (von ! h))"
    using sum_list_update [OF ht(1), of ?f] by (simp add: sumsq_def)
  have 3: "int (length (remove1 v (von ! h))) = int (length (von ! h)) - 1"
    using v movable_load_pos [OF assms] by (simp add: length_remove1 load_def of_nat_diff Suc_leI)
  show ?thesis
    unfolding 1 2 3 by (simp add: load_def power2_eq_square algebra_simps)
qed

lemma reshuffle_moved:
  assumes "movable von h v t"
    and "\<And>b. \<forall>i<length von. load von i \<le> b \<Longrightarrow> load von t + 1 \<le> b"
  shows "reshuffle von (moved von h v t)"
  using assms(2) mset_moved [OF assms(1)]
  by (fastforce simp: reshuffle_def load_moved [OF assms(1)])

subsection \<open>What the counters say\<close>

text \<open>
  \<open>vec\<close> lists every node \<open>i\<close> with the count \<open>E i\<close>, in increasing order of the
  counts; \<open>reads\<close> says that the counters of the loop point into it: the node
  \<open>h\<close> at index \<open>j\<close> as the busiest, the node \<open>l\<close> at index 0 as the least busy.
\<close>

definition vec_for :: "balance_ctx \<Rightarrow> (nat \<Rightarrow> nat) \<Rightarrow> (int \<times> int) list \<Rightarrow> bool" where
  "vec_for cx E vec \<longleftrightarrow>
     mset vec = mset (map (\<lambda>i. (int i, int (E i))) [0..<nat (cx_number cx)]) \<and>
     sorted_wrt (\<lambda>x y. \<not> snd y < snd x) vec"

definition reads :: "balance_ctx \<Rightarrow> (nat \<Rightarrow> nat) \<Rightarrow> balance \<Rightarrow> nat \<Rightarrow> nat \<Rightarrow> nat \<Rightarrow> bool" where
  "reads cx E s j h l \<longleftrightarrow>
     vec_for cx E (node_vm_vec s) \<and>
     j < nat (cx_number cx) \<and> h < nat (cx_number cx) \<and> l < nat (cx_number cx) \<and>
     max_vm_idx s = int j \<and>
     node_vm_vec s ! j = (int h, int (E h)) \<and> node_vm_vec s ! 0 = (int l, int (E l)) \<and>
     high_load_node s = int h \<and> max_vm_cnt s = int_to_unsigned (int (E h)) \<and>
     min_vm_cnt s = int_to_unsigned (int (E l))"

lemma vec_for_length: "vec_for cx E vec \<Longrightarrow> length vec = nat (cx_number cx)"
  unfolding vec_for_def by (metis length_map length_upt minus_nat.diff_0 size_mset)

lemma vec_for_set: "vec_for cx E vec \<Longrightarrow> set vec = (\<lambda>i. (int i, int (E i))) ` {0..<nat (cx_number cx)}"
  unfolding vec_for_def by (metis set_map set_mset_mset set_upt)

lemma vec_for_nth:
  assumes "vec_for cx E vec" "j < nat (cx_number cx)"
  obtains i where "i < nat (cx_number cx)" "vec ! j = (int i, int (E i))"
proof -
  have "vec ! j \<in> set vec" using assms vec_for_length by simp
  then show ?thesis using vec_for_set [OF assms(1)] that by auto
qed

lemma vec_for_index:
  assumes "vec_for cx E vec" "i < nat (cx_number cx)"
  obtains j where "j < nat (cx_number cx)" "vec ! j = (int i, int (E i))"
proof -
  have "(int i, int (E i)) \<in> set vec" using vec_for_set [OF assms(1)] assms(2) by simp
  then show ?thesis using vec_for_length [OF assms(1)] that by (auto simp: in_set_conv_nth)
qed

lemma vec_for_distinct:
  assumes "vec_for cx E vec" shows "distinct (map fst vec)"
proof -
  have "mset (map fst vec) = mset (map fst (map (\<lambda>i. (int i, int (E i))) [0..<nat (cx_number cx)]))"
    using assms unfolding vec_for_def by (metis mset_map)
  also have "map fst (map (\<lambda>i. (int i, int (E i))) [0..<nat (cx_number cx)]) = map int [0..<nat (cx_number cx)]"
    by simp
  finally show ?thesis by (metis distinct_map distinct_upt inj_on_of_nat mset_eq_imp_distinct_iff)
qed

lemma vec_for_le:
  "vec_for cx E vec \<Longrightarrow> a \<le> b \<Longrightarrow> b < nat (cx_number cx) \<Longrightarrow> snd (vec ! a) \<le> snd (vec ! b)"
  using sorted_wrt_nth_less [of "\<lambda>x y. \<not> snd y < snd x" vec a b] vec_for_length [of cx E vec]
  unfolding vec_for_def by (cases "a = b") auto

lemma reads_least:
  assumes "reads cx E s j h l" "i < nat (cx_number cx)" shows "E l \<le> E i"
proof -
  have v: "vec_for cx E (node_vm_vec s)" using assms by (simp add: reads_def)
  obtain k where k: "k < nat (cx_number cx)" "node_vm_vec s ! k = (int i, int (E i))"
    using vec_for_index [OF v assms(2)] .
  show ?thesis using vec_for_le [OF v, of 0 k] k assms(1) by (simp add: reads_def)
qed

lemma reads_most:
  assumes "reads cx E s (nat (cx_number cx) - 1) h l" "i < nat (cx_number cx)" shows "E i \<le> E h"
proof -
  have v: "vec_for cx E (node_vm_vec s)" using assms by (simp add: reads_def)
  obtain k where k: "k < nat (cx_number cx)" "node_vm_vec s ! k = (int i, int (E i))"
    using vec_for_index [OF v assms(2)] .
  show ?thesis
    using vec_for_le [OF v, of k "nat (cx_number cx) - 1"] k assms(1) by (simp add: reads_def)
qed

lemma guard_reads:
  assumes "reads cx E s j h l" "\<And>i. i < nat (cx_number cx) \<Longrightarrow> E i < 2 ^ 31"
  shows "balance_guard s \<longleftrightarrow> 1 < E h \<and> E l + 1 < E h"
proof -
  have b: "E h < 2 ^ 31" "E l \<le> E h"
    using assms reads_least [OF assms(1)] by (auto simp: reads_def)
  have one: "(1 :: u32) = int_to_unsigned 1" by (simp add: int_to_unsigned_def)
  have m: "max_vm_cnt s - min_vm_cnt s = int_to_unsigned (int (E h) - int (E l))"
    using assms(1) b by (simp add: reads_def int_to_unsigned_minus)
  have M: "max_vm_cnt s = int_to_unsigned (int (E h))" using assms(1) by (simp add: reads_def)
  show ?thesis
    unfolding balance_guard_def m unfolding M one using b
    by (auto simp: int_to_unsigned_less)
qed

lemma placement_load:
  assumes "placement_ok cx von" "i < nat (cx_number cx)" shows "load von i < 2 ^ 31"
  using load_le_total [of i von] assms by (simp add: placement_ok_def)

lemma recount_total:
  assumes "cx_ok cx" "placement_ok cx von"
  obtains s h l where "recount cx von = Inr s" "vm_on_node s = von" "min_load_node s = int l"
    "reads cx (load von) s (nat (cx_number cx) - 1) h l"
proof -
  let ?N = "nat (cx_number cx)"
  have srt: "std_sort compare_pairs_second (cx_sort cx)" and N: "0 < ?N" "?N < 2 ^ 31"
    using assms(1) by (auto simp: cx_ok_def)
  define vec where "vec = cx_sort cx (count_nodes cx von)"
  have c: "count_nodes cx von = map (\<lambda>i. (int i, int (load von i))) [0..<?N]"
    using placement_load [OF assms(2)] by (simp add: count_nodes_def load_def size_to_int_small)
  have v: "vec_for cx (load von) vec"
    using std_sort.srt_perm [OF srt] std_sort.srt_sorted [OF srt]
    by (simp add: vec_for_def vec_def c compare_pairs_second_def)
  have len: "length vec = ?N" by (rule vec_for_length [OF v])
  obtain h where h: "h < ?N" "vec ! (?N - 1) = (int h, int (load von h))"
    using vec_for_nth [OF v, of "?N - 1"] N by auto
  obtain l where l: "l < ?N" "vec ! 0 = (int l, int (load von l))"
    using vec_for_nth [OF v, of 0] N by auto
  have idx: "size_to_int (length vec) - 1 = int (?N - 1)"
    using N by (simp add: len size_to_int_small of_nat_diff Suc_leI del: nat_minus_as_int)
  have hi: "vec_at vec (int (?N - 1)) = Inr (vec ! (?N - 1))"
    by (rule vec_at_nat) (use N len in simp)
  have lo: "vec_at vec 0 = Inr (vec ! 0)" using vec_at_nat [of 0 vec] N len by simp
  define s where "s = \<lparr>vm_on_node = von, node_vm_vec = vec, max_vm_idx = int (?N - 1),
    high_load_node = int h, max_vm_cnt = int_to_unsigned (int (load von h)),
    min_vm_cnt = int_to_unsigned (int (load von l)), min_load_node = int l\<rparr>"
  have "recount cx von = Inr s"
    by (simp only: recount_def Let_def flip: vec_def) (simp only: idx hi lo bind_res_Inr h l fst_conv snd_conv s_def)
  then show ?thesis
    using that [of s l h] v h l N by (simp add: s_def reads_def)
qed

subsection \<open>One turn of the loop\<close>

lemma nic_index:
  assumes "cx_ok cx" obtains n where "cx_nic cx = int n" "n < nat (cx_number cx)"
proof -
  have "0 \<le> cx_nic cx" "cx_nic cx < cx_number cx" using assms by (auto simp: cx_ok_def)
  then show ?thesis using that by (elim nonneg_int_cases) force
qed

text \<open>The node a search may answer: one with \<open>c\<close> machines, or \<open>lo\<close> when there is none.\<close>

definition target_ok :: "balance_ctx \<Rightarrow> int list list \<Rightarrow> nat \<Rightarrow> nat \<Rightarrow> nat \<Rightarrow> bool" where
  "target_ok cx von c lo t \<longleftrightarrow>
     t < nat (cx_number cx) \<and>
     (load von t = c \<or> t = lo \<and> (\<forall>i<nat (cx_number cx). load von i \<noteq> c))"

lemma size_eq_load:
  assumes "placement_ok cx von" "i < nat (cx_number cx)" "c < 2 ^ 31"
  shows "size_eq_unsigned (length (von ! i)) (int_to_unsigned (int c)) \<longleftrightarrow> load von i = c"
  using placement_load [OF assms(1,2)] assms(3) by (simp add: load_def size_eq_unsigned_small)

lemma nearest_min_result:
  assumes "placement_ok cx von" "c < 2 ^ 31" "fst ` set ps \<subseteq> {0..<cx_number cx}"
  shows "\<exists>t. nearest_min von (int_to_unsigned (int c)) (int lo) ps = Inr (int t) \<and>
    (t < nat (cx_number cx) \<and> load von t = c \<or>
     t = lo \<and> (\<forall>i. int i \<in> fst ` set ps \<longrightarrow> load von i \<noteq> c))"
  using assms(3)
proof (induction ps)
  case (Cons p ps)
  have "0 \<le> fst p" "fst p < cx_number cx" using Cons.prems by auto
  then obtain i where i: "fst p = int i" "i < nat (cx_number cx)"
    by (elim nonneg_int_cases) force
  have at: "vec_at von (int i) = Inr (von ! i)"
    using i assms(1) by (simp add: vec_at_nat placement_ok_def)
  show ?case
  proof (cases "load von i = c")
    case True
    then show ?thesis
      using i by (auto simp: at i(1) size_eq_load [OF assms(1) i(2) assms(2)])
  next
    case False
    then show ?thesis
      using Cons i by (auto simp: at i(1) size_eq_load [OF assms(1) i(2) assms(2)])
  qed
qed simp

lemma search_total:
  assumes "cx_ok cx" "placement_ok cx (vm_on_node s)" "high_load_node s = int h"
    "h < nat (cx_number cx)" "min_vm_cnt s = int_to_unsigned (int c)" "c < 2 ^ 31"
    "min_load_node s = int lo" "lo < nat (cx_number cx)"
  obtains t where "search_target cx s = Inr (int t)" "target_ok cx (vm_on_node s) c lo t"
proof -
  define node where "node = cx_nodes cx ! h"
  have h: "h < length (cx_nodes cx)" using assms(1,4) by (simp add: cx_ok_def)
  then have lat: "fst ` set (sorted_lat_node_list node) = {0..<cx_number cx}"
    using assms(1) by (simp add: cx_ok_def node_def)
  have "vec_at (cx_nodes cx) (int h) = Inr node" unfolding node_def by (rule vec_at_nat [OF h])
  then have eq: "search_target cx s =
      nearest_min (vm_on_node s) (int_to_unsigned (int c)) (int lo) (sorted_lat_node_list node)"
    by (simp add: search_target_def assms(3,5,7))
  have all: "int i \<in> fst ` set (sorted_lat_node_list node)" if "i < nat (cx_number cx)" for i
    using that by (simp add: lat)
  obtain t where "nearest_min (vm_on_node s) (int_to_unsigned (int c)) (int lo) (sorted_lat_node_list node) = Inr (int t)"
    "t < nat (cx_number cx) \<and> load (vm_on_node s) t = c \<or>
     t = lo \<and> (\<forall>i. int i \<in> fst ` set (sorted_lat_node_list node) \<longrightarrow> load (vm_on_node s) i \<noteq> c)"
    using nearest_min_result [OF assms(2,6), of "sorted_lat_node_list node" lo] lat by auto
  then show ?thesis using that [of t] all assms(8) by (auto simp: eq target_ok_def)
qed

lemma find_vm_total:
  assumes "\<forall>x\<in>set xs. map_find (cx_vms cx) x \<noteq> None"
  shows "find_vm cx w xs = Inr None \<or> (\<exists>v\<in>set xs. find_vm cx w xs = Inr (Some v))"
  using assms by (induction xs) (auto simp: map_at_def split: if_splits)

lemma placement_known:
  "placement_ok cx von \<Longrightarrow> i < nat (cx_number cx) \<Longrightarrow>
   \<forall>x\<in>set (von ! i). map_find (cx_vms cx) x \<noteq> None"
  unfolding placement_ok_def by auto

lemma balance_other_step:
  assumes "cx_ok cx" "placement_ok cx (vm_on_node s)" "high_load_node s = int h"
    "h < nat (cx_number cx)" "min_vm_cnt s = int_to_unsigned (int c)" "c < 2 ^ 31"
    "min_load_node s = int lo" "lo < nat (cx_number cx)" "0 < load (vm_on_node s) h"
  obtains v t where "v \<in> set (vm_on_node s ! h)" "target_ok cx (vm_on_node s) c lo t"
    "balance_other cx s = bind_res (move_vm (vm_on_node s) (int h) v (int t)) (recount cx)"
proof -
  let ?von = "vm_on_node s"
  obtain t where t: "search_target cx s = Inr (int t)" "target_ok cx ?von c lo t"
    using search_total [OF assms(1-8)] .
  have hat: "vec_at ?von (int h) = Inr (?von ! h)"
    using assms by (simp add: vec_at_nat placement_ok_def)
  obtain n where n: "cx_nic cx = int n" "n < nat (cx_number cx)"
    using nic_index [OF assms(1)] .
  have nat: "vec_at ?von (int n) = Inr (?von ! n)"
    using assms(2) n by (simp add: vec_at_nat placement_ok_def)
  obtain x xs where x: "?von ! h = x # xs" using assms(9) by (cases "?von ! h") (auto simp: load_def)
  consider "find_vm cx IO_STAT (?von ! h) = Inr None"
    | v where "v \<in> set (?von ! h)" "find_vm cx IO_STAT (?von ! h) = Inr (Some v)"
    using find_vm_total [OF placement_known [OF assms(2,4)]] by blast
  then show ?thesis
  proof cases
    case 1
    then show ?thesis
      using that [of x t] t by (simp add: balance_other_def hat assms(3) x)
  next
    case (2 v)
    show ?thesis
    proof (cases "cx_nic cx \<noteq> high_load_node s \<and> load ?von n = c")
      case True
      then show ?thesis
        using that [of v n] 2 n
        by (simp add: balance_other_def hat nat n(1) assms(3,5) size_eq_load [OF assms(2) n(2) assms(6)] target_ok_def)
    next
      case False
      then show ?thesis
        using that [of v t] 2 t n
        by (auto simp: balance_other_def hat nat n(1) assms(3,5) size_eq_load [OF assms(2) n(2) assms(6)])
    qed
  qed
qed

text \<open>Stepping down to the next busiest node.\<close>

definition step_down :: "balance \<Rightarrow> balance res" where
  "step_down s =
     (let idx = (if max_vm_idx s - 1 < 0 then 0 else max_vm_idx s - 1)
      in bind_res (vec_at (node_vm_vec s) idx) (\<lambda>hi.
         bind_res (vec_at (node_vm_vec s) 0) (\<lambda>lo.
         Inr (s\<lparr>max_vm_idx := idx, max_vm_cnt := int_to_unsigned (snd hi),
                high_load_node := fst hi, min_vm_cnt := int_to_unsigned (snd lo)\<rparr>))))"

lemma balance_nic_step:
  assumes "cx_ok cx" "placement_ok cx (vm_on_node s)" "high_load_node s = int h"
    "h < nat (cx_number cx)" "min_vm_cnt s = int_to_unsigned (int c)" "c < 2 ^ 31"
    "min_load_node s = int lo" "lo < nat (cx_number cx)"
  obtains (down) "balance_nic cx s = step_down s"
  | (move) v t where "v \<in> set (vm_on_node s ! h)" "target_ok cx (vm_on_node s) c lo t"
    "balance_nic cx s = bind_res (move_vm (vm_on_node s) (int h) v (int t))
       (\<lambda>von. Inr (s\<lparr>min_load_node := int t, vm_on_node := von\<rparr>))"
proof -
  let ?von = "vm_on_node s"
  obtain t where t: "search_target cx s = Inr (int t)" "target_ok cx ?von c lo t"
    using search_total [OF assms] .
  have hat: "vec_at ?von (int h) = Inr (?von ! h)"
    using assms by (simp add: vec_at_nat placement_ok_def)
  consider "find_vm cx OTHER_STAT (?von ! h) = Inr None"
    | v where "v \<in> set (?von ! h)" "find_vm cx OTHER_STAT (?von ! h) = Inr (Some v)"
    using find_vm_total [OF placement_known [OF assms(2,4)]] by blast
  then show ?thesis
  proof cases
    case 1
    then show ?thesis using down by (simp add: balance_nic_def hat assms(3) step_down_def)
  next
    case (2 v)
    then show ?thesis using move [of v t] t by (simp add: balance_nic_def hat assms(3))
  qed
qed

subsection \<open>Out-of-date counters\<close>

text \<open>
  \<open>von0\<close> is the placement the counters \<open>E\<close> were taken from: the NIC's node \<open>n\<close>
  was the busiest with two machines and some node had none. Since then at most
  two machines have left node \<open>n\<close> for nodes that were empty in \<open>von0\<close>; \<open>lo\<close> is
  the last of these, or the first node of the vector.
\<close>

definition stale ::
  "balance_ctx \<Rightarrow> int list list \<Rightarrow> (nat \<Rightarrow> nat) \<Rightarrow> nat \<Rightarrow> nat \<Rightarrow> nat \<Rightarrow> nat \<Rightarrow> nat \<Rightarrow> balance \<Rightarrow> bool" where
  "stale cx von0 E n j h l lo s \<longleftrightarrow>
     (let N = nat (cx_number cx); von = vm_on_node s
      in cx_nic cx = int n \<and> n < N \<and> placement_ok cx von \<and>
         mset (concat von) = mset (concat von0) \<and> length von0 = N \<and> load von0 n = 2 \<and>
         reads cx E s j h l \<and> E l = 0 \<and> E n = 2 \<and> node_vm_vec s ! (N - 1) = (int n, 2) \<and>
         (\<forall>i<N. E i \<le> 2) \<and> (\<forall>i<N. i \<noteq> n \<longrightarrow> 1 \<le> E i \<longrightarrow> load von i = E i) \<and>
         min_load_node s = int lo \<and> lo < N \<and> E lo = 0 \<and> (\<forall>i<N. load von i \<le> 2) \<and>
         (load von n = 2 \<and> sumsq von = sumsq von0 \<and> load von lo = 0 \<or>
          load von n = 1 \<and> sumsq von = sumsq von0 - 2 \<and> load von lo \<le> 1 \<or>
          load von n = 0 \<and> sumsq von \<le> sumsq von0))"

lemma stale_reshuffle: "stale cx von0 E n j h l lo s \<Longrightarrow> reshuffle von0 (vm_on_node s)"
  unfolding stale_def Let_def reshuffle_def placement_ok_def
  by (elim conjE) (metis le_trans)

lemma stale_guard:
  assumes "stale cx von0 E n j h l lo s" shows "balance_guard s \<longleftrightarrow> E h = 2"
proof -
  have E: "\<And>i. i < nat (cx_number cx) \<Longrightarrow> E i \<le> 2" and r: "reads cx E s j h l" and l: "E l = 0"
    using assms by (auto simp: stale_def Let_def)
  then have "E h \<le> 2" by (simp add: reads_def)
  moreover have "E i < 2 ^ 31" if "i < nat (cx_number cx)" for i
    using E [OF that] by simp
  ultimately show ?thesis using guard_reads [OF r] l by auto
qed

text \<open>With the busiest node elsewhere, one move and a recount end the phase, with a smaller sum.\<close>

lemma stale_other:
  assumes ok: "cx_ok cx" and st: "stale cx von0 E n j h l lo s" and hn: "h \<noteq> n" and g: "balance_guard s"
  obtains von' where "balance_body cx s = recount cx von'" "reshuffle von0 von'"
    "placement_ok cx von'" "sumsq von' < sumsq von0"
proof -
  let ?N = "nat (cx_number cx)" and ?von = "vm_on_node s"
  have p: "placement_ok cx ?von" and r: "reads cx E s j h l" and n: "cx_nic cx = int n" "n < ?N"
    and E: "\<forall>i<?N. i \<noteq> n \<longrightarrow> 1 \<le> E i \<longrightarrow> load ?von i = E i" and l: "E l = 0"
    and lo: "min_load_node s = int lo" "lo < ?N" "E lo = 0"
    and ph: "load ?von n = 2 \<and> sumsq ?von = sumsq von0 \<and> load ?von lo = 0 \<or>
          load ?von n = 1 \<and> sumsq ?von = sumsq von0 - 2 \<and> load ?von lo \<le> 1 \<or>
          load ?von n = 0 \<and> sumsq ?von \<le> sumsq von0"
    using st by (auto simp: stale_def Let_def)
  have h: "high_load_node s = int h" "h < ?N" and mn: "min_vm_cnt s = int_to_unsigned (int 0)"
    using r l by (auto simp: reads_def)
  have Eh: "E h = 2" using g stale_guard [OF st] by simp
  then have lh: "load ?von h = 2" using E h hn by simp
  obtain v t where v: "v \<in> set (?von ! h)" and t: "target_ok cx ?von 0 lo t"
    and eq: "balance_other cx s = bind_res (move_vm ?von (int h) v (int t)) (recount cx)"
    using balance_other_step [OF ok p h mn _ lo(1,2)] lh by auto
  have t1: "load ?von t \<le> 1" using t ph n by (auto simp: target_ok_def)
  have ht: "h \<noteq> t" using t t1 lh by auto
  have mv: "movable ?von h v t"
    using h t v ht p by (simp add: movable_def target_ok_def placement_ok_def)
  have "sumsq (moved ?von h v t) < sumsq von0"
    using sumsq_moved [OF mv] lh t ph n by (auto simp: target_ok_def)
  moreover have "reshuffle ?von (moved ?von h v t)"
    by (rule reshuffle_moved [OF mv]) (use t1 lh h p in \<open>force simp: placement_ok_def\<close>)
  moreover have "balance_body cx s = recount cx (moved ?von h v t)"
    using hn h n by (simp add: balance_body_def eq move_vm_moved [OF mv])
  ultimately show ?thesis
    using that [of "moved ?von h v t"] stale_reshuffle [OF st] p reshuffle_trans reshuffle_placement
    by metis
qed

text \<open>
  With the NIC's node still the busiest: step down, or move one more machine
  off it.
\<close>

lemma stale_down:
  assumes st: "stale cx von0 E n j n l lo s"
  obtains s' h' j' where "step_down s = Inr s'" "h' \<noteq> n" "stale cx von0 E n j' h' l lo s'"
proof -
  let ?N = "nat (cx_number cx)" and ?vec = "node_vm_vec s"
  have r: "reads cx E s j n l" and E: "E n = 2" "E l = 0" and last: "?vec ! (?N - 1) = (int n, 2)"
    using st by (auto simp: stale_def reads_def Let_def)
  have v: "vec_for cx E ?vec" and jN: "j < ?N" and l: "l < ?N" "n < ?N"
    and j: "?vec ! j = (int n, 2)" "?vec ! 0 = (int l, 0)" "max_vm_idx s = int j"
    using r E by (auto simp: reads_def)
  have len: "length ?vec = ?N" by (rule vec_for_length [OF v])
  have inj: "a = b" if "a < ?N" "b < ?N" "fst (?vec ! a) = fst (?vec ! b)" for a b
    using vec_for_distinct [OF v] that len by (metis distinct_conv_nth length_map nth_map)
  have jl: "j = ?N - 1" using inj [of j "?N - 1"] jN last j by auto
  have "l \<noteq> n" using E by auto
  then have N2: "2 \<le> ?N" using l by linarith
  obtain h' where h': "h' < ?N" "?vec ! (?N - 2) = (int h', int (E h'))"
    using vec_for_nth [OF v, of "?N - 2"] N2 by auto
  have hn: "h' \<noteq> n" using inj [of "?N - 2" "?N - 1"] h' last N2 by auto
  have idx: "(if max_vm_idx s - 1 < 0 then 0 else max_vm_idx s - 1) = int (?N - 2)"
    using j jl N2 by auto
  define s' where "s' = s\<lparr>max_vm_idx := int (?N - 2), max_vm_cnt := int_to_unsigned (int (E h')),
    high_load_node := int h', min_vm_cnt := int_to_unsigned 0\<rparr>"
  have "vec_at ?vec (int (?N - 2)) = Inr (int h', int (E h'))" "vec_at ?vec 0 = Inr (int l, 0)"
    using vec_at_nat [of "?N - 2" ?vec] vec_at_nat [of 0 ?vec] len N2 h' j by auto
  then have "step_down s = Inr s'"
    unfolding step_down_def Let_def idx by (simp add: s'_def)
  moreover have "stale cx von0 E n (?N - 2) h' l lo s'"
    using st h' N2 E j v l by (auto simp: stale_def Let_def reads_def s'_def)
  ultimately show ?thesis using that hn by blast
qed

lemma placement_moved:
  assumes "movable von n v t" "placement_ok cx von"
  shows "placement_ok cx (moved von n v t)"
proof -
  have "set (concat (moved von n v t)) = set (concat von)" "length (concat (moved von n v t)) = length (concat von)"
    using mset_moved [OF assms(1)] by (metis set_mset_mset, metis size_mset)
  then show ?thesis using assms(2) unfolding placement_ok_def by (simp only: length_moved) blast
qed

lemma stale_target:
  assumes st: "stale cx von0 E n j n l lo s" and v: "v \<in> set (vm_on_node s ! n)"
    and t: "target_ok cx (vm_on_node s) 0 lo t"
  shows "movable (vm_on_node s) n v t" "E t = 0"
    "load (vm_on_node s) n = 2 \<and> load (vm_on_node s) t = 0 \<or> load (vm_on_node s) n = 1 \<and> load (vm_on_node s) t \<le> 1"
proof -
  let ?N = "nat (cx_number cx)" and ?von = "vm_on_node s"
  have p: "placement_ok cx ?von" and n: "n < ?N" and E: "\<forall>i<?N. i \<noteq> n \<longrightarrow> 1 \<le> E i \<longrightarrow> load ?von i = E i"
    and lo: "lo < ?N" "E lo = 0" "E n = 2"
    and ph: "load ?von n = 2 \<and> load ?von lo = 0 \<or> load ?von n = 1 \<and> load ?von lo \<le> 1 \<or> load ?von n = 0"
    using st by (auto simp: stale_def Let_def reads_def)
  have ln: "0 < load ?von n" using v by (auto simp: load_def)
  have tN: "t < ?N" using t by (simp add: target_ok_def)
  have nt: "t \<noteq> n" using t lo ln by (auto simp: target_ok_def)
  show "movable ?von n v t" using v nt tN n p by (simp add: movable_def placement_ok_def)
  show "E t = 0"
  proof (rule ccontr)
    assume "E t \<noteq> 0"
    then have "load ?von t = E t" using E nt tN by simp
    then show False using t lo \<open>E t \<noteq> 0\<close> by (auto simp: target_ok_def)
  qed
  show "load ?von n = 2 \<and> load ?von t = 0 \<or> load ?von n = 1 \<and> load ?von t \<le> 1"
    using t ph ln lo by (auto simp: target_ok_def)
qed

lemma stale_move:
  assumes st: "stale cx von0 E n j n l lo s" and v: "v \<in> set (vm_on_node s ! n)"
    and t: "target_ok cx (vm_on_node s) 0 lo t"
  obtains s' where "bind_res (move_vm (vm_on_node s) (int n) v (int t))
       (\<lambda>von. Inr (s\<lparr>min_load_node := int t, vm_on_node := von\<rparr>)) = Inr s'"
    "stale cx von0 E n j n l t s'" "load (vm_on_node s') n < load (vm_on_node s) n"
proof -
  let ?N = "nat (cx_number cx)" and ?von = "vm_on_node s"
  note tg = stale_target [OF assms]
  have p: "placement_ok cx ?von" and E: "\<forall>i<?N. i \<noteq> n \<longrightarrow> 1 \<le> E i \<longrightarrow> load ?von i = E i"
    and r: "reads cx E s j n l" and le2: "\<forall>i<?N. load ?von i \<le> 2"
    and ph: "load ?von n = 2 \<and> sumsq ?von = sumsq von0 \<and> load ?von lo = 0 \<or>
          load ?von n = 1 \<and> sumsq ?von = sumsq von0 - 2 \<and> load ?von lo \<le> 1 \<or>
          load ?von n = 0 \<and> sumsq ?von \<le> sumsq von0"
    using st by (auto simp: stale_def Let_def)
  have nt: "t \<noteq> n" and tN: "t < ?N" using tg(1) t by (simp_all add: movable_def target_ok_def)
  define von' where "von' = moved ?von n v t"
  define s' where "s' = s\<lparr>min_load_node := int t, vm_on_node := von'\<rparr>"
  have ld: "load von' i = (if i = n then load ?von n - 1 else if i = t then load ?von t + 1 else load ?von i)" for i
    unfolding von'_def by (rule load_moved [OF tg(1)])
  have sq: "sumsq von' = sumsq ?von - 2 * int (load ?von n) + 2 * int (load ?von t) + 2"
    unfolding von'_def by (rule sumsq_moved [OF tg(1)])
  have p': "placement_ok cx von'" unfolding von'_def by (rule placement_moved [OF tg(1) p])
  have "bind_res (move_vm ?von (int n) v (int t))
      (\<lambda>von. Inr (s\<lparr>min_load_node := int t, vm_on_node := von\<rparr>)) = Inr s'"
    by (simp add: move_vm_moved [OF tg(1)] s'_def von'_def)
  moreover have "stale cx von0 E n j n l t s'"
  proof -
    have "mset (concat von') = mset (concat von0)"
      using st mset_moved [OF tg(1)] by (simp add: stale_def Let_def von'_def)
    moreover have "reads cx E s' j n l" using r by (simp add: reads_def s'_def)
    moreover have "\<forall>i<?N. i \<noteq> n \<longrightarrow> 1 \<le> E i \<longrightarrow> load von' i = E i" using E tg(2) by (auto simp: ld)
    moreover have "\<forall>i<?N. load von' i \<le> 2" using le2 tg(3) by (auto simp: ld)
    moreover have "load von' n = 2 \<and> sumsq von' = sumsq von0 \<and> load von' t = 0 \<or>
          load von' n = 1 \<and> sumsq von' = sumsq von0 - 2 \<and> load von' t \<le> 1 \<or>
          load von' n = 0 \<and> sumsq von' \<le> sumsq von0"
      using tg(3) ph nt by (auto simp: ld sq)
    ultimately show ?thesis
      using st p' tg(2) tN by (auto simp: stale_def Let_def s'_def)
  qed
  moreover have "load (vm_on_node s') n < load ?von n" using tg(3) by (auto simp: s'_def ld)
  ultimately show ?thesis using that by blast
qed

lemma stale_nic:
  assumes ok: "cx_ok cx" and st: "stale cx von0 E n j n l lo s"
  obtains s' j' h' lo' where "balance_body cx s = Inr s'" "stale cx von0 E n j' h' l lo' s'"
    "h' \<noteq> n \<or> h' = n \<and> load (vm_on_node s') n < load (vm_on_node s) n"
proof -
  have p: "placement_ok cx (vm_on_node s)" and n: "cx_nic cx = int n" "n < nat (cx_number cx)"
    and lo: "min_load_node s = int lo" "lo < nat (cx_number cx)"
    and h: "high_load_node s = int n" "max_vm_cnt s = int_to_unsigned 2" "min_vm_cnt s = int_to_unsigned (int 0)"
    using st by (auto simp: stale_def reads_def Let_def)
  have "max_vm_cnt s \<le> 2" by (simp add: h int_to_unsigned_def)
  then have body: "balance_body cx s = balance_nic cx s" using h n by (simp add: balance_body_def)
  show ?thesis
  proof (cases rule: balance_nic_step [OF ok p h(1) n(2) h(3) _ lo])
    case 1
    then show ?case by simp
  next
    case 2
    then show ?thesis using stale_down [OF st] that body by metis
  next
    case (3 v t)
    obtain s' where "balance_nic cx s = Inr s'" "stale cx von0 E n j n l t s'"
      "load (vm_on_node s') n < load (vm_on_node s) n"
      using stale_move [OF st 3(1,2)] 3(3) by metis
    then show ?thesis using that body by metis
  qed
qed

subsection \<open>The loop\<close>

text \<open>
  What holds of the state \<open>s'\<close> in which the loop that starts from the
  placement \<open>von\<close> stops.
\<close>

definition loop_post :: "balance_ctx \<Rightarrow> int list list \<Rightarrow> balance \<Rightarrow> bool" where
  "loop_post cx von s' \<longleftrightarrow>
     reshuffle von (vm_on_node s') \<and> \<not> balance_guard s' \<and>
     (2 * nat (cx_number cx) - 1 \<le> length (concat von) \<longrightarrow> recount cx (vm_on_node s') = Inr s')"

lemma loop_post_trans: "reshuffle von von' \<Longrightarrow> loop_post cx von' s' \<Longrightarrow> loop_post cx von s'"
  unfolding loop_post_def using reshuffle_trans reshuffle_total by metis

text \<open>From a state with out-of-date counters, given the loop's behaviour from smaller sums.\<close>

lemma stale_loop:
  assumes ok: "cx_ok cx"
    and IH: "\<And>von s. sumsq von < sumsq von0 \<Longrightarrow> placement_ok cx von \<Longrightarrow> recount cx von = Inr s \<Longrightarrow>
               \<exists>s'. balance_loop cx s = Some (Inr s') \<and> loop_post cx von s'"
    and few: "length (concat von0) < 2 * nat (cx_number cx) - 1"
  shows "stale cx von0 E n j h l lo s \<Longrightarrow>
    \<exists>s'. balance_loop cx s = Some (Inr s') \<and> loop_post cx von0 s'"
proof (induction "if h = n then Suc (load (vm_on_node s) n) else 0" arbitrary: s j h lo rule: less_induct)
  case less
  note st = less.prems
  show ?case
  proof (cases "balance_guard s")
    case False
    then show ?thesis
      using stale_reshuffle [OF st] few by (simp add: balance_loop.simps [of cx s] loop_post_def)
  next
    case True
    show ?thesis
    proof (cases "h = n")
      case h: True
      obtain s' j' h' lo' where s': "balance_body cx s = Inr s'" "stale cx von0 E n j' h' l lo' s'"
        "h' \<noteq> n \<or> h' = n \<and> load (vm_on_node s') n < load (vm_on_node s) n"
        using stale_nic [OF ok] st h by metis
      have "\<exists>t. balance_loop cx s' = Some (Inr t) \<and> loop_post cx von0 t"
        by (rule less.hyps [OF _ s'(2)]) (use s'(3) h in auto)
      then show ?thesis using True s'(1) by (simp add: balance_loop.simps [of cx s])
    next
      case False
      obtain von' where v: "balance_body cx s = recount cx von'" "reshuffle von0 von'"
          "placement_ok cx von'" "sumsq von' < sumsq von0"
        using stale_other [OF ok st False True] .
      obtain s' where s': "recount cx von' = Inr s'" using recount_total [OF ok v(3)] by metis
      obtain t where "balance_loop cx s' = Some (Inr t)" "loop_post cx von' t"
        using IH [OF v(4,3) s'] by blast
      then show ?thesis
        using True v(1) s' loop_post_trans [OF v(2)] by (simp add: balance_loop.simps [of cx s])
    qed
  qed
qed

lemma total_load:
  "length von = N \<Longrightarrow> length (concat von) = (\<Sum>i<N. load von i)"
  by (simp add: length_concat load_def sum_list_sum_nth atLeast0LessThan)

lemma fresh_stale:
  assumes p: "placement_ok cx von" and s: "vm_on_node s = von" "min_load_node s = int l"
    and r: "reads cx (load von) s (nat (cx_number cx) - 1) h l"
    and n: "cx_nic cx = int h" and g: "balance_guard s" and le: "load von h \<le> 2"
  shows "stale cx von (load von) h (nat (cx_number cx) - 1) h l l s"
    and "length (concat von) < 2 * nat (cx_number cx) - 1"
proof -
  let ?N = "nat (cx_number cx)"
  have g': "1 < load von h" "load von l + 1 < load von h"
    using guard_reads [OF r placement_load [OF p]] g by auto
  then have h: "load von h = 2" and l: "load von l = 0" using le by auto
  have lN: "l < ?N" "length von = ?N" using r p by (auto simp: reads_def placement_ok_def)
  have all: "\<And>i. i < ?N \<Longrightarrow> load von i \<le> 2" using reads_most [OF r] h by simp
  show "stale cx von (load von) h (?N - 1) h l l s"
    using r p s n h l lN all by (auto simp: stale_def Let_def reads_def)
  have "(\<Sum>i<?N. load von i) = load von l + (\<Sum>i\<in>{..<?N} - {l}. load von i)"
    using lN by (simp add: sum.remove)
  also have "\<dots> \<le> (\<Sum>i\<in>{..<?N} - {l}. 2)" using l all sum_mono [of "{..<?N} - {l}" "load von" "\<lambda>_. 2"] by auto
  also have "\<dots> = 2 * (?N - 1)" using lN by simp
  finally show "length (concat von) < 2 * ?N - 1"
    using total_load [OF lN(2)] lN by simp
qed

lemma fresh_other:
  assumes ok: "cx_ok cx" and p: "placement_ok cx von" and s: "vm_on_node s = von" "min_load_node s = int l"
    and r: "reads cx (load von) s (nat (cx_number cx) - 1) h l"
    and g: "balance_guard s" and c: "\<not> (cx_nic cx = int h \<and> load von h \<le> 2)"
  obtains von' where "balance_body cx s = recount cx von'" "reshuffle von von'"
    "placement_ok cx von'" "sumsq von' < sumsq von"
proof -
  let ?N = "nat (cx_number cx)"
  have g': "1 < load von h" "load von l + 1 < load von h"
    using guard_reads [OF r placement_load [OF p]] g by auto
  have h: "high_load_node s = int h" "h < ?N" "l < ?N" and len: "length von = ?N"
    and mn: "min_vm_cnt s = int_to_unsigned (int (load von l))"
    and mx: "max_vm_cnt s = int_to_unsigned (int (load von h))"
    using r p by (auto simp: reads_def placement_ok_def)
  have lb: "load von h < 2 ^ 31" "load von l < 2 ^ 31" using placement_load [OF p] h by auto
  have two: "max_vm_cnt s \<le> 2 \<longleftrightarrow> load von h \<le> 2"
    using int_to_unsigned_less [of 2 "int (load von h)"] lb
    by (simp add: mx not_less [symmetric] int_to_unsigned_def [of 2])
  have p': "placement_ok cx (vm_on_node s)" using p s by simp
  obtain v t where v: "v \<in> set (von ! h)" and t: "target_ok cx von (load von l) l t"
    and eq: "balance_other cx s = bind_res (move_vm von (int h) v (int t)) (recount cx)"
    using balance_other_step [OF ok p' h(1,2) mn lb(2) s(2) h(3)] g' s(1) by auto
  have t1: "load von t = load von l" using t h by (auto simp: target_ok_def)
  have mv: "movable von h v t"
    using v t t1 g' h len by (auto simp: movable_def target_ok_def)
  have "sumsq (moved von h v t) < sumsq von" using sumsq_moved [OF mv] t1 g' by simp
  moreover have "reshuffle von (moved von h v t)"
    by (rule reshuffle_moved [OF mv]) (use t1 g' h len in force)
  moreover have "balance_body cx s = recount cx (moved von h v t)"
    using c two h by (auto simp: balance_body_def eq move_vm_moved [OF mv])
  ultimately show ?thesis using that p reshuffle_placement by metis
qed

lemma loop_returns:
  assumes ok: "cx_ok cx"
  shows "placement_ok cx von \<Longrightarrow> recount cx von = Inr s \<Longrightarrow>
    \<exists>s'. balance_loop cx s = Some (Inr s') \<and> loop_post cx von s'"
proof (induction "nat (sumsq von)" arbitrary: von s rule: less_induct)
  case less
  note p = less.prems(1)
  obtain h l where s: "vm_on_node s = von" "min_load_node s = int l"
    and r: "reads cx (load von) s (nat (cx_number cx) - 1) h l"
    using recount_total [OF ok p] less.prems(2) by (metis Inr_inject)
  have IH: "\<exists>s'. balance_loop cx t = Some (Inr s') \<and> loop_post cx w s'"
    if "sumsq w < sumsq von" "placement_ok cx w" "recount cx w = Inr t" for w t
    using less.hyps [of w t] that sumsq_nonneg [of w] by simp
  show ?case
  proof (cases "balance_guard s")
    case False
    then show ?thesis using less.prems s by (simp add: balance_loop.simps [of cx s] loop_post_def)
  next
    case g: True
    show ?thesis
    proof (cases "cx_nic cx = int h \<and> load von h \<le> 2")
      case True
      then show ?thesis
        using stale_loop [OF ok IH] fresh_stale [OF p s r _ g] by blast
    next
      case False
      obtain von' where v: "balance_body cx s = recount cx von'" "reshuffle von von'"
          "placement_ok cx von'" "sumsq von' < sumsq von"
        using fresh_other [OF ok p s r g False] .
      obtain s' where s': "recount cx von' = Inr s'" using recount_total [OF ok v(3)] by metis
      obtain t where "balance_loop cx s' = Some (Inr t)" "loop_post cx von' t"
        using IH [OF v(4,3) s'] by blast
      then show ?thesis
        using g v(1) s' loop_post_trans [OF v(2)] by (simp add: balance_loop.simps [of cx s])
    qed
  qed
qed

subsection \<open>From the placement by home node to the final one\<close>

definition balanced :: "int list list \<Rightarrow> bool" where
  "balanced von \<longleftrightarrow> (\<forall>i<length von. \<forall>j<length von. load von i \<le> load von j + 1)"

lemma no_guard_balanced:
  assumes "cx_ok cx" "placement_ok cx von" "recount cx von = Inr s" "\<not> balance_guard s"
  shows "balanced von"
proof -
  obtain h l where "vm_on_node s = von" and r: "reads cx (load von) s (nat (cx_number cx) - 1) h l"
    using recount_total [OF assms(1,2)] assms(3) by (metis Inr_inject)
  have d: "load von h \<le> load von l + 1"
    using guard_reads [OF r placement_load [OF assms(2)]] assms(4) by auto
  show ?thesis
    unfolding balanced_def
  proof (intro allI impI)
    fix i j assume "i < length von" "j < length von"
    then have "load von i \<le> load von h" "load von l \<le> load von j"
      using reads_most [OF r] reads_least [OF r] assms(2) by (auto simp: placement_ok_def)
    then show "load von i \<le> load von j + 1" using d by linarith
  qed
qed

text \<open>
  The last step, exactly: with the busiest node \<open>h\<close> at one machine and none on
  the NIC's node, that machine moves if it is I/O intensive.
\<close>

definition vm_state_at :: "balance_ctx \<Rightarrow> int \<Rightarrow> VM_State" where
  "vm_state_at cx v = vm_state_of (cx_states cx) (dom_id (the (map_find (cx_vms cx) v)))"

lemma place_on_nic_exact:
  assumes ok: "cx_ok cx" and p: "placement_ok cx von" and s: "recount cx von = Inr s"
    and n: "cx_nic cx = int n"
  obtains h where "h < length von" "\<forall>i<length von. load von i \<le> load von h"
    "place_on_nic cx s =
       (if load von h = 1 \<and> load von n = 0 \<and> vm_state_at cx (hd (von ! h)) = IO_STAT
        then Inr (moved von h (hd (von ! h)) n) else Inr von)"
proof -
  let ?N = "nat (cx_number cx)"
  obtain h l where sv: "vm_on_node s = von" and r: "reads cx (load von) s (?N - 1) h l"
    using recount_total [OF ok p] s by (metis Inr_inject)
  have nN: "n < ?N" using ok n by (auto simp: cx_ok_def)
  have len: "length von = ?N" and h: "h < ?N" "high_load_node s = int h"
    and mx: "max_vm_cnt s = int_to_unsigned (int (load von h))"
    using p r by (auto simp: placement_ok_def reads_def)
  have one: "max_vm_cnt s = 1 \<longleftrightarrow> load von h = 1"
    using placement_load [OF p h(1)] int_to_unsigned_eq [of "int (load von h)" 1]
    by (simp add: mx int_to_unsigned_def [of 1])
  have at: "vec_at von (int n) = Inr (von ! n)" "vec_at von (int h) = Inr (von ! h)"
    using nN h len by (simp_all add: vec_at_nat)
  have "place_on_nic cx s =
       (if load von h = 1 \<and> load von n = 0 \<and> vm_state_at cx (hd (von ! h)) = IO_STAT
        then Inr (moved von h (hd (von ! h)) n) else Inr von)"
  proof (cases "load von h = 1 \<and> load von n = 0")
    case False
    then show ?thesis using n by (auto simp: place_on_nic_def sv one at load_def)
  next
    case True
    then obtain v where v: "von ! h = [v]" by (auto simp: load_def length_Suc_conv)
    obtain vm where vm: "map_find (cx_vms cx) v = Some vm"
      using placement_known [OF p h(1)] v by auto
    have "movable von h v n" using True v nN h len by (auto simp: movable_def)
    then have "move_vm von (int h) v (int n) = Inr (moved von h v n)" by (rule move_vm_moved)
    then show ?thesis
      using True by (simp add: place_on_nic_def sv one at n h load_def v map_at_def vm vm_state_at_def)
  qed
  then show ?thesis using that h len reads_most [OF r] by simp
qed

lemma place_on_nic_cases:
  assumes ok: "cx_ok cx" and p: "placement_ok cx von" and s: "recount cx von = Inr s"
  obtains (stay) "place_on_nic cx s = Inr von"
  | (move) h v n where "place_on_nic cx s = Inr (moved von h v n)" "movable von h v n"
      "load von h = 1" "load von n = 0" "\<forall>i<length von. load von i \<le> 1"
proof -
  obtain n where n: "cx_nic cx = int n" "n < nat (cx_number cx)" using nic_index [OF ok] .
  obtain h where h: "h < length von" "\<forall>i<length von. load von i \<le> load von h"
    and eq: "place_on_nic cx s =
       (if load von h = 1 \<and> load von n = 0 \<and> vm_state_at cx (hd (von ! h)) = IO_STAT
        then Inr (moved von h (hd (von ! h)) n) else Inr von)"
    using place_on_nic_exact [OF ok p s n(1)] .
  show ?thesis
  proof (cases "load von h = 1 \<and> load von n = 0 \<and> vm_state_at cx (hd (von ! h)) = IO_STAT")
    case True
    then have "movable von h (hd (von ! h)) n"
      using n h p by (auto simp: movable_def load_def placement_ok_def intro!: list.set_sel(1))
    then show ?thesis using move True eq h by simp
  next
    case False
    then show ?thesis using stay eq by auto
  qed
qed

lemma rebalance_total:
  assumes ok: "cx_ok cx" and p: "placement_ok cx von"
  obtains von' where "rebalance cx von = Some (Inr von')" "reshuffle von von'"
    "2 * nat (cx_number cx) - 1 \<le> length (concat von) \<longrightarrow> balanced von'"
proof -
  obtain s where s: "recount cx von = Inr s" "vm_on_node s = von" using recount_total [OF ok p] by metis
  show ?thesis
  proof (cases "balance_guard s")
    case True
    obtain s' where s': "balance_loop cx s = Some (Inr s')" "loop_post cx von s'"
      using loop_returns [OF ok p s(1)] by blast
    have "placement_ok cx (vm_on_node s')"
      using s'(2) p reshuffle_placement by (auto simp: loop_post_def)
    then have "2 * nat (cx_number cx) - 1 \<le> length (concat von) \<longrightarrow> balanced (vm_on_node s')"
      using no_guard_balanced [OF ok] s'(2) by (auto simp: loop_post_def)
    then show ?thesis
      using that [of "vm_on_node s'"] True s s' by (auto simp: rebalance_def loop_post_def)
  next
    case False
    have eq: "rebalance cx von = Some (place_on_nic cx s)" using False s by (simp add: rebalance_def)
    show ?thesis
    proof (cases rule: place_on_nic_cases [OF ok p s(1)])
      case 1
      then show ?thesis using that [of von] no_guard_balanced [OF ok p s(1) False] eq by simp
    next
      case (2 h v n)
      have "reshuffle von (moved von h v n)"
        by (rule reshuffle_moved [OF 2(2)]) (use 2(2-4) in \<open>auto simp: movable_def\<close>)
      moreover have "balanced (moved von h v n)"
        using 2(3,4,5) by (auto simp: balanced_def load_moved [OF 2(2)] trans_le_add2)
      ultimately show ?thesis using that eq 2(1) by simp
    qed
  qed
qed

text \<open>A balanced placement passes the loop by.\<close>

lemma rebalance_balanced:
  assumes ok: "cx_ok cx" and p: "placement_ok cx von" and b: "balanced von"
  obtains s where "recount cx von = Inr s" "rebalance cx von = Some (place_on_nic cx s)"
proof -
  obtain s h l where s: "recount cx von = Inr s" and r: "reads cx (load von) s (nat (cx_number cx) - 1) h l"
    using recount_total [OF ok p] by metis
  have "load von h \<le> load von l + 1"
    using b r p by (simp add: balanced_def reads_def placement_ok_def)
  then have "\<not> balance_guard s" using guard_reads [OF r placement_load [OF p]] by auto
  then show ?thesis using that s by (simp add: rebalance_def)
qed

end
