(* ===== verification/Scheduling.thy ===== *)
theory Scheduling
  imports Balance Smoothing
begin

section \<open>What the strategy promises\<close>

text \<open>
  The correctness of \<open>SimpleStrategy::analyze\<close> and \<open>schedule\<close> on well-formed
  input: they return without a fault, decide for every machine that is not idle
  exactly once, keep the machines where they are when the load is balanced, and
  balance it otherwise. The contract of \<open>include/ScheduleStrategy.h\<close> is the
  locale \<open>schedule_strategy\<close>, which \<open>SimpleStrategy\<close> implements.
\<close>

subsection \<open>Input of the strategy\<close>

definition vm_input_ok :: "dbl list \<Rightarrow> int \<Rightarrow> int \<times> vm_info \<Rightarrow> bool" where
  "vm_input_ok cpu_usage number kv \<longleftrightarrow>
     dom_id (snd kv) = fst kv \<and>
     -1 \<le> real_cpu_no (snd kv) \<and> real_cpu_no (snd kv) + 1 < int (length cpu_usage) \<and>
     0 \<le> mem_main_node_id (snd kv) \<and> mem_main_node_id (snd kv) < number"

definition node_input_ok :: "dbl list \<Rightarrow> int \<Rightarrow> numa_node \<Rightarrow> bool" where
  "node_input_ok cpu_usage number node \<longleftrightarrow>
     fst ` set (sorted_lat_node_list node) = {0..<number} \<and>
     (\<forall>c\<in>set (cpu_ids node). -1 \<le> c \<and> c + 1 < int (length cpu_usage))"

text \<open>
  The machines are in a map with their own id as key, their CPU and home node
  exist, and so do the NIC's node and the CPUs of every node.
\<close>

definition schedule_input_ok ::
  "vm_info cpp_map \<Rightarrow> dbl list \<Rightarrow> numa_node list \<Rightarrow> int \<Rightarrow> int \<Rightarrow> bool" where
  "schedule_input_ok vms cpu_usage nodes number nic \<longleftrightarrow>
     map_ok vms \<and> length vms < 2 ^ 31 \<and> list_all (vm_input_ok cpu_usage number) vms \<and>
     0 < number \<and> number < 2 ^ 31 \<and> 0 \<le> nic \<and> nic < number \<and>
     length nodes = nat number \<and> list_all (node_input_ok cpu_usage number) nodes"

subsection \<open>Classification\<close>

definition vm_idle :: "dbl list \<Rightarrow> vm_info \<Rightarrow> bool" where
  "vm_idle cpu_usage vm \<longleftrightarrow>
     smoothed_cpu_usage vm (cpu_usage ! nat (real_cpu_no vm + 1)) \<le> dbl_of_int 8"

text \<open>The threshold of 8 percent, in spite of rounding.\<close>

lemma busy_not_idle:
  assumes "Fin 9 \<le> real_cpu_usage vm" "Fin 9 \<le> cpu_usage ! nat (real_cpu_no vm + 1)"
  shows "\<not> vm_idle cpu_usage vm"
proof -
  have "Fin (35 / 4) \<le> smoothed_cpu_usage vm (cpu_usage ! nat (real_cpu_no vm + 1))"
    by (rule smoothed_cpu_above [OF assms])
  then show ?thesis
    by (cases "smoothed_cpu_usage vm (cpu_usage ! nat (real_cpu_no vm + 1))")
       (auto simp: vm_idle_def dbl_of_int_def less_eq_dbl_def)
qed

lemma quiet_idle:
  assumes "real_cpu_usage vm \<le> Fin 7" "cpu_usage ! nat (real_cpu_no vm + 1) \<le> Fin 7"
  shows "vm_idle cpu_usage vm"
  using smoothed_cpu_below [OF assms] dbl_le_trans [of _ "Fin (29 / 4)" "Fin 8"]
  by (auto simp: vm_idle_def dbl_of_int_def less_eq_dbl_def)

text \<open>A machine takes part in the balancing when it is not idle, unless \<open>vm_state\<close> holds \<open>IDLE_STAT\<close>.\<close>

definition vm_active :: "(int \<Rightarrow> VM_State) \<Rightarrow> dbl list \<Rightarrow> int \<times> vm_info \<Rightarrow> bool" where
  "vm_active indet cpu_usage kv \<longleftrightarrow> \<not> vm_idle cpu_usage (snd kv) \<and> indet (fst kv) \<noteq> IDLE_STAT"

text \<open>The state that the loop records for a machine.\<close>

definition vm_class :: "simple_strategy \<Rightarrow> dbl list \<Rightarrow> vm_info \<Rightarrow> vm_states \<Rightarrow> vm_states" where
  "vm_class ss cpu_usage vm m =
     (if vm_idle cpu_usage vm then (analyzeIOState ss vm m)(dom_id vm \<mapsto> IDLE_STAT)
      else analyzeIOState ss vm m)"

lemma classify_vm_step:
  assumes "vm_input_ok cpu_usage number (k, vm)" "length von = nat number"
  shows "classify_vm ss indet cpu_usage (k, vm) (m, von, f) =
    Inr (vm_class ss cpu_usage vm m,
         if vm_active indet cpu_usage (k, vm)
         then von[nat (mem_main_node_id vm) := von ! nat (mem_main_node_id vm) @ [k]] else von,
         f \<or> vm_active indet cpu_usage (k, vm))"
proof -
  have u: "vec_at cpu_usage (real_cpu_no vm + 1) = Inr (cpu_usage ! nat (real_cpu_no vm + 1))"
    using assms(1) by (intro vec_at_ok) (auto simp: vm_input_ok_def)
  have h: "vec_at von (mem_main_node_id vm) = Inr (von ! nat (mem_main_node_id vm))"
    using assms by (intro vec_at_ok) (auto simp: vm_input_ok_def)
  have k: "dom_id vm = k" using assms(1) by (simp add: vm_input_ok_def)
  show ?thesis
    by (simp add: classify_vm_def u h k vm_class_def vm_active_def vm_idle_def Let_def)
qed

lemma classify_fold:
  assumes "list_all (vm_input_ok cpu_usage number) xs" "length von = nat number"
  shows "\<exists>von'. fold_res (classify_vm ss indet cpu_usage) xs (m, von, f) =
      Inr (foldl (\<lambda>m kv. vm_class ss cpu_usage (snd kv) m) m xs, von',
           f \<or> list_ex (vm_active indet cpu_usage) xs) \<and>
    length von' = nat number \<and>
    mset (concat von') = mset (concat von) + mset (map fst (filter (vm_active indet cpu_usage) xs)) \<and>
    (\<forall>i<nat number. von' ! i = von ! i @
       map fst (filter (\<lambda>kv. vm_active indet cpu_usage kv \<and> mem_main_node_id (snd kv) = int i) xs))"
  using assms
proof (induction xs arbitrary: m von f)
  case (Cons kv xs)
  obtain k vm where kv: "kv = (k, vm)" by fastforce
  let ?h = "nat (mem_main_node_id vm)"
  define w where "w = (if vm_active indet cpu_usage (k, vm) then von[?h := von ! ?h @ [k]] else von)"
  have ok: "vm_input_ok cpu_usage number (k, vm)" and h: "?h < length von" "mem_main_node_id vm = int ?h"
    using Cons.prems by (auto simp: kv vm_input_ok_def)
  have step: "classify_vm ss indet cpu_usage kv (m, von, f) =
      Inr (vm_class ss cpu_usage vm m, w, f \<or> vm_active indet cpu_usage (k, vm))"
    unfolding kv w_def using ok Cons.prems(2) by (rule classify_vm_step)
  have len: "length w = nat number" using Cons.prems by (simp add: w_def)
  have ms: "mset (concat w) = mset (concat von) + (if vm_active indet cpu_usage (k, vm) then {#k#} else {#})"
    using mset_concat_update [OF h(1), of "von ! ?h @ [k]"] by (simp add: w_def)
  have nth: "w ! i = von ! i @ (if vm_active indet cpu_usage (k, vm) \<and> mem_main_node_id vm = int i then [k] else [])"
    if "i < nat number" for i
    using that h Cons.prems(2) by (auto simp: w_def nth_list_update)
  show ?case
    using Cons.IH [OF _ len, of "vm_class ss cpu_usage vm m" "f \<or> vm_active indet cpu_usage (k, vm)"] Cons.prems(1)
    by (auto simp: step [unfolded kv] ms nth kv)
qed simp

subsection \<open>The decisions\<close>

lemma decisions_ids: "map d_dom_id (decisions_of von) = concat von"
proof -
  have "map d_dom_id (decisions_of von) = concat (map (\<lambda>i. von ! i) [0..<length von])"
    by (simp add: decisions_of_def map_concat o_def)
  also have "map (\<lambda>i. von ! i) [0..<length von] = von" by (rule map_nth)
  finally show ?thesis .
qed

lemma decisions_nodes:
  "d \<in> set (decisions_of von) \<Longrightarrow>
   mem_node_id d = cpu_node_id d \<and> 0 \<le> cpu_node_id d \<and> cpu_node_id d < int (length von) \<and>
   d_dom_id d \<in> set (von ! nat (cpu_node_id d))"
  by (auto simp: decisions_of_def)

text \<open>How many machines a list of decisions puts on a node.\<close>

definition decided_on :: "decision list \<Rightarrow> int \<Rightarrow> nat" where
  "decided_on ds node = length (filter (\<lambda>d. cpu_node_id d = node) ds)"

lemma decided_on_load:
  assumes "i < length von" shows "decided_on (decisions_of von) (int i) = load von i"
proof -
  have "decided_on (decisions_of von) (int i) =
      sum_list (map (\<lambda>j. if j = i then load von j else 0) [0..<length von])"
    by (auto simp: decided_on_def decisions_of_def filter_concat length_concat o_def load_def
        filter_empty_conv filter_map intro!: arg_cong [where f = sum_list])
  also have "\<dots> = (\<Sum>j<length von. if j = i then load von j else 0)"
    by (simp add: sum_list_distinct_conv_sum_set atLeast0LessThan)
  finally show ?thesis using assms by simp
qed

text \<open>The active machines, by id, and the placement by home node.\<close>

definition active_ids :: "(int \<Rightarrow> VM_State) \<Rightarrow> dbl list \<Rightarrow> vm_info cpp_map \<Rightarrow> int list" where
  "active_ids indet cpu_usage vms = map fst (filter (vm_active indet cpu_usage) vms)"

definition home_placement ::
  "(int \<Rightarrow> VM_State) \<Rightarrow> dbl list \<Rightarrow> vm_info cpp_map \<Rightarrow> int \<Rightarrow> int list list" where
  "home_placement indet cpu_usage vms number =
     map (\<lambda>i. map fst (filter (\<lambda>kv. vm_active indet cpu_usage kv \<and> mem_main_node_id (snd kv) = int i) vms))
       [0..<nat number]"

definition states_of :: "simple_strategy \<Rightarrow> dbl list \<Rightarrow> vm_info cpp_map \<Rightarrow> vm_states" where
  "states_of ss cpu_usage vms = foldl (\<lambda>m kv. vm_class ss cpu_usage (snd kv) m) Map.empty vms"

lemma classify_result:
  assumes "list_all (vm_input_ok cpu_usage number) vms"
  shows "classify ss indet cpu_usage number vms =
      Inr (states_of ss cpu_usage vms, home_placement indet cpu_usage vms number,
           active_ids indet cpu_usage vms \<noteq> [])"
    and "mset (concat (home_placement indet cpu_usage vms number)) = mset (active_ids indet cpu_usage vms)"
proof -
  obtain von' where f: "fold_res (classify_vm ss indet cpu_usage) vms
      (Map.empty, replicate (nat number) [], False) =
      Inr (states_of ss cpu_usage vms, von', list_ex (vm_active indet cpu_usage) vms)"
    and l: "length von' = nat number"
    and m: "mset (concat von') = mset (active_ids indet cpu_usage vms)"
    and n: "\<forall>i<nat number. von' ! i =
       map fst (filter (\<lambda>kv. vm_active indet cpu_usage kv \<and> mem_main_node_id (snd kv) = int i) vms)"
    using classify_fold [OF assms, of "replicate (nat number) []" ss indet Map.empty False]
    by (auto simp: states_of_def active_ids_def)
  have "von' = home_placement indet cpu_usage vms number"
    using l n by (auto simp: home_placement_def intro: nth_equalityI)
  moreover have "list_ex (vm_active indet cpu_usage) vms \<longleftrightarrow> active_ids indet cpu_usage vms \<noteq> []"
    by (auto simp: list_ex_iff active_ids_def filter_empty_conv)
  ultimately show "classify ss indet cpu_usage number vms =
      Inr (states_of ss cpu_usage vms, home_placement indet cpu_usage vms number,
           active_ids indet cpu_usage vms \<noteq> [])"
    and "mset (concat (home_placement indet cpu_usage vms number)) = mset (active_ids indet cpu_usage vms)"
    using f m by (simp_all add: classify_def)
qed

lemma active_ids_keys: "set (active_ids indet cpu_usage vms) \<subseteq> set (map_keys vms)"
  by (auto simp: active_ids_def map_keys_def)

lemma active_ids_distinct: "map_ok vms \<Longrightarrow> distinct (active_ids indet cpu_usage vms)"
  using vmap.keys_distinct [of vms] by (simp add: active_ids_def map_keys_def distinct_map_filter)

definition strategy_ctx ::
  "count_sort \<Rightarrow> simple_strategy \<Rightarrow> vm_info cpp_map \<Rightarrow> dbl list \<Rightarrow> numa_node list \<Rightarrow> int \<Rightarrow> int \<Rightarrow> balance_ctx" where
  "strategy_ctx srt ss vms cpu_usage nodes number nic =
     \<lparr>cx_sort = srt, cx_vms = vms, cx_nodes = nodes, cx_number = number, cx_nic = nic,
      cx_states = states_of ss cpu_usage vms\<rparr>"

lemma strategy_ctx_ok:
  assumes "std_sort compare_pairs_second srt" "schedule_input_ok vms cpu_usage nodes number nic"
  shows "cx_ok (strategy_ctx srt ss vms cpu_usage nodes number nic)"
  using assms by (auto simp: cx_ok_def strategy_ctx_def schedule_input_ok_def list_all_iff node_input_ok_def)

lemma strategy_placement_ok:
  assumes "schedule_input_ok vms cpu_usage nodes number nic"
  shows "placement_ok (strategy_ctx srt ss vms cpu_usage nodes number nic)
           (home_placement indet cpu_usage vms number)"
proof -
  let ?p = "home_placement indet cpu_usage vms number"
  have ok: "list_all (vm_input_ok cpu_usage number) vms" "map_ok vms" "length vms < 2 ^ 31"
    using assms by (auto simp: schedule_input_ok_def)
  note m = classify_result(2) [OF ok(1), of indet]
  have "length (concat ?p) = length (active_ids indet cpu_usage vms)" using m by (metis size_mset)
  also have "\<dots> \<le> length vms" by (simp add: active_ids_def)
  finally have "length (concat ?p) < 2 ^ 31" using ok by simp
  moreover have "set (concat ?p) = set (active_ids indet cpu_usage vms)" using m by (metis set_mset_mset)
  ultimately show ?thesis
    using active_ids_keys [of indet cpu_usage vms] vmap.keys_dom [OF ok(2)]
    by (auto simp: placement_ok_def strategy_ctx_def home_placement_def)
qed

lemma analyze_eq:
  assumes "schedule_input_ok vms cpu_usage nodes number nic"
  shows "SimpleStrategy_analyze srt ss indet vms cpu_usage nodes number nic =
    (if active_ids indet cpu_usage vms = [] then Some (Inr [])
     else map_option (\<lambda>r. bind_res r (\<lambda>von. Inr (decisions_of von)))
            (rebalance (strategy_ctx srt ss vms cpu_usage nodes number nic)
               (home_placement indet cpu_usage vms number)))"
  using classify_result(1) [of cpu_usage number vms ss indet] assms
  by (simp add: SimpleStrategy_analyze_def strategy_ctx_def schedule_input_ok_def)

lemma node_log_total:
  assumes "node_input_ok cpu_usage number node"
  shows "\<exists>l. node_log cpu_usage node = Inr l"
proof -
  have "\<exists>t. fold_res (\<lambda>cpuid total. bind_res (vec_at cpu_usage (cpuid + 1)) (\<lambda>u. Inr (total + u)))
      (cpu_ids node) (Fin 0) = Inr t \<and> True"
    by (rule fold_res_total) (use assms in \<open>auto simp: node_input_ok_def vec_at_ok\<close>)
  then show ?thesis by (auto simp: node_log_def)
qed

lemma schedule_eq_analyze:
  assumes "schedule_input_ok vms cpu_usage nodes number nic"
  shows "SimpleStrategy_schedule srt ss indet vms cpu_usage nodes number nic =
    SimpleStrategy_analyze srt ss indet vms cpu_usage nodes number nic"
proof -
  have len: "length nodes = nat number" and ok: "\<forall>node\<in>set nodes. node_input_ok cpu_usage number node"
    using assms by (auto simp: schedule_input_ok_def list_all_iff)
  have "\<exists>log. fold_res (\<lambda>i log. bind_res (vec_at nodes i) (\<lambda>node.
      bind_res (node_log cpu_usage node) (\<lambda>l. Inr (log @ [l])))) (map int [0..<nat number]) [] = Inr log \<and> True"
  proof (rule fold_res_total)
    fix i log assume "i \<in> set (map int [0..<nat number])"
    then obtain n where n: "i = int n" "n < length nodes" using len by auto
    then obtain l where "node_log cpu_usage (nodes ! n) = Inr l"
      using ok node_log_total nth_mem by blast
    then show "\<exists>t. bind_res (vec_at nodes i) (\<lambda>node.
        bind_res (node_log cpu_usage node) (\<lambda>l. Inr (log @ [l]))) = Inr t \<and> True"
      using n by (simp add: vec_at_nat)
  qed simp
  then show ?thesis by (auto simp: SimpleStrategy_schedule_def)
qed

text \<open>The strategy's outcome, in one statement: everything below reads it off.\<close>

lemma schedule_outcome:
  assumes "std_sort compare_pairs_second srt" "schedule_input_ok vms cpu_usage nodes number nic"
  obtains von where
    "SimpleStrategy_schedule srt ss indet vms cpu_usage nodes number nic = Some (Inr (decisions_of von))"
    "reshuffle (home_placement indet cpu_usage vms number) von"
    "2 * nat number - 1 \<le> length (active_ids indet cpu_usage vms) \<longrightarrow> balanced von"
proof -
  let ?h = "home_placement indet cpu_usage vms number"
  let ?cx = "strategy_ctx srt ss vms cpu_usage nodes number nic"
  note eq = schedule_eq_analyze [OF assms(2)] analyze_eq [OF assms(2)]
  have vms: "list_all (vm_input_ok cpu_usage number) vms" using assms(2) by (simp add: schedule_input_ok_def)
  have tot: "length (concat ?h) = length (active_ids indet cpu_usage vms)"
    using classify_result(2) [OF vms, of indet] by (metis size_mset)
  show ?thesis
  proof (cases "active_ids indet cpu_usage vms = []")
    case True
    then have none: "\<forall>l\<in>set ?h. l = []" using tot by simp
    then have "decisions_of ?h = []" by (auto simp: decisions_of_def)
    moreover have "balanced ?h" using none nth_mem by (fastforce simp: balanced_def load_def)
    ultimately show ?thesis using that [of ?h] True by (simp add: eq)
  next
    case False
    obtain von where "rebalance ?cx ?h = Some (Inr von)" "reshuffle ?h von"
      "2 * nat (cx_number ?cx) - 1 \<le> length (concat ?h) \<longrightarrow> balanced von"
      using rebalance_total [OF strategy_ctx_ok [OF assms] strategy_placement_ok [OF assms(2)]] .
    then show ?thesis using that [of von] False tot by (simp add: eq strategy_ctx_def)
  qed
qed

lemma home_placement_length: "length (home_placement indet cpu_usage vms number) = nat number"
  by (simp add: home_placement_def)

lemma reshuffle_length: "reshuffle von von' \<Longrightarrow> length von' = length von"
  by (simp add: reshuffle_def)

text \<open>In a balanced placement every node holds an equal share of the machines, rounded down or up.\<close>

lemma balanced_share:
  assumes "balanced von" "length von = n" "i < n"
  shows "length (concat von) div n \<le> load von i" "load von i \<le> (length (concat von) + n - 1) div n"
proof -
  have total: "length (concat von) = load von i + (\<Sum>j\<in>{..<n} - {i}. load von j)"
    using total_load [OF assms(2)] assms(3) by (simp add: sum.remove [of "{..<n}" i])
  have card: "card ({..<n} - {i}) = n - 1" using assms(3) by simp
  have le: "load von j \<le> load von i + 1" "load von i \<le> load von j + 1" if "j \<in> {..<n} - {i}" for j
    using assms that by (simp_all add: balanced_def)
  have "(\<Sum>j\<in>{..<n} - {i}. load von j) \<le> (n - 1) * (load von i + 1)"
    using sum_bounded_above [of "{..<n} - {i}" "load von" "load von i + 1"] le(1) card by simp
  then have "length (concat von) < n * (load von i + 1)"
    using total assms(3) by (cases n) simp_all
  then show "length (concat von) div n \<le> load von i"
    using less_mult_imp_div_less [of "length (concat von)" "load von i + 1" n] by (simp add: mult.commute)
  have "(n - 1) * load von i \<le> (\<Sum>j\<in>{..<n} - {i}. load von j + 1)"
    using sum_bounded_below [of "{..<n} - {i}" "load von i" "\<lambda>j. load von j + 1"] le(2) card by simp
  then have "(n - 1) * load von i \<le> (\<Sum>j\<in>{..<n} - {i}. load von j) + (n - 1)"
    by (simp only: sum.distrib sum_constant card) simp
  then have "load von i * n \<le> length (concat von) + n - 1"
    using total assms(3) by (cases n) (simp_all add: mult.commute)
  then show "load von i \<le> (length (concat von) + n - 1) div n"
    using assms(3) by (simp add: less_eq_div_iff_mult_less_eq)
qed

subsection \<open>The interface of a strategy\<close>

text \<open>
  What \<open>Nuiod\<close> relies on when it calls a strategy through the abstract class:
  on well-formed input the call returns, every decision is about a machine in
  the map, no machine is decided twice, and the nodes exist.
\<close>

locale schedule_strategy =
  fixes schedule :: "vm_info cpp_map \<Rightarrow> dbl list \<Rightarrow> numa_node list \<Rightarrow> int \<Rightarrow> int \<Rightarrow> decision list res option"
    and input_ok :: "vm_info cpp_map \<Rightarrow> dbl list \<Rightarrow> numa_node list \<Rightarrow> int \<Rightarrow> int \<Rightarrow> bool"
  assumes returns: "input_ok vms u nodes number nic \<Longrightarrow> \<exists>ds. schedule vms u nodes number nic = Some (Inr ds)"
    and known: "input_ok vms u nodes number nic \<Longrightarrow> schedule vms u nodes number nic = Some (Inr ds) \<Longrightarrow>
      set (map d_dom_id ds) \<subseteq> set (map_keys vms)"
    and once: "input_ok vms u nodes number nic \<Longrightarrow> schedule vms u nodes number nic = Some (Inr ds) \<Longrightarrow>
      distinct (map d_dom_id ds)"
    and in_range: "input_ok vms u nodes number nic \<Longrightarrow> schedule vms u nodes number nic = Some (Inr ds) \<Longrightarrow>
      d \<in> set ds \<Longrightarrow> 0 \<le> cpu_node_id d \<and> cpu_node_id d < number"
begin

lemma decides_at_most_all:
  assumes "input_ok vms u nodes number nic" "schedule vms u nodes number nic = Some (Inr ds)" "map_ok vms"
  shows "length ds \<le> length vms"
proof -
  have "length ds = card (set (map d_dom_id ds))"
    using once [OF assms(1,2)] by (metis distinct_card length_map)
  also have "\<dots> \<le> card (set (map_keys vms))" using known [OF assms(1,2)] by (simp add: card_mono)
  also have "\<dots> \<le> length vms" by (metis card_length length_map map_keys_def)
  finally show ?thesis .
qed

lemma total: "input_ok vms u nodes number nic \<Longrightarrow> \<exists>ds. schedule vms u nodes number nic = Some (Inr ds) \<and>
    set (map d_dom_id ds) \<subseteq> set (map_keys vms) \<and> distinct (map d_dom_id ds) \<and>
    (\<forall>d\<in>set ds. 0 \<le> cpu_node_id d \<and> cpu_node_id d < number)"
  using returns known once in_range by metis

end

lemma simple_schedule_strategy:
  assumes "std_sort compare_pairs_second srt"
  shows "schedule_strategy (SimpleStrategy_schedule srt ss indet) schedule_input_ok"
proof
  fix vms u nodes number nic ds d
  assume ok: "schedule_input_ok vms u nodes number nic"
  obtain von where von: "SimpleStrategy_schedule srt ss indet vms u nodes number nic = Some (Inr (decisions_of von))"
    "reshuffle (home_placement indet u vms number) von"
    using schedule_outcome [OF assms ok] by metis
  have "list_all (vm_input_ok u number) vms" "map_ok vms" using ok by (auto simp: schedule_input_ok_def)
  then have m: "mset (concat von) = mset (active_ids indet u vms)" "map_ok vms"
    using von(2) classify_result(2) [of u number vms indet] by (auto simp: reshuffle_def)
  show "\<exists>ds. SimpleStrategy_schedule srt ss indet vms u nodes number nic = Some (Inr ds)" using von by blast
  assume ds: "SimpleStrategy_schedule srt ss indet vms u nodes number nic = Some (Inr ds)"
  then have ids: "map d_dom_id ds = concat von" using von(1) decisions_ids [of von] by simp
  show "set (map d_dom_id ds) \<subseteq> set (map_keys vms)"
    using active_ids_keys mset_eq_setD [OF m(1)] by (simp only: ids)
  show "distinct (map d_dom_id ds)"
    using active_ids_distinct [OF m(2)] mset_eq_imp_distinct_iff [OF m(1)] by (simp only: ids)
  assume "d \<in> set ds"
  then show "0 \<le> cpu_node_id d \<and> cpu_node_id d < number"
    using decisions_nodes [of d von] ds von reshuffle_length [OF von(2)] ok
    by (auto simp: home_placement_length schedule_input_ok_def)
qed

interpretation simple: schedule_strategy
  "SimpleStrategy_schedule (insertion_sort compare_pairs_second) ss indet" schedule_input_ok for ss indet
  by (rule simple_schedule_strategy) (rule insertion.std_sort_axioms)

text \<open>The decisions when a single machine is placed.\<close>

lemma decisions_single:
  assumes "n < length von" "von ! n = [k]" "\<And>i. i < length von \<Longrightarrow> i \<noteq> n \<Longrightarrow> von ! i = []"
  shows "decisions_of von = [\<lparr>d_dom_id = k, cpu_node_id = int n, mem_node_id = int n\<rparr>]"
proof -
  let ?f = "\<lambda>i. map (\<lambda>v. \<lparr>d_dom_id = v, cpu_node_id = int i, mem_node_id = int i\<rparr>) (von ! i)"
  have "[0..<length von] = [0..<n] @ n # [Suc n..<length von]"
    using assms(1) by (metis le_add1 less_imp_add_positive upt_add_eq_append upt_conv_Cons add_0 le0 less_imp_le_nat)
  then have "decisions_of von = concat (map ?f [0..<n]) @ ?f n @ concat (map ?f [Suc n..<length von])"
    by (simp add: decisions_of_def)
  moreover have "concat (map ?f [0..<n]) = []" "concat (map ?f [Suc n..<length von]) = []"
    using assms by (auto simp: concat_eq_Nil_conv)
  ultimately show ?thesis using assms(2) by simp
qed

lemma lone_home:
  assumes "map_ok vms" "active_ids indet cpu_usage vms = [k]" "map_find vms k = Some vm" "i < nat number"
  shows "home_placement indet cpu_usage vms number ! i = (if mem_main_node_id vm = int i then [k] else [])"
proof -
  have act: "filter (vm_active indet cpu_usage) vms = [(k, vm)]"
  proof -
    obtain w where w: "filter (vm_active indet cpu_usage) vms = [(k, w)]"
      using assms(2) by (auto simp: active_ids_def map_eq_Cons_conv)
    then have "(k, w) \<in> set (filter (vm_active indet cpu_usage) vms)" by simp
    then have "(k, w) \<in> set vms" by simp
    then have "map_find vms k = Some w" by (simp add: map_find_in_set [OF assms(1)])
    then show ?thesis using w assms(3) by simp
  qed
  have "filter (\<lambda>kv. vm_active indet cpu_usage kv \<and> mem_main_node_id (snd kv) = int i) vms =
      filter (\<lambda>kv. mem_main_node_id (snd kv) = int i) (filter (vm_active indet cpu_usage) vms)"
    by (simp add: conj_commute)
  then show ?thesis using assms(4) by (simp add: home_placement_def act)
qed

subsection \<open>A small machine for the examples\<close>

text \<open>Two nodes with two CPUs each, the NIC on node 0, and two busy machines at home on node 0.\<close>

definition ex_vm :: "int \<Rightarrow> int \<Rightarrow> int \<Rightarrow> rat \<Rightarrow> vm_info" where
  "ex_vm k cpu home rate = zeroed_vm\<lparr>dom_id := k, real_cpu_no := cpu, real_cpu_usage := Fin 50,
     mem_main_node_id := home, packets_per_sec := Fin rate, packets_per_sec_history := Fin rate\<rparr>"

definition ex_node :: "int \<Rightarrow> int list \<Rightarrow> (int \<times> dbl) list \<Rightarrow> numa_node" where
  "ex_node n cpus lat = \<lparr>node_id = n, cpu_ids = cpus, sorted_lat_node_list = lat, free_mems = 0\<rparr>"

definition ex_nodes :: "numa_node list" where
  "ex_nodes = [ex_node 0 [0, 1] [(0, Fin 80), (1, Fin 130)], ex_node 1 [2, 3] [(1, Fin 80), (0, Fin 130)]]"

definition ex_usage :: "dbl list" where
  "ex_usage = [Fin 200, Fin 50, Fin 50, Fin 50, Fin 50]"

definition ex_vms :: "rat \<Rightarrow> vm_info cpp_map" where
  "ex_vms rate = [(1, ex_vm 1 0 0 rate), (2, ex_vm 2 1 0 rate)]"

lemma ex_vm_simps [simp]:
  "dom_id (ex_vm k cpu home rate) = k" "real_cpu_no (ex_vm k cpu home rate) = cpu"
  "mem_main_node_id (ex_vm k cpu home rate) = home" "real_cpu_usage (ex_vm k cpu home rate) = Fin 50"
  "packets_per_sec (ex_vm k cpu home rate) = Fin rate"
  "packets_per_sec_history (ex_vm k cpu home rate) = Fin rate"
  by (simp_all add: ex_vm_def zeroed_vm_def)

lemma ex_vm_busy: "0 \<le> cpu \<Longrightarrow> cpu < 4 \<Longrightarrow> \<not> vm_idle ex_usage (ex_vm k cpu home rate)"
proof (rule busy_not_idle)
  assume "0 \<le> cpu" "cpu < 4"
  then consider "cpu = 0" | "cpu = 1" | "cpu = 2" | "cpu = 3" by linarith
  then show "Fin 9 \<le> ex_usage ! nat (real_cpu_no (ex_vm k cpu home rate) + 1)"
    by cases (simp_all add: ex_usage_def less_eq_dbl_def)
qed (simp add: less_eq_dbl_def)

lemma ex_input_ok: "schedule_input_ok (ex_vms r) ex_usage ex_nodes 2 0"
  by (auto simp: schedule_input_ok_def ex_vms_def vm_input_ok_def node_input_ok_def map_ok_def
      ex_nodes_def ex_node_def ex_usage_def)

lemma ex_active: "active_ids (\<lambda>_. OTHER_STAT) ex_usage (ex_vms r) = [1, 2]"
  by (simp add: active_ids_def ex_vms_def vm_active_def ex_vm_busy)

lemma ex_home: "home_placement (\<lambda>_. OTHER_STAT) ex_usage (ex_vms r) 2 = [[1, 2], []]"
  by (simp add: home_placement_def ex_vms_def vm_active_def ex_vm_busy upt_rec)

text \<open>The equations that evaluate the balancing on a concrete number of nodes and machines.\<close>

lemmas balance_run =
  rebalance_def recount_def count_nodes_def insertion_sort_def compare_pairs_second_def size_to_int_small
  vec_at_def balance_guard_def int_to_unsigned_def balance_loop.simps balance_body_def balance_nic_def
  balance_other_def place_on_nic_def map_at_def vm_state_of_def search_target_def size_eq_unsigned_def
  move_vm_def decisions_of_def

subsection \<open>Properties\<close>

text \<open>C7. On well-formed input \<open>schedule\<close> returns without a fault (the balancing loop stops), and its
  decisions name every active machine exactly once and no other, each with an existing node that is
  the same for the virtual CPU and for the memory.\<close>

theorem schedule_decides_each_active_vm_once:
  assumes "std_sort compare_pairs_second srt"
    and "schedule_input_ok vms cpu_usage nodes number nic"
  shows "\<exists>ds. SimpleStrategy_schedule srt ss indet vms cpu_usage nodes number nic = Some (Inr ds) \<and>
    mset (map d_dom_id ds) = mset (active_ids indet cpu_usage vms) \<and> distinct (map d_dom_id ds) \<and>
    (\<forall>d\<in>set ds. mem_node_id d = cpu_node_id d \<and> 0 \<le> cpu_node_id d \<and> cpu_node_id d < number)"
proof -
  obtain von where von:
    "SimpleStrategy_schedule srt ss indet vms cpu_usage nodes number nic = Some (Inr (decisions_of von))"
    "reshuffle (home_placement indet cpu_usage vms number) von"
    using schedule_outcome [OF assms] by metis
  have "list_all (vm_input_ok cpu_usage number) vms" "map_ok vms" "0 < number"
    using assms(2) by (auto simp: schedule_input_ok_def)
  moreover from this have "mset (map d_dom_id (decisions_of von)) = mset (active_ids indet cpu_usage vms)"
    using von(2) classify_result(2) [of cpu_usage number vms indet] by (simp add: reshuffle_def decisions_ids)
  moreover from calculation have "distinct (map d_dom_id (decisions_of von))"
    using active_ids_distinct mset_eq_imp_distinct_iff by metis
  ultimately show ?thesis
    using von(1) decisions_nodes [of _ von] reshuffle_length [OF von(2)]
    by (force simp: home_placement_length)
qed

theorem schedule_decides_each_active_vm_once_witness:
  "\<exists>ds. SimpleStrategy_schedule (insertion_sort compare_pairs_second) SimpleStrategy_new (\<lambda>_. OTHER_STAT)
      (ex_vms 0) ex_usage ex_nodes 2 0 = Some (Inr ds) \<and> mset (map d_dom_id ds) = {#1, 2#}"
  using schedule_decides_each_active_vm_once
    [OF insertion.std_sort_axioms ex_input_ok [of 0], of SimpleStrategy_new "\<lambda>_. OTHER_STAT"]
  by (auto simp: ex_active)

text \<open>C8. With at least \<open>2n - 1\<close> active machines on \<open>n\<close> nodes the decisions are balanced: every node gets the
  \<open>n\<close>-th part of them, rounded down or up, and any two nodes differ by at most one machine.\<close>

theorem schedule_balances_many_vms:
  assumes "std_sort compare_pairs_second srt"
    and "schedule_input_ok vms cpu_usage nodes number nic"
    and "m = length (active_ids indet cpu_usage vms)" "n = nat number" "2 * n - 1 \<le> m"
  shows "\<exists>ds. SimpleStrategy_schedule srt ss indet vms cpu_usage nodes number nic = Some (Inr ds) \<and>
    (\<forall>i\<in>{0..<number}. m div n \<le> decided_on ds i \<and> decided_on ds i \<le> (m + n - 1) div n \<and>
      (\<forall>j\<in>{0..<number}. decided_on ds i \<le> decided_on ds j + 1))"
proof -
  obtain von where von:
    "SimpleStrategy_schedule srt ss indet vms cpu_usage nodes number nic = Some (Inr (decisions_of von))"
    "reshuffle (home_placement indet cpu_usage vms number) von" "balanced von"
    using schedule_outcome [OF assms(1,2)] assms(3-5) by metis
  have len: "length von = n" using reshuffle_length [OF von(2)] assms(4) by (simp add: home_placement_length)
  have "list_all (vm_input_ok cpu_usage number) vms" using assms(2) by (simp add: schedule_input_ok_def)
  then have tot: "length (concat von) = m"
    using von(2) classify_result(2) [of cpu_usage number vms indet] assms(3)
    by (metis reshuffle_def size_mset)
  have on: "decided_on (decisions_of von) i = load von (nat i)" "nat i < n" if "i \<in> {0..<number}" for i
    using decided_on_load [of "nat i" von] that len assms(4) by simp_all
  show ?thesis
    using von(1) on balanced_share [OF von(3) len] tot von(3) len
    by (intro exI [of _ "decisions_of von"]) (simp add: balanced_def)
qed

theorem schedule_balances_many_vms_witness:
  "\<exists>ds. SimpleStrategy_schedule (insertion_sort compare_pairs_second) SimpleStrategy_new (\<lambda>_. OTHER_STAT)
      (ex_vms 0 @ [(3, ex_vm 3 2 0 0)]) ex_usage ex_nodes 2 0 = Some (Inr ds) \<and>
    1 \<le> decided_on ds 0 \<and> decided_on ds 0 \<le> 2 \<and> decided_on ds 0 \<le> decided_on ds 1 + 1"
proof -
  have ok: "schedule_input_ok (ex_vms 0 @ [(3, ex_vm 3 2 0 0)]) ex_usage ex_nodes 2 0"
    by (auto simp: schedule_input_ok_def ex_vms_def vm_input_ok_def node_input_ok_def map_ok_def
        ex_nodes_def ex_node_def ex_usage_def)
  have "3 = length (active_ids (\<lambda>_. OTHER_STAT) ex_usage (ex_vms 0 @ [(3, ex_vm 3 2 0 0)]))"
    by (simp add: active_ids_def ex_vms_def vm_active_def ex_vm_busy)
  then obtain ds where "SimpleStrategy_schedule (insertion_sort compare_pairs_second) SimpleStrategy_new (\<lambda>_. OTHER_STAT)
      (ex_vms 0 @ [(3, ex_vm 3 2 0 0)]) ex_usage ex_nodes 2 0 = Some (Inr ds)"
    "\<forall>i\<in>{0..<2}. (3::nat) div 2 \<le> decided_on ds i \<and> decided_on ds i \<le> (3 + 2 - 1) div 2 \<and>
      (\<forall>j\<in>{0..<2}. decided_on ds i \<le> decided_on ds j + 1)"
    using schedule_balances_many_vms [OF insertion.std_sort_axioms ok, of 3 "\<lambda>_. OTHER_STAT" 2 SimpleStrategy_new]
    by auto
  then show ?thesis by (intro exI [of _ ds]) simp
qed

text \<open>C9. No decision makes the busiest node busier: if the home nodes hold at most \<open>b\<close> active
  machines each, so do the nodes after the decisions, for any number of machines.\<close>

theorem schedule_never_raises_peak_load:
  assumes "std_sort compare_pairs_second srt"
    and "schedule_input_ok vms cpu_usage nodes number nic"
    and "\<forall>l\<in>set (home_placement indet cpu_usage vms number). length l \<le> b"
  shows "\<exists>ds. SimpleStrategy_schedule srt ss indet vms cpu_usage nodes number nic = Some (Inr ds) \<and>
    (\<forall>node\<in>{0..<number}. decided_on ds node \<le> b)"
proof -
  let ?h = "home_placement indet cpu_usage vms number"
  obtain von where von:
    "SimpleStrategy_schedule srt ss indet vms cpu_usage nodes number nic = Some (Inr (decisions_of von))"
    "reshuffle ?h von"
    using schedule_outcome [OF assms(1,2)] by metis
  have "\<forall>i<length ?h. load ?h i \<le> b" using assms(3) nth_mem by (simp add: load_def)
  then have le: "load von i \<le> b" if "i < nat number" for i
    using von(2) that by (simp add: reshuffle_def home_placement_length)
  have "decided_on (decisions_of von) node \<le> b" if "node \<in> {0..<number}" for node
  proof -
    have n: "nat node < length von"
      using that reshuffle_length [OF von(2)] by (simp add: home_placement_length)
    have "decided_on (decisions_of von) node = load von (nat node)"
      using decided_on_load [OF n] that by simp
    then show ?thesis using le [of "nat node"] that by simp
  qed
  then show ?thesis using von(1) by blast
qed

theorem schedule_never_raises_peak_load_witness:
  "\<exists>ds. SimpleStrategy_schedule (insertion_sort compare_pairs_second) SimpleStrategy_new (\<lambda>_. OTHER_STAT)
      (ex_vms 0) ex_usage ex_nodes 2 0 = Some (Inr ds) \<and> decided_on ds 0 \<le> 2 \<and> decided_on ds 1 \<le> 2"
  using schedule_never_raises_peak_load
    [OF insertion.std_sort_axioms ex_input_ok [of 0], of "\<lambda>_. OTHER_STAT" 2 SimpleStrategy_new]
  by (auto simp: ex_home)

text \<open>C27. A balanced placement with a machine on the NIC's node is kept: every active machine is
  decided for the node its memory is on.\<close>

theorem schedule_keeps_balanced_placement:
  assumes "std_sort compare_pairs_second srt"
    and "schedule_input_ok vms cpu_usage nodes number nic"
    and "balanced (home_placement indet cpu_usage vms number)"
    and "home_placement indet cpu_usage vms number ! nat nic \<noteq> []"
  shows "SimpleStrategy_schedule srt ss indet vms cpu_usage nodes number nic =
    Some (Inr (decisions_of (home_placement indet cpu_usage vms number)))"
proof -
  let ?h = "home_placement indet cpu_usage vms number"
  let ?cx = "strategy_ctx srt ss vms cpu_usage nodes number nic"
  note ok = strategy_ctx_ok [OF assms(1,2)] strategy_placement_ok [OF assms(2)]
  have n: "cx_nic ?cx = int (nat nic)" "nat nic < length ?h"
    using assms(2) by (auto simp: strategy_ctx_def schedule_input_ok_def home_placement_length)
  obtain s where s: "recount ?cx ?h = Inr s" "rebalance ?cx ?h = Some (place_on_nic ?cx s)"
    using rebalance_balanced [OF ok assms(3)] .
  have "place_on_nic ?cx s = Inr ?h"
    using place_on_nic_exact [OF ok s(1) n(1)] assms(4) by (metis length_greater_0_conv less_irrefl load_def)
  moreover have "active_ids indet cpu_usage vms \<noteq> []"
  proof
    assume "active_ids indet cpu_usage vms = []"
    then have "concat ?h = []"
      using classify_result(2) [of cpu_usage number vms indet] assms(2) by (simp add: schedule_input_ok_def)
    then show False using assms(4) nth_mem [OF n(2)] by auto
  qed
  ultimately show ?thesis
    using s(2) by (simp add: schedule_eq_analyze [OF assms(2)] analyze_eq [OF assms(2)])
qed

theorem schedule_keeps_balanced_placement_witness:
  "SimpleStrategy_schedule (insertion_sort compare_pairs_second) SimpleStrategy_new (\<lambda>_. OTHER_STAT)
     [(1, ex_vm 1 0 0 0), (2, ex_vm 2 1 1 0)] ex_usage ex_nodes 2 0 =
   Some (Inr [\<lparr>d_dom_id = 1, cpu_node_id = 0, mem_node_id = 0\<rparr>,
              \<lparr>d_dom_id = 2, cpu_node_id = 1, mem_node_id = 1\<rparr>])"
proof -
  let ?vms = "[(1, ex_vm 1 0 0 0), (2, ex_vm 2 1 1 0)] :: vm_info cpp_map"
  have ok: "schedule_input_ok ?vms ex_usage ex_nodes 2 0"
    by (auto simp: schedule_input_ok_def vm_input_ok_def node_input_ok_def map_ok_def
        ex_nodes_def ex_node_def ex_usage_def)
  have h: "home_placement (\<lambda>_. OTHER_STAT) ex_usage ?vms 2 = [[1], [2]]"
    by (simp add: home_placement_def vm_active_def ex_vm_busy upt_rec)
  have "balanced [[1], [2]]" by (auto simp: balanced_def load_def less_Suc_eq)
  then show ?thesis
    using schedule_keeps_balanced_placement [OF insertion.std_sort_axioms ok, of "\<lambda>_. OTHER_STAT"
        SimpleStrategy_new] by (simp add: h decisions_of_def upt_rec)
qed

text \<open>C28. A machine that is alone on the system runs where its memory is, unless it is I/O intensive:
  then it is decided for the NIC's node.\<close>

theorem lone_vm_placement:
  assumes "std_sort compare_pairs_second srt"
    and "schedule_input_ok vms cpu_usage nodes number nic"
    and "active_ids indet cpu_usage vms = [k]" and "map_find vms k = Some vm"
  shows "SimpleStrategy_schedule srt ss indet vms cpu_usage nodes number nic =
    (let node = (if vm_state_of (states_of ss cpu_usage vms) k = IO_STAT then nic else mem_main_node_id vm)
     in Some (Inr [\<lparr>d_dom_id = k, cpu_node_id = node, mem_node_id = node\<rparr>]))"
proof -
  let ?h = "home_placement indet cpu_usage vms number"
  let ?cx = "strategy_ctx srt ss vms cpu_usage nodes number nic"
  define m where "m = nat (mem_main_node_id vm)"
  define n where "n = nat nic"
  note ok = strategy_ctx_ok [OF assms(1,2)] strategy_placement_ok [OF assms(2)]
  have mok: "map_ok vms" using assms(2) by (simp add: schedule_input_ok_def)
  have "vm_input_ok cpu_usage number (k, vm)"
    using assms(2,4) by (simp add: schedule_input_ok_def list_all_iff map_find_in_set)
  then have m: "mem_main_node_id vm = int m" "m < length ?h" "dom_id vm = k"
    by (auto simp: vm_input_ok_def m_def home_placement_length)
  have n: "nic = int n" "n < length ?h" "cx_nic ?cx = int n"
    using assms(2) by (auto simp: schedule_input_ok_def n_def home_placement_length strategy_ctx_def)
  have nth: "?h ! i = (if i = m then [k] else [])" if "i < length ?h" for i
    using lone_home [OF mok assms(3,4), of i number] that m by (auto simp: home_placement_length)
  then have ld: "load ?h i = (if i = m then 1 else 0)" if "i < length ?h" for i
    using that by (simp add: load_def)
  have "balanced ?h" by (auto simp: balanced_def ld)
  then obtain s where s: "recount ?cx ?h = Inr s" "rebalance ?cx ?h = Some (place_on_nic ?cx s)"
    using rebalance_balanced [OF ok] by metis
  obtain h where h: "h < length ?h" "\<forall>i<length ?h. load ?h i \<le> load ?h h"
    and eq: "place_on_nic ?cx s =
       (if load ?h h = 1 \<and> load ?h n = 0 \<and> vm_state_at ?cx (hd (?h ! h)) = IO_STAT
        then Inr (moved ?h h (hd (?h ! h)) n) else Inr ?h)"
    using place_on_nic_exact [OF ok s(1) n(3)] .
  have hm: "h = m" using h m(2) ld by (metis le_zero_eq one_neq_zero)
  have st: "vm_state_at ?cx k = vm_state_of (states_of ss cpu_usage vms) k"
    using m assms(4) by (simp add: vm_state_at_def strategy_ctx_def)
  have mv: "decisions_of (moved ?h m k n) = [\<lparr>d_dom_id = k, cpu_node_id = int n, mem_node_id = int n\<rparr>]" if "n \<noteq> m"
    by (rule decisions_single) (use that m n nth in \<open>auto simp: moved_def nth_list_update\<close>)
  have hh: "decisions_of ?h = [\<lparr>d_dom_id = k, cpu_node_id = int m, mem_node_id = int m\<rparr>]"
    by (rule decisions_single) (use m nth in auto)
  have "SimpleStrategy_schedule srt ss indet vms cpu_usage nodes number nic =
      Some (bind_res (place_on_nic ?cx s) (\<lambda>von. Inr (decisions_of von)))"
    by (simp add: schedule_eq_analyze [OF assms(2)] analyze_eq [OF assms(2)] assms(3) s)
  then show ?thesis
    unfolding eq hm using mv hh m n nth [OF m(2)] ld [OF m(2)] ld [OF n(2)] st
    by (cases "n = m") (simp_all add: Let_def)
qed

theorem lone_vm_placement_witness:
  "SimpleStrategy_schedule (insertion_sort compare_pairs_second) SimpleStrategy_new (\<lambda>_. OTHER_STAT)
     [(7, ex_vm 7 2 1 200000)] ex_usage ex_nodes 2 0 =
   Some (Inr [\<lparr>d_dom_id = 7, cpu_node_id = 0, mem_node_id = 0\<rparr>])"
proof -
  let ?vms = "[(7, ex_vm 7 2 1 200000)] :: vm_info cpp_map"
  have ok: "schedule_input_ok ?vms ex_usage ex_nodes 2 0"
    by (auto simp: schedule_input_ok_def vm_input_ok_def node_input_ok_def map_ok_def
        ex_nodes_def ex_node_def ex_usage_def)
  have act: "active_ids (\<lambda>_. OTHER_STAT) ex_usage ?vms = [7]"
    by (simp add: active_ids_def vm_active_def ex_vm_busy)
  have st: "states_of SimpleStrategy_new ex_usage ?vms = [7 \<mapsto> IO_STAT]"
    by (simp add: states_of_def vm_class_def ex_vm_busy high_rate_io less_eq_dbl_def)
  have "map_find ?vms 7 = Some (ex_vm 7 2 1 200000)" by (simp add: map_find_def)
  then show ?thesis
    using lone_vm_placement [OF insertion.std_sort_axioms ok act, of _ SimpleStrategy_new]
    by (simp add: st vm_state_of_def Let_def)
qed

text \<open>The NIC branch on two nodes, where node \<open>n\<close> holds the first list and the other node the second.\<close>

definition two :: "nat \<Rightarrow> 'a \<Rightarrow> 'a \<Rightarrow> 'a list" where
  "two n x y = (if n = 0 then [x, y] else [y, x])"

lemma two_nth [simp]: "n < 2 \<Longrightarrow> two n x y ! n = x" "n < 2 \<Longrightarrow> two n x y ! (1 - n) = y" "length (two n x y) = 2"
  by (auto simp: two_def less_2_cases_iff)

lemma nic_step:
  assumes "cx_ok cx" "cx_number cx = 2" "n < 2" "placement_ok cx (vm_on_node s)" "vm_on_node s = two n (v # l) m"
    "high_load_node s = int n" "min_vm_cnt s = int_to_unsigned 0" "min_load_node s = int (1 - n)"
    "map_find (cx_vms cx) v = Some vm" "vm_state_of (cx_states cx) (dom_id vm) = OTHER_STAT" "v \<noteq> -1"
  shows "balance_nic cx s = Inr (s\<lparr>min_load_node := int (1 - n), vm_on_node := two n l (m @ [v])\<rparr>)"
proof -
  obtain t where t: "search_target cx s = Inr (int t)" "target_ok cx (vm_on_node s) 0 (1 - n) t"
    by (rule search_total [OF assms(1,4,6) _ _ _ assms(8)]) (use assms(2,3,7) in auto)
  have "t = 1 - n"
  proof (rule ccontr)
    assume "t \<noteq> 1 - n"
    then have "t = n" "load (vm_on_node s) t = 0" using t(2) assms(2,3) by (auto simp: target_ok_def)
    then show False using assms(3) by (simp add: load_def assms(5))
  qed
  moreover have "find_vm cx OTHER_STAT (v # l) = Inr (Some v)" using assms(9-11) by (simp add: map_at_def)
  moreover have "move_vm (two n (v # l) m) (int n) v (int (1 - n)) = Inr (two n l (m @ [v]))"
    using assms(3) by (auto simp: move_vm_def vec_at_def two_def less_2_cases_iff Let_def)
  moreover have "vec_at (two n (v # l) m) (int n) = Inr (v # l)" using assms(3) by (simp add: vec_at_def)
  ultimately show ?thesis using t(1) by (simp add: balance_nic_def assms(5,6))
qed

lemma sort_two:
  assumes "std_sort compare_pairs_second srt" "snd p < (snd q :: int)" "xs = [p, q] \<or> xs = [q, p]"
  shows "srt xs = [p, q]"
proof -
  have m: "mset (srt xs) = mset xs" and o: "sorted_wrt (\<lambda>x y. \<not> compare_pairs_second y x) (srt xs)"
    by (rule std_sort.srt_perm [OF assms(1) strict_weak_on_int], rule std_sort.srt_sorted [OF assms(1) strict_weak_on_int])
  have "length xs = 2" "set xs = {p, q}" using assms(3) by auto
  then have "length (srt xs) = 2" "set (srt xs) = {p, q}"
    by (simp_all only: mset_eq_length [OF m] mset_eq_setD [OF m])
  moreover from this(1) obtain x y where s: "srt xs = [x, y]" by (auto simp: length_Suc_conv numeral_2_eq_2)
  ultimately have "{x, y} = {p, q}" by simp
  then have "x = p \<and> y = q \<or> x = q \<and> y = p" by (simp add: doubleton_eq_iff)
  then show ?thesis using o assms(2) by (elim disjE) (simp_all add: s compare_pairs_second_def)
qed

lemma nic_pair_moves:
  assumes "cx_ok cx" "cx_number cx = 2" "cx_nic cx = int n" "n < 2" "placement_ok cx (two n [a, b] [])"
    "\<forall>v\<in>{a, b}. vm_state_at cx v = OTHER_STAT \<and> v \<noteq> -1"
  shows "rebalance cx (two n [a, b] []) = Some (Inr (two n [] [a, b]))"
proof -
  define s0 where "s0 = \<lparr>vm_on_node = two n [a, b] [], node_vm_vec = [(int (1 - n), 0), (int n, 2)], max_vm_idx = 1,
    high_load_node = int n, max_vm_cnt = int_to_unsigned 2, min_vm_cnt = int_to_unsigned 0, min_load_node = int (1 - n)\<rparr>"
  define s1 where "s1 = s0\<lparr>min_load_node := int (1 - n), vm_on_node := two n [b] ([] @ [a])\<rparr>"
  define s2 where "s2 = s1\<lparr>min_load_node := int (1 - n), vm_on_node := two n [] ([a] @ [b])\<rparr>"
  define s3 where "s3 = s2\<lparr>max_vm_idx := 0, max_vm_cnt := int_to_unsigned 0, high_load_node := int (1 - n),
    min_vm_cnt := int_to_unsigned 0\<rparr>"
  note ss = s0_def s1_def s2_def s3_def
  have srt: "std_sort compare_pairs_second (cx_sort cx)" using assms(1) by (simp add: cx_ok_def)
  have "cx_sort cx (count_nodes cx (two n [a, b] [])) = [(int (1 - n), 0), (int n, 2)]"
    by (rule sort_two [OF srt]) (use assms(2,4) in \<open>auto simp: count_nodes_def two_def less_2_cases_iff upt_rec size_to_int_small\<close>)
  then have r: "recount cx (two n [a, b] []) = Inr s0"
    by (simp add: recount_def s0_def size_to_int_small vec_at_def Let_def)
  have known: "\<exists>vm. map_find (cx_vms cx) v = Some vm \<and> vm_state_of (cx_states cx) (dom_id vm) = OTHER_STAT" if "v \<in> {a, b}" for v
    using that assms(5,6) by (auto simp: placement_ok_def vm_state_at_def two_def split: if_splits)
  obtain va vb where v: "map_find (cx_vms cx) a = Some va" "vm_state_of (cx_states cx) (dom_id va) = OTHER_STAT"
    "map_find (cx_vms cx) b = Some vb" "vm_state_of (cx_states cx) (dom_id vb) = OTHER_STAT"
    using known [of a] known [of b] by auto
  have "placement_ok cx (two n [b] [a])" using assms(5) by (auto simp: placement_ok_def two_def)
  then have 1: "balance_nic cx s0 = Inr s1" "balance_nic cx s1 = Inr s2"
    using nic_step [OF assms(1,2,4) _ _ _ _ _ v(1,2), of s0 "[b]" "[]"] nic_step [OF assms(1,2,4) _ _ _ _ _ v(3,4), of s1 "[]" "[a]"]
      assms(5,6) by (simp_all add: ss)
  have 3: "balance_nic cx s2 = Inr s3"
    using assms(4) by (simp add: balance_nic_def ss vec_at_def Let_def)
  have g: "balance_guard s0" "balance_guard s1" "balance_guard s2" "\<not> balance_guard s3"
    by (simp_all add: balance_guard_def ss int_to_unsigned_def)
  have b: "balance_body cx s = balance_nic cx s" if "s \<in> {s0, s1, s2}" for s
    using that assms(3) by (auto simp: balance_body_def ss int_to_unsigned_def)
  have "balance_loop cx s3 = Some (Inr s3)" using g(4) by (subst balance_loop.simps) simp
  then have "balance_loop cx s2 = Some (Inr s3)" using g(3) 3 b by (subst balance_loop.simps) simp
  then have "balance_loop cx s1 = Some (Inr s3)" using g(2) 1(2) b by (subst balance_loop.simps) simp
  then have "balance_loop cx s0 = Some (Inr s3)" using g(1) 1(1) b by (subst balance_loop.simps) simp
  then show ?thesis using r g(1) by (simp add: rebalance_def) (simp add: ss)
qed

text \<open>C33. The NIC branch of the loop keeps using counts it has made out of date: when a host of two nodes has two
  active machines, both memory intensive and both at home on the NIC's node, it moves the second after the
  first and ends with both on the other node, as far from balanced as before, for any conforming sort.\<close>

theorem nic_branch_overshoots:
  assumes "std_sort compare_pairs_second srt" "schedule_input_ok vms cpu_usage nodes 2 nic"
    "home_placement indet cpu_usage vms 2 ! nat nic = [a, b]" "home_placement indet cpu_usage vms 2 ! nat (1 - nic) = []"
    "vm_state_of (states_of ss cpu_usage vms) a = OTHER_STAT" "vm_state_of (states_of ss cpu_usage vms) b = OTHER_STAT"
    "a \<noteq> -1" "b \<noteq> -1"
  shows "SimpleStrategy_schedule srt ss indet vms cpu_usage nodes 2 nic =
    Some (Inr [\<lparr>d_dom_id = a, cpu_node_id = 1 - nic, mem_node_id = 1 - nic\<rparr>,
               \<lparr>d_dom_id = b, cpu_node_id = 1 - nic, mem_node_id = 1 - nic\<rparr>])"
proof -
  let ?h = "home_placement indet cpu_usage vms 2"
  let ?cx = "strategy_ctx srt ss vms cpu_usage nodes 2 nic"
  define n where "n = nat nic"
  have n: "nic = int n" "n < 2" "nat (1 - nic) = 1 - n" using assms(2) by (auto simp: schedule_input_ok_def n_def)
  have len: "length ?h = 2" by (simp add: home_placement_length)
  have h: "?h = two n [a, b] []"
    by (rule nth_equalityI) (use len n(2) assms(3,4) in \<open>auto simp: n two_def less_2_cases_iff\<close>)
  note ok = strategy_ctx_ok [OF assms(1,2)] strategy_placement_ok [OF assms(2), of srt ss indet, unfolded h]
  have c: "cx_number ?cx = 2" "cx_nic ?cx = int n" "cx_states ?cx = states_of ss cpu_usage vms" "cx_vms ?cx = vms"
    by (simp_all add: strategy_ctx_def n)
  have "dom_id vm = v" if "map_find vms v = Some vm" for v vm
    using that assms(2) by (auto simp: schedule_input_ok_def list_all_iff vm_input_ok_def map_find_in_set)
  moreover have "map_find vms v \<noteq> None" if "v \<in> {a, b}" for v
    using that ok(2) by (auto simp: placement_ok_def c two_def split: if_splits)
  ultimately have st: "\<forall>v\<in>{a, b}. vm_state_at ?cx v = OTHER_STAT \<and> v \<noteq> -1"
    using assms(5-8) by (fastforce simp: vm_state_at_def c)
  have "concat ?h \<noteq> []" by (simp add: h two_def)
  then have "active_ids indet cpu_usage vms \<noteq> []"
    using classify_result(2) [of cpu_usage 2 vms indet] assms(2) by (auto simp: schedule_input_ok_def)
  moreover have "decisions_of (two n [] [a, b]) =
      [\<lparr>d_dom_id = a, cpu_node_id = 1 - nic, mem_node_id = 1 - nic\<rparr>, \<lparr>d_dom_id = b, cpu_node_id = 1 - nic, mem_node_id = 1 - nic\<rparr>]"
    using n by (auto simp: decisions_of_def two_def less_2_cases_iff upt_rec)
  ultimately show ?thesis
    using nic_pair_moves [OF ok(1) c(1,2) n(2) ok(2) st]
    by (simp add: schedule_eq_analyze [OF assms(2)] analyze_eq [OF assms(2)] h)
qed

theorem nic_branch_overshoots_witness:
  "SimpleStrategy_schedule (insertion_sort compare_pairs_second) SimpleStrategy_new (\<lambda>_. OTHER_STAT)
     (ex_vms 0) ex_usage ex_nodes 2 0 =
   Some (Inr [\<lparr>d_dom_id = 1, cpu_node_id = 1 - 0, mem_node_id = 1 - 0\<rparr>,
              \<lparr>d_dom_id = 2, cpu_node_id = 1 - 0, mem_node_id = 1 - 0\<rparr>])"
proof -
  have st: "states_of SimpleStrategy_new ex_usage (ex_vms 0) = [1 \<mapsto> OTHER_STAT, 2 \<mapsto> OTHER_STAT]"
    by (simp add: states_of_def ex_vms_def vm_class_def ex_vm_busy low_rate_other less_eq_dbl_def)
  show ?thesis
    by (rule nic_branch_overshoots [OF insertion.std_sort_axioms ex_input_ok]) (simp_all add: st ex_home vm_state_of_def)
qed

text \<open>C34. \<open>vm_state\<close> is read uninitialised for every machine that is not idle: when the storage
  happens to hold \<open>IDLE_STAT\<close>, the strategy makes no decision at all, however busy the machines are.\<close>

theorem uninitialised_state_drops_every_vm:
  assumes "schedule_input_ok vms cpu_usage nodes number nic"
  shows "SimpleStrategy_schedule srt ss (\<lambda>_. IDLE_STAT) vms cpu_usage nodes number nic = Some (Inr [])"
  by (simp add: schedule_eq_analyze [OF assms] analyze_eq [OF assms] active_ids_def vm_active_def)

theorem uninitialised_state_drops_every_vm_witness:
  "SimpleStrategy_schedule (insertion_sort compare_pairs_second) SimpleStrategy_new (\<lambda>_. IDLE_STAT)
     (ex_vms 0) ex_usage ex_nodes 2 0 = Some (Inr []) \<and> \<not> vm_idle ex_usage (ex_vm 1 0 0 0)"
  using uninitialised_state_drops_every_vm [OF ex_input_ok [of 0]] ex_vm_busy by simp

end
