(* ===== verification/Daemon.thy ===== *)
theory Daemon
  imports Lifecycle Scheduling
begin

section \<open>The daemon\<close>

text \<open>
  \<open>monitor_io\<close>, \<open>monitor\<close>, \<open>init\<close> and \<open>start\<close> of \<open>src/Nuiod.cpp\<close>. The strategy is an
  argument, used through the locale \<open>schedule_strategy\<close>; the main loop is a list
  of rounds, each with the host it sees. The thread that \<open>init\<close> creates writes
  only the NUMA members, which nothing reads before it is joined, so its effect
  is placed at the join. The output of the program is left out.
\<close>

subsection \<open>Monitoring\<close>

definition monitor_vm_io :: "host \<Rightarrow> int \<Rightarrow> int \<times> nuiod \<Rightarrow> int \<times> nuiod" where
  "monitor_vm_io h k = (\<lambda>(ret, nd).
     case map_find (vm_infos_map nd) k of
       None \<Rightarrow> (ret, nd)
     | Some vm \<Rightarrow>
         (let (flag, vm') = monitorIO (h_file h) (h_now h k) (io_mon nd) vm
          in (if flag \<noteq> 0 then flag else ret,
              nd\<lparr>vm_infos_map := map_assign k vm' (vm_infos_map nd)\<rparr>)))"

definition monitor_io :: "host \<Rightarrow> nuiod \<Rightarrow> int \<times> nuiod" where
  "monitor_io h nd = fold (monitor_vm_io h) (map_keys (vm_infos_map nd)) (0, nd)"

definition store_free_mem :: "int \<Rightarrow> u64 \<Rightarrow> numa_node list \<Rightarrow> numa_node list res" where
  "store_free_mem i v nodes =
     bind_res (vec_at nodes i) (\<lambda>node. Inr (nodes[nat i := node\<lparr>free_mems := v\<rparr>]))"

definition store_free_mems :: "u64 list \<Rightarrow> numa_node list \<Rightarrow> numa_node list res" where
  "store_free_mems freeMemVec nodes =
     fold_res (\<lambda>i ns. store_free_mem (int i) (freeMemVec ! i) ns) [0..<length freeMemVec] nodes"

definition monitor_vm_perf :: "host \<Rightarrow> int \<Rightarrow> nuiod \<Rightarrow> nuiod res" where
  "monitor_vm_perf h k nd =
     (case map_find (vm_infos_map nd) k of
        None \<Rightarrow> Inr nd
      | Some vm \<Rightarrow>
          bind_res (monitorPerfEvent (h_stack h) (h_perf h k) vm) (\<lambda>(ret, vm').
            Inr (nd\<lparr>vm_infos_map := map_assign k vm' (vm_infos_map nd)\<rparr>)))"

definition monitor :: "host \<Rightarrow> dbl list \<Rightarrow> nuiod \<Rightarrow> (dbl list \<times> nuiod) res" where
  "monitor h cpu_usage nd =
     (let (io_ret, nd1) = monitor_io h nd
      in bind_res (get_cpu_usage (h_file h ''/proc/stat'') cpu_usage (cpu_mon nd1)) (\<lambda>(cpu_ret, cpu_usage', cm).
         bind_res (get_node_freemem (h_cells h) (conn nd1) [] (mem_mon nd1)) (\<lambda>(mem_ret, freeMemVec, mm).
         bind_res (store_free_mems freeMemVec (numa_nodes (numa nd1))) (\<lambda>nodes.
         let nd2 = nd1\<lparr>cpu_mon := cm, mem_mon := mm, numa := (numa nd1)\<lparr>numa_nodes := nodes\<rparr>\<rparr>
         in bind_res (fold_res (monitor_vm_perf h) (map_keys (vm_infos_map nd2)) nd2) (\<lambda>nd3.
            Inr (cpu_usage', nd3))))))"

subsection \<open>The main loop\<close>

type_synonym strategy =
  "vm_info cpp_map \<Rightarrow> dbl list \<Rightarrow> numa_node list \<Rightarrow> int \<Rightarrow> int \<Rightarrow> decision list res option"

text \<open>
  One round after the events have been handled; \<open>cpu_usage\<close> is the local vector
  of \<open>start\<close>. \<open>None\<close> is a strategy that does not return.
\<close>

definition round_body ::
  "latency_sort \<Rightarrow> strategy \<Rightarrow> host \<Rightarrow> dbl list \<times> nuiod \<Rightarrow> (dbl list \<times> nuiod) res option" where
  "round_body srt schedule h s =
     (case monitor h (fst s) (refresh_cpu_mapping (h_vcpu h) (snd s)) of
        Inl e \<Rightarrow> Some (Inl e)
      | Inr (cpu_usage, nd) \<Rightarrow>
          (case schedule (vm_infos_map nd) cpu_usage (numa_nodes (numa nd)) (numa_number (numa nd)) (netdev_numanode nd) of
             None \<Rightarrow> None
           | Some (Inl e) \<Rightarrow> Some (Inl e)
           | Some (Inr acts) \<Rightarrow>
               Some (bind_res (perform srt (h_pin h) (h_vm_storage h) acts cpu_usage nd) (\<lambda>nd'. Inr (cpu_usage, nd')))))"

text \<open>A round: what libvirt notifies, and the host during the rest of it.\<close>

type_synonym daemon_round = "vir_notification list \<times> host"

definition loop_round ::
  "latency_sort \<Rightarrow> strategy \<Rightarrow> daemon_round \<Rightarrow> dbl list \<times> nuiod \<Rightarrow> (dbl list \<times> nuiod) res option" where
  "loop_round srt schedule r s =
     (case fold_res run_event (fst r) (snd s) of
        Inl e \<Rightarrow> Some (Inl e)
      | Inr nd \<Rightarrow> round_body srt schedule (snd r) (fst s, nd))"

fun loop_rounds ::
  "latency_sort \<Rightarrow> strategy \<Rightarrow> daemon_round list \<Rightarrow> dbl list \<times> nuiod \<Rightarrow> (dbl list \<times> nuiod) res option" where
  "loop_rounds srt schedule [] s = Some (Inr s)"
| "loop_rounds srt schedule (r # rs) s =
     (case loop_round srt schedule r s of
        None \<Rightarrow> None
      | Some (Inl e) \<Rightarrow> Some (Inl e)
      | Some (Inr s') \<Rightarrow> loop_rounds srt schedule rs s')"

subsection \<open>Initialisation\<close>

text \<open>
  The answers of libvirt, the thread library and libnuma during the start:
  \<open>virInitialize\<close>, \<open>virEventRegisterDefaultImpl\<close>, \<open>virConnectOpen\<close>, \<open>pthread_create\<close>,
  \<open>pthread_join\<close>, the two registrations of callbacks, \<open>numa_node_to_cpus\<close>, the
  measured latency, and the contents of uninitialised arrays.
\<close>

record services =
  s_initialize :: int
  s_event_impl :: int
  s_open :: "string \<Rightarrow> vir_ptr"
  s_thread_create :: int
  s_thread_join :: int
  s_close_callback :: int
  s_event_register :: int
  s_node_cpus :: node_cpus_fun
  s_latency :: latency_fun
  s_matrix_storage :: "nat \<Rightarrow> nat \<Rightarrow> dbl"
  s_can_write :: bool
  s_cpu_storage :: "nat \<Rightarrow> cpu_stat"

definition numa_node_path :: "string \<Rightarrow> string" where
  "numa_node_path dev = snprintf MAX_PATH_LEN (''/sys/class/net/'' @ dev @ ''/device/numa_node'')"

text \<open>From the creation of the monitors on.\<close>

definition init_monitors :: "latency_sort \<Rightarrow> services \<Rightarrow> host \<Rightarrow> nuiod \<Rightarrow> (int \<times> nuiod) res" where
  "init_monitors srt sv h nd =
     (let nd1 = nd\<lparr>io_mon := initIOMonitor (netdev nd)\<rparr>
      in bind_res (init_cpu_monitor (s_cpu_storage sv) (h_file h ''/proc/stat'') (cpu_mon nd1)) (\<lambda>(ret, cm).
         let nd2 = nd1\<lparr>cpu_mon := cm\<rparr>
         in if ret \<noteq> 0 then Inr (-1, nd2)
            else case h_file h (numa_node_path (netdev nd2)) of
                   None \<Rightarrow> Inr (-1, nd2)
                 | Some s \<Rightarrow>
                     (case scan_d s of
                        None \<Rightarrow> Inr (-1, nd2)
                      | Some (node, _) \<Rightarrow>
                          (let nd3 = nd2\<lparr>netdev_numanode := node\<rparr>;
                               (lret, written, nu) = init_numa_info srt (s_node_cpus sv) (s_latency sv) (s_matrix_storage sv)
                                 (h_file h ''/etc/nuiod.latency'') (s_can_write sv) (numa nd3);
                               nd4 = nd3\<lparr>numa := nu\<rparr>
                           in if s_thread_join sv \<noteq> 0 then Inr (-1, nd4)
                              else Inr (if lret = -1 then -1 else 0, nd4)))))"

definition Nuiod_init :: "latency_sort \<Rightarrow> services \<Rightarrow> host \<Rightarrow> nuiod \<Rightarrow> (int \<times> nuiod) res" where
  "Nuiod_init srt sv h nd =
     (if s_initialize sv < 0 \<or> s_event_impl sv < 0 then Inr (-1, nd)
      else let nd1 = nd\<lparr>conn := s_open sv (conn_str nd)\<rparr>
      in if conn nd1 = None \<or> s_thread_create sv \<noteq> 0 then Inr (-1, nd1)
      else bind_res (parse_conf (h_file h) nd1) (\<lambda>(ret, nd2).
         if ret = -1 then Inl (Exit 1)
         else if s_close_callback sv < 0 \<or> s_event_register sv \<noteq> 0 then Inr (-1, nd2)
         else bind_res (init_vminfo h nd2) (\<lambda>(ret, nd3).
              if ret \<noteq> 0 then Inr (-1, nd3) else init_monitors srt sv h nd3)))"

text \<open>\<open>start\<close>, observed for a number of rounds.\<close>

definition start ::
  "latency_sort \<Rightarrow> strategy \<Rightarrow> services \<Rightarrow> host \<Rightarrow> daemon_round list \<Rightarrow> nuiod \<Rightarrow> (dbl list \<times> nuiod) res option" where
  "start srt schedule sv h rounds nd =
     (case Nuiod_init srt sv h nd of
        Inl e \<Rightarrow> Some (Inl e)
      | Inr (ret, nd') \<Rightarrow>
          if ret = -1 then Some (Inl (Exit 1)) else loop_rounds srt schedule rounds ([], nd'))"

subsection \<open>The invariant of the loop\<close>

text \<open>
  \<open>static_ok\<close> is about the host as the daemon has read it: nodes, latencies, the
  node of the network card and the CPU monitor. \<open>vms_ok\<close> says that the records of the
  machines name CPUs and nodes of the host.
\<close>

definition static_ok :: "nuiod \<Rightarrow> bool" where
  "static_ok nd \<longleftrightarrow> nodes_ok nd \<and>
     0 < numa_number (numa nd) \<and> numa_number (numa nd) < 2 ^ 31 \<and>
     0 \<le> netdev_numanode nd \<and> netdev_numanode nd < numa_number (numa nd) \<and>
     (\<forall>node\<in>set (numa_nodes (numa nd)). fst ` set (sorted_lat_node_list node) = {0..<numa_number (numa nd)}) \<and>
     (\<exists>arr. cpu_mon nd = \<lparr>cpu_number = host_cpu_number nd, cpu_stat_array = Some arr\<rparr> \<and>
        int (length arr) = host_cpu_number nd + 1) \<and>
     mem_numa_number (mem_mon nd) = numa_number (numa nd)"

definition vm_range :: "nuiod \<Rightarrow> vm_info \<Rightarrow> bool" where
  "vm_range nd vm \<longleftrightarrow> -1 \<le> real_cpu_no vm \<and> real_cpu_no vm < host_cpu_number nd \<and>
     0 \<le> mem_main_node_id vm \<and> mem_main_node_id vm < numa_number (numa nd)"

definition vms_ok :: "nuiod \<Rightarrow> bool" where
  "vms_ok nd \<longleftrightarrow> card (dom (vm_at nd)) < 2 ^ 31 \<and> (\<forall>d vm. vm_at nd d = Some vm \<longrightarrow> vm_range nd vm)"

definition daemon_ok :: "nuiod \<Rightarrow> bool" where
  "daemon_ok nd \<longleftrightarrow> mapping_ok nd \<and> static_ok nd \<and> vms_ok nd"

text \<open>A host that answers: CPUs that exist, counters that advance, free memory of the nodes, counts of perf.\<close>

definition cpu_answers :: "host \<Rightarrow> nuiod \<Rightarrow> bool" where
  "cpu_answers h nd \<longleftrightarrow> (\<forall>p. fst (h_vcpu h p) = -1 \<or> (0 \<le> snd (h_vcpu h p) \<and> snd (h_vcpu h p) < host_cpu_number nd))"

definition cpu_stat_readable :: "host \<Rightarrow> nuiod \<Rightarrow> bool" where
  "cpu_stat_readable h nd \<longleftrightarrow> (\<exists>rows r arr. h_file h ''/proc/stat'' = Some (proc_stat rows r) \<and> list_all row_ok rows \<and>
     int (length rows) = host_cpu_number nd + 1 \<and> tail_ok r \<and> cpu_stat_array (cpu_mon nd) = Some arr \<and>
     (\<forall>k<length rows. advance (arr ! k) (counters (rows ! k)) \<and> 0 < ticks (arr ! k) (counters (rows ! k)) \<and>
        ticks (arr ! k) (counters (rows ! k)) < 2 ^ 64))"

definition rest_readable :: "host \<Rightarrow> nuiod \<Rightarrow> bool" where
  "rest_readable h nd \<longleftrightarrow>
     (\<exists>vals. h_cells h (numa_number (numa nd)) = (int (length vals), vals) \<and> int (length vals) \<le> numa_number (numa nd)) \<and>
     (\<forall>d. \<exists>ls. list_all perf_text_ok ls \<and> h_perf h d = Some (concat (map (\<lambda>l. perf_text l @ [newline]) ls)))"

definition host_ok :: "host \<Rightarrow> nuiod \<Rightarrow> bool" where
  "host_ok h nd \<longleftrightarrow> cpu_answers h nd \<and> cpu_stat_readable h nd \<and> rest_readable h nd"

lemma static_ok_core:
  assumes "core nd' = core nd" shows "static_ok nd' = static_ok nd"
  unfolding static_ok_def core_nodes_ok [OF assms]
  by (simp only: core_fields [OF assms])

lemma vm_range_core: "core nd' = core nd \<Longrightarrow> vm_range nd' vm = vm_range nd vm"
  unfolding vm_range_def by (frule core_fields(1), drule core_fields(2)) simp

lemma map_find_card: "map_ok m \<Longrightarrow> length m = card (dom (map_find m))"
  using distinct_card [OF vmap.keys_distinct [of m]] vmap.keys_dom [of m] by (simp add: map_keys_def)

lemma vm_count: "maps_ok nd \<Longrightarrow> length (vm_infos_map nd) = card (dom (vm_at nd))"
  by (simp add: maps_ok_def vm_at_def map_find_card)

subsection \<open>Refreshing keeps it\<close>

lemma change_core [simp]: "core (change_cpu_vm_mapping k vm c nd) = core nd"
  by (simp add: change_cpu_vm_mapping_def Let_def core_def)

lemma refresh_vm_ok:
  assumes "daemon_ok nd" "cpu_answers h nd"
  shows "daemon_ok (refresh_vm (h_vcpu h) k nd) \<and> core (refresh_vm (h_vcpu h) k nd) = core nd"
proof (cases "vm_at nd k")
  case None
  then show ?thesis using assms(1) by (simp add: refresh_vm_def vm_at_def)
next
  case (Some vm)
  have m: "mapping_ok nd" using assms(1) by (simp add: daemon_ok_def)
  note v = refresh_vm_view [OF mapping_ok_maps [OF m] Some, of "h_vcpu h"]
  let ?nd = "refresh_vm (h_vcpu h) k nd"
  have c: "core ?nd = core nd"
    by (auto simp: refresh_vm_def Let_def split: option.splits)
  have "vm_range nd vm" using assms(1) Some by (simp add: daemon_ok_def vms_ok_def)
  then have r: "vm_range nd (vm\<lparr>real_cpu_no := new_cpu_of (h_vcpu h) vm\<rparr>)"
    using assms(2) [unfolded cpu_answers_def, rule_format, of "dom_ptr vm"]
    by (auto simp: vm_range_def new_cpu_of_def get_vm_real_cpu_def Let_def split: prod.splits)
  have "dom (vm_at ?nd) = dom (vm_at nd)" by (rule refresh_vm_dom [OF mapping_ok_maps [OF m]])
  then have "vms_ok ?nd"
    using assms(1) r by (auto simp: vms_ok_def v(1) vm_range_core [OF c] daemon_ok_def simp del: fun_upd_apply) (auto split: if_splits)
  then show ?thesis
    using assms(1) c refresh_vm_mapping_ok [OF m] static_ok_core [OF c] by (simp add: daemon_ok_def)
qed

lemma refresh_ok:
  assumes "daemon_ok nd" "cpu_answers h nd"
  shows "daemon_ok (refresh_cpu_mapping (h_vcpu h) nd) \<and> core (refresh_cpu_mapping (h_vcpu h) nd) = core nd"
proof -
  have "daemon_ok nd' \<and> core nd' = core nd \<Longrightarrow>
      daemon_ok (fold (refresh_vm (h_vcpu h)) ks nd') \<and> core (fold (refresh_vm (h_vcpu h)) ks nd') = core nd" for ks nd'
  proof (induction ks arbitrary: nd')
    case (Cons k ks)
    have "cpu_answers h nd'" using assms(2) Cons.prems core_fields(2) [of nd' nd] by (simp add: cpu_answers_def)
    then show ?case using Cons.IH [of "refresh_vm (h_vcpu h) k nd'"] refresh_vm_ok [of nd' h k] Cons.prems by simp
  qed simp
  then show ?thesis using assms(1) by (simp add: refresh_cpu_mapping_def)
qed

subsection \<open>Monitoring keeps it\<close>

text \<open>What monitoring leaves of a record, and of all of them.\<close>

definition vm_key :: "vm_info \<Rightarrow> int \<times> vir_ptr \<times> int \<times> int \<times> vir_event" where
  "vm_key vm = (dom_id vm, dom_ptr vm, real_cpu_no vm, mem_main_node_id vm, vm_event_state vm)"

definition same_vms :: "nuiod \<Rightarrow> nuiod \<Rightarrow> bool" where
  "same_vms nd nd' \<longleftrightarrow> maps_ok nd' \<and> cpu_vm_mapping nd' = cpu_vm_mapping nd \<and>
     (\<forall>d. map_option vm_key (vm_at nd' d) = map_option vm_key (vm_at nd d))"

lemma same_vms_refl: "maps_ok nd \<Longrightarrow> same_vms nd nd"
  by (simp add: same_vms_def)

lemma same_vms_trans: "same_vms nd nd' \<Longrightarrow> same_vms nd' nd'' \<Longrightarrow> same_vms nd nd''"
  by (simp add: same_vms_def)

lemma same_vms_update:
  assumes "maps_ok nd" "vm_at nd k = Some vm" "vm_key vm' = vm_key vm"
  shows "same_vms nd (nd\<lparr>vm_infos_map := map_assign k vm' (vm_infos_map nd)\<rparr>)"
proof -
  let ?nd = "nd\<lparr>vm_infos_map := map_assign k vm' (vm_infos_map nd)\<rparr>"
  have ok: "map_ok (vm_infos_map nd)" using assms(1) by (simp add: maps_ok_def)
  have v: "vm_at ?nd = (vm_at nd)(k \<mapsto> vm')" by (simp add: vm_at_def vmap.find_assign [OF ok])
  have "dom_id vm' = k" using assms by (auto simp: maps_ok_def vm_key_def)
  then have "maps_ok ?nd" using assms(1) ok by (auto simp: maps_ok_def v vmap.ok_assign)
  then show ?thesis using assms(2,3) by (auto simp: same_vms_def v)
qed

lemma same_vmsD:
  assumes "same_vms nd nd'"
  shows "maps_ok nd'" "dom (vm_at nd') = dom (vm_at nd)" "occupant nd' = occupant nd"
    "vm_at nd' d = Some vm' \<Longrightarrow> \<exists>vm. vm_at nd d = Some vm \<and> vm_key vm' = vm_key vm"
    "vm_at nd d = Some vm \<Longrightarrow> \<exists>vm'. vm_at nd' d = Some vm' \<and> vm_key vm' = vm_key vm"
proof -
  have k: "map_option vm_key (vm_at nd' d) = map_option vm_key (vm_at nd d)" for d using assms by (simp add: same_vms_def)
  show "maps_ok nd'" "occupant nd' = occupant nd" using assms by (simp_all add: same_vms_def occupant_def)
  have "vm_at nd' d = None \<longleftrightarrow> vm_at nd d = None" for d using k [of d] by (metis option.map_disc_iff)
  then show "dom (vm_at nd') = dom (vm_at nd)" by (auto simp: dom_def)
  show "vm_at nd' d = Some vm' \<Longrightarrow> \<exists>vm. vm_at nd d = Some vm \<and> vm_key vm' = vm_key vm"
    using k [of d] by (cases "vm_at nd d") auto
  show "vm_at nd d = Some vm \<Longrightarrow> \<exists>vm'. vm_at nd' d = Some vm' \<and> vm_key vm' = vm_key vm"
    using k [of d] by (cases "vm_at nd' d") auto
qed

lemma same_vms_ok:
  assumes "same_vms nd nd'" "host_cpu_number nd' = host_cpu_number nd" "numa_number (numa nd') = numa_number (numa nd)"
  shows "mapping_ok nd \<Longrightarrow> mapping_ok nd'" "vms_ok nd \<Longrightarrow> vms_ok nd'"
proof -
  note s = same_vmsD [OF assms(1)]
  show "mapping_ok nd'" if m: "mapping_ok nd"
    unfolding mapping_ok_def
  proof (intro conjI allI impI)
    fix c d assume "occupant nd' c = Some d"
    then obtain vm where "vm_at nd d = Some vm" "real_cpu_no vm = c" using mapping_okD [OF m] s(3) by auto
    then show "\<exists>vm. vm_at nd' d = Some vm \<and> real_cpu_no vm = c" using s(5) [of d vm] by (auto simp: vm_key_def)
  qed (rule s(1))
  show "vms_ok nd'" if m: "vms_ok nd"
    unfolding vms_ok_def
  proof (intro conjI allI impI)
    show "card (dom (vm_at nd')) < 2 ^ 31" using m s(2) by (simp add: vms_ok_def)
    fix d vm' assume "vm_at nd' d = Some vm'"
    then obtain vm where "vm_at nd d = Some vm" "vm_key vm' = vm_key vm" using s(4) by blast
    then show "vm_range nd' vm'" using m assms(2,3) by (auto simp: vms_ok_def vm_range_def vm_key_def)
  qed
qed

lemma monitorIO_key: "vm_key (snd (monitorIO fs now dev vm)) = vm_key vm"
  by (auto simp: monitorIO_def Let_def update_rates_def vm_key_def split: option.splits)

lemma monitor_vm_io_same:
  assumes "maps_ok nd"
  shows "same_vms nd (snd (monitor_vm_io h k (ret, nd))) \<and> core (snd (monitor_vm_io h k (ret, nd))) = core nd"
proof (cases "map_find (vm_infos_map nd) k")
  case None
  then show ?thesis using same_vms_refl [OF assms] by (simp add: monitor_vm_io_def)
next
  case (Some vm)
  then have at: "vm_at nd k = Some vm" by (simp add: vm_at_def)
  obtain flag vm' where r: "monitorIO (h_file h) (h_now h k) (io_mon nd) vm = (flag, vm')"
    by (cases "monitorIO (h_file h) (h_now h k) (io_mon nd) vm") auto
  then have "vm_key vm' = vm_key vm" using monitorIO_key [of "h_file h" "h_now h k" "io_mon nd" vm] by simp
  then show ?thesis using same_vms_update [OF assms at] Some r by (simp add: monitor_vm_io_def)
qed

lemma monitor_io_same:
  assumes "maps_ok nd"
  shows "same_vms nd (snd (monitor_io h nd)) \<and> core (snd (monitor_io h nd)) = core nd"
proof -
  have "same_vms nd (snd s) \<and> core (snd s) = core nd \<Longrightarrow>
      same_vms nd (snd (fold (monitor_vm_io h) ks s)) \<and> core (snd (fold (monitor_vm_io h) ks s)) = core nd" for ks s
  proof (induction ks arbitrary: s)
    case (Cons k ks)
    have "maps_ok (snd s)" using Cons.prems same_vmsD(1) by blast
    then have "same_vms (snd s) (snd (monitor_vm_io h k s)) \<and> core (snd (monitor_vm_io h k s)) = core (snd s)"
      using monitor_vm_io_same [of "snd s" h k "fst s"] by simp
    then show ?case using Cons.IH [of "monitor_vm_io h k s"] Cons.prems same_vms_trans by auto
  qed simp
  then show ?thesis using same_vms_refl [OF assms] by (simp add: monitor_io_def)
qed

lemma store_event_key: "vm_key (store_event e n vm) = vm_key vm"
  by (cases e) (simp_all add: vm_key_def)

lemma store_events_key: "vm_key (store_events ls vm) = vm_key vm"
  unfolding store_events_def by (induction ls arbitrary: vm) (auto simp: store_event_key)

lemma monitor_perf_same:
  assumes "maps_ok nd" "\<forall>d. \<exists>ls. list_all perf_text_ok ls \<and> h_perf h d = Some (concat (map (\<lambda>l. perf_text l @ [newline]) ls))"
  shows "\<exists>nd'. fold_res (monitor_vm_perf h) ks nd = Inr nd' \<and> same_vms nd nd' \<and> core nd' = core nd"
proof (rule fold_res_total)
  show "same_vms nd nd \<and> core nd = core nd" using same_vms_refl [OF assms(1)] by simp
  fix k nd1 assume s: "same_vms nd nd1 \<and> core nd1 = core nd"
  show "\<exists>t. monitor_vm_perf h k nd1 = Inr t \<and> same_vms nd t \<and> core t = core nd"
  proof (cases "map_find (vm_infos_map nd1) k")
    case None
    then show ?thesis using s by (simp add: monitor_vm_perf_def)
  next
    case (Some vm)
    then have at: "vm_at nd1 k = Some vm" by (simp add: vm_at_def)
    obtain ls where ls: "list_all perf_text_ok ls" "h_perf h k = Some (concat (map (\<lambda>l. perf_text l @ [newline]) ls))"
      using assms(2) by blast
    have "same_vms nd1 (nd1\<lparr>vm_infos_map := map_assign k (store_events ls vm) (vm_infos_map nd1)\<rparr>)"
      by (rule same_vms_update [OF _ at store_events_key]) (use s same_vmsD(1) in blast)
    then show ?thesis
      using same_vms_trans [of nd nd1] s Some perf_output_stored [OF ls(1), of "h_stack h" vm] ls(2)
      by (simp add: monitor_vm_perf_def)
  qed
qed

text \<open>The nodes without their free memory.\<close>

definition node_view :: "numa_node \<Rightarrow> numa_node" where
  "node_view node = node\<lparr>free_mems := 0\<rparr>"

lemma store_free_mems_view:
  assumes "length vals \<le> length nodes"
  shows "\<exists>nodes'. store_free_mems vals nodes = Inr nodes' \<and> map node_view nodes' = map node_view nodes"
proof -
  have "\<exists>ns. fold_res (\<lambda>i ns. store_free_mem (int i) (vals ! i) ns) [0..<length vals] nodes = Inr ns \<and>
      length ns = length nodes \<and> map node_view ns = map node_view nodes"
  proof (rule fold_res_total)
    fix i ns assume i: "i \<in> set [0..<length vals]" and ns: "length ns = length nodes \<and> map node_view ns = map node_view nodes"
    then have l: "i < length ns" using assms by simp
    have "node_view ((ns ! i)\<lparr>free_mems := v\<rparr>) = map node_view ns ! i" for v using l by (simp add: node_view_def)
    then have "map node_view (ns[i := (ns ! i)\<lparr>free_mems := v\<rparr>]) = map node_view ns" for v
      by (simp only: map_update list_update_id)
    then show "\<exists>t. store_free_mem (int i) (vals ! i) ns = Inr t \<and>
        length t = length nodes \<and> map node_view t = map node_view nodes"
      using l ns by (simp add: store_free_mem_def vec_at_nat)
  qed simp
  then show ?thesis by (auto simp: store_free_mems_def)
qed

lemma node_view_fields:
  assumes "map node_view ns' = map node_view ns"
  shows "length ns' = length ns" "i < length ns \<Longrightarrow> cpu_ids (ns' ! i) = cpu_ids (ns ! i)"
    "i < length ns \<Longrightarrow> sorted_lat_node_list (ns' ! i) = sorted_lat_node_list (ns ! i)"
proof -
  show l: "length ns' = length ns" using assms by (rule map_eq_imp_length_eq)
  have "i < length ns \<Longrightarrow> node_view (ns' ! i) = node_view (ns ! i)" using assms l by (metis nth_map)
  then have "i < length ns \<Longrightarrow> cpu_ids (node_view (ns' ! i)) = cpu_ids (node_view (ns ! i)) \<and>
      sorted_lat_node_list (node_view (ns' ! i)) = sorted_lat_node_list (node_view (ns ! i))" by simp
  then show "i < length ns \<Longrightarrow> cpu_ids (ns' ! i) = cpu_ids (ns ! i)"
    "i < length ns \<Longrightarrow> sorted_lat_node_list (ns' ! i) = sorted_lat_node_list (ns ! i)"
    by (simp_all add: node_view_def)
qed

text \<open>Usages that can be sorted, one for the total and one for each CPU.\<close>

definition usages_ok :: "nuiod \<Rightarrow> dbl list \<Rightarrow> bool" where
  "usages_ok nd u \<longleftrightarrow> int (length u) = host_cpu_number nd + 1 \<and> NaN \<notin> set u"

lemma usage_finite:
  assumes "advance old new" "0 < ticks old new" "ticks old new < 2 ^ 64" "0 \<le> n" "n < 2 ^ 31"
  shows "usage_of n k old new \<noteq> NaN"
proof -
  obtain y where y: "0 \<le> y" "y \<le> 100" "usage_of n k old new = (if k = 0 then Fin y * dbl_of_int n else Fin y)"
    by (rule usage_share [OF assms(1-3)])
  have n: "dbl_of_int n = Fin (of_int n)" using assms(4,5) by (simp add: dbl_of_int_small)
  have b: "0 \<le> y * of_int n" "y * of_int n \<le> of_int (100 * n)"
    using y assms(4) by (simp_all add: mult_right_mono)
  obtain z where "rnd (y * of_int n) = Fin z"
    by (rule rnd_enclose [OF b]) (use assms(4,5) in \<open>simp_all add: rnd_of_int del: of_int_mult\<close>)
  then show ?thesis using y(3) n by (simp add: times_dbl_def)
qed

lemma get_cpu_usage_ok:
  assumes "static_ok nd" "cpu_stat_readable h nd"
  shows "\<exists>u arr. get_cpu_usage (h_file h ''/proc/stat'') us (cpu_mon nd) =
      Inr (0, u, \<lparr>cpu_number = host_cpu_number nd, cpu_stat_array = Some arr\<rparr>) \<and>
    int (length arr) = host_cpu_number nd + 1 \<and> usages_ok nd u"
proof -
  let ?n = "host_cpu_number nd"
  obtain arr where a: "cpu_mon nd = \<lparr>cpu_number = ?n, cpu_stat_array = Some arr\<rparr>" "int (length arr) = ?n + 1"
    using assms(1) by (auto simp: static_ok_def)
  obtain rows r where f: "h_file h ''/proc/stat'' = Some (proc_stat rows r)" "list_all row_ok rows"
    "int (length rows) = ?n + 1" "tail_ok r"
    "\<forall>k<length rows. advance (arr ! k) (counters (rows ! k)) \<and> 0 < ticks (arr ! k) (counters (rows ! k)) \<and>
        ticks (arr ! k) (counters (rows ! k)) < 2 ^ 64"
    using assms(2) a(1) by (auto simp: cpu_stat_readable_def)
  have n: "0 \<le> ?n" "?n < 2 ^ 31" using assms(1) by (auto simp: static_ok_def nodes_ok_def)
  obtain arr' where "length arr' = length arr"
    "get_cpu_usage (Some (proc_stat rows r)) us \<lparr>cpu_number = ?n, cpu_stat_array = Some arr\<rparr> =
      Inr (0, map (\<lambda>k. usage_of ?n k (arr ! k) (counters (rows ! k))) [0..<length rows],
           \<lparr>cpu_number = ?n, cpu_stat_array = Some arr'\<rparr>)"
    by (rule get_cpu_usage_array [OF f(2) _ f(4), of arr]) (use n a(2) f(3) in auto)
  moreover have "NaN \<noteq> usage_of ?n k (arr ! k) (counters (rows ! k))" if "k < length rows" for k
    using f(5) that n usage_finite by metis
  ultimately show ?thesis
    using f(1,3) a by (intro exI [of _ "map (\<lambda>k. usage_of ?n k (arr ! k) (counters (rows ! k))) [0..<length rows]"] exI [of _ arr'])
      (auto simp: usages_ok_def)
qed

lemma get_node_freemem_any:
  assumes "static_ok nd" "h_cells h (numa_number (numa nd)) = (int (length vals), vals)"
    "int (length vals) \<le> numa_number (numa nd)"
  obtains fm mm where
    "get_node_freemem (h_cells h) (conn nd) [] (mem_mon nd) = Inr (if conn nd = None then -1 else 0, fm, mm)"
    "length fm \<le> length (numa_nodes (numa nd))" "mem_numa_number mm = mem_numa_number (mem_mon nd)"
proof (cases "conn nd = None")
  case True
  then show ?thesis using that [of "[]" "mem_mon nd"] by (simp add: get_node_freemem_def)
next
  case False
  have "0 < numa_number (numa nd)" "length (numa_nodes (numa nd)) = nat (numa_number (numa nd))"
    "mem_numa_number (mem_mon nd) = numa_number (numa nd)"
    using assms(1) by (simp_all add: static_ok_def nodes_ok_def)
  then show ?thesis
    using that get_node_freemem_ok [OF False, of "h_cells h" "mem_mon nd" vals] assms(2,3) False
    by (simp add: nat_le_eq_zle)
qed

lemma static_ok_readings:
  assumes "static_ok nd" "map node_view nodes = map node_view (numa_nodes (numa nd))"
    "mem_numa_number mm = mem_numa_number (mem_mon nd)" "int (length arr) = host_cpu_number nd + 1"
  shows "static_ok (nd\<lparr>cpu_mon := \<lparr>cpu_number = host_cpu_number nd, cpu_stat_array = Some arr\<rparr>, mem_mon := mm,
      numa := (numa nd)\<lparr>numa_nodes := nodes\<rparr>\<rparr>)"
proof -
  note nv = node_view_fields [OF assms(2)]
  have "fst ` set (sorted_lat_node_list node) = {0..<numa_number (numa nd)}" if node: "node \<in> set nodes" for node
  proof -
    obtain i where i: "i < length (numa_nodes (numa nd))" "node = nodes ! i"
      using node nv(1) by (auto simp: in_set_conv_nth)
    then have "numa_nodes (numa nd) ! i \<in> set (numa_nodes (numa nd))" by simp
    then show ?thesis using assms(1) nv(3) [OF i(1)] i(2) by (simp add: static_ok_def)
  qed
  then show ?thesis using assms nv(1,2) by (simp add: static_ok_def nodes_ok_def)
qed

lemma monitor_with_usage:
  assumes "daemon_ok nd" "rest_readable h nd" "get_cpu_usage (h_file h ''/proc/stat'') us (cpu_mon nd) =
      Inr (ret, u, \<lparr>cpu_number = host_cpu_number nd, cpu_stat_array = Some arr\<rparr>)"
    "int (length arr) = host_cpu_number nd + 1"
  shows "\<exists>nd'. monitor h us nd = Inr (u, nd') \<and> daemon_ok nd' \<and> same_vms nd nd' \<and>
    map node_view (numa_nodes (numa nd')) = map node_view (numa_nodes (numa nd)) \<and>
    numa_number (numa nd') = numa_number (numa nd) \<and> netdev_numanode nd' = netdev_numanode nd \<and>
    host_cpu_number nd' = host_cpu_number nd"
proof -
  have m: "mapping_ok nd" "static_ok nd" "vms_ok nd" using assms(1) by (simp_all add: daemon_ok_def)
  note mo = mapping_ok_maps [OF m(1)]
  obtain io nd1 where io: "monitor_io h nd = (io, nd1)" by (cases "monitor_io h nd") auto
  then have s1: "same_vms nd nd1" "core nd1 = core nd" using monitor_io_same [OF mo, of h] by simp_all
  note c1 = core_fields [OF s1(2)]
  have st1: "static_ok nd1" using m(2) static_ok_core [OF s1(2)] by simp
  have u: "get_cpu_usage (h_file h ''/proc/stat'') us (cpu_mon nd1) =
      Inr (ret, u, \<lparr>cpu_number = host_cpu_number nd1, cpu_stat_array = Some arr\<rparr>)"
    "int (length arr) = host_cpu_number nd1 + 1"
    using assms(3,4) c1 by simp_all
  obtain vals where v: "h_cells h (numa_number (numa nd1)) = (int (length vals), vals)" "int (length vals) \<le> numa_number (numa nd1)"
    using assms(2) c1(1) by (auto simp: rest_readable_def)
  obtain fm mm where fm: "get_node_freemem (h_cells h) (conn nd1) [] (mem_mon nd1) = Inr (if conn nd1 = None then -1 else 0, fm, mm)"
    "length fm \<le> length (numa_nodes (numa nd1))" "mem_numa_number mm = mem_numa_number (mem_mon nd1)"
    using get_node_freemem_any [OF st1 v] .
  obtain nodes where nodes: "store_free_mems fm (numa_nodes (numa nd1)) = Inr nodes"
    "map node_view nodes = map node_view (numa_nodes (numa nd1))"
    using store_free_mems_view [OF fm(2)] by blast
  let ?nd2 = "nd1\<lparr>cpu_mon := \<lparr>cpu_number = host_cpu_number nd1, cpu_stat_array = Some arr\<rparr>, mem_mon := mm,
      numa := (numa nd1)\<lparr>numa_nodes := nodes\<rparr>\<rparr>"
  have mo2: "maps_ok ?nd2" using same_vmsD(1) [OF s1(1)] by (simp add: maps_ok_def vm_at_def)
  have s2: "same_vms nd ?nd2" using s1(1) mo2 by (simp add: same_vms_def vm_at_def)
  obtain nd3 where 3: "fold_res (monitor_vm_perf h) (map_keys (vm_infos_map ?nd2)) ?nd2 = Inr nd3" "same_vms ?nd2 nd3" "core nd3 = core ?nd2"
    using monitor_perf_same [OF mo2, of h] assms(2) by (auto simp: rest_readable_def)
  have "static_ok ?nd2" by (rule static_ok_readings [OF st1 nodes(2) fm(3) u(2)])
  then have st3: "static_ok nd3" using static_ok_core [OF 3(3)] by simp
  note c3 = core_fields [OF 3(3)]
  have s3: "same_vms nd nd3" by (rule same_vms_trans [OF s2 3(2)])
  have f: "host_cpu_number nd3 = host_cpu_number nd" "numa_number (numa nd3) = numa_number (numa nd)"
    "map node_view (numa_nodes (numa nd3)) = map node_view (numa_nodes (numa nd))" "netdev_numanode nd3 = netdev_numanode nd"
    using c1 c3 nodes(2) by simp_all
  have "monitor h us nd = Inr (u, nd3)"
    using 3(1) by (simp add: monitor_def io u(1) fm(1) nodes(1))
  moreover have "daemon_ok nd3" using same_vms_ok [OF s3 f(1,2)] m st3 by (simp add: daemon_ok_def)
  ultimately show ?thesis using s3 f by blast
qed

lemma monitor_result:
  assumes "daemon_ok nd" "host_ok h nd"
  obtains u nd' where "monitor h us nd = Inr (u, nd')" "daemon_ok nd'" "same_vms nd nd'" "usages_ok nd' u"
    "map node_view (numa_nodes (numa nd')) = map node_view (numa_nodes (numa nd))"
    "numa_number (numa nd') = numa_number (numa nd)" "netdev_numanode nd' = netdev_numanode nd"
    "host_cpu_number nd' = host_cpu_number nd"
proof -
  have "static_ok nd" "cpu_stat_readable h nd" and r: "rest_readable h nd" using assms by (simp_all add: daemon_ok_def host_ok_def)
  then obtain u arr where u: "get_cpu_usage (h_file h ''/proc/stat'') us (cpu_mon nd) =
      Inr (0, u, \<lparr>cpu_number = host_cpu_number nd, cpu_stat_array = Some arr\<rparr>)"
    "int (length arr) = host_cpu_number nd + 1" "usages_ok nd u"
    using get_cpu_usage_ok by blast
  from monitor_with_usage [OF assms(1) r u(1,2)] obtain nd' where n: "monitor h us nd = Inr (u, nd')" "daemon_ok nd'"
    "same_vms nd nd'" "map node_view (numa_nodes (numa nd')) = map node_view (numa_nodes (numa nd))"
    "numa_number (numa nd') = numa_number (numa nd)" "netdev_numanode nd' = netdev_numanode nd"
    "host_cpu_number nd' = host_cpu_number nd" by (elim exE conjE) (rule that)
  moreover have "usages_ok nd' u" using u(3) n(7) by (simp add: usages_ok_def)
  ultimately show ?thesis using that by blast
qed

lemma monitor_ok:
  assumes "daemon_ok nd" "host_ok h nd"
  shows "\<exists>u nd'. monitor h us nd = Inr (u, nd') \<and> daemon_ok nd' \<and> same_vms nd nd' \<and> usages_ok nd' u \<and>
    host_cpu_number nd' = host_cpu_number nd"
  using monitor_result [OF assms, of us] by metis

subsection \<open>Deciding and performing keep it\<close>

lemma daemon_input_ok:
  assumes "daemon_ok nd" "usages_ok nd u"
  shows "schedule_input_ok (vm_infos_map nd) u (numa_nodes (numa nd)) (numa_number (numa nd)) (netdev_numanode nd)"
proof -
  have m: "mapping_ok nd" "static_ok nd" "vms_ok nd" using assms(1) by (simp_all add: daemon_ok_def)
  note mo = mapping_ok_maps [OF m(1)]
  have ok: "map_ok (vm_infos_map nd)" using mo by (simp add: maps_ok_def)
  have "vm_input_ok u (numa_number (numa nd)) kv" if "kv \<in> set (vm_infos_map nd)" for kv
  proof -
    have "vm_at nd (fst kv) = Some (snd kv)" using that map_find_in_set [OF ok, of "fst kv" "snd kv"] by (simp add: vm_at_def)
    then have "vm_range nd (snd kv)" "dom_id (snd kv) = fst kv" using m(3) mo by (auto simp: vms_ok_def maps_ok_def)
    then show ?thesis using assms(2) by (simp add: vm_input_ok_def vm_range_def usages_ok_def)
  qed
  moreover have "node_input_ok u (numa_number (numa nd)) node" if node: "node \<in> set (numa_nodes (numa nd))" for node
  proof -
    have len: "length (numa_nodes (numa nd)) = nat (numa_number (numa nd))" using m(2) by (simp add: static_ok_def nodes_ok_def)
    obtain i where i: "i < nat (numa_number (numa nd))" "node = numa_nodes (numa nd) ! i"
      using node unfolding in_set_conv_nth len by metis
    then have "0 \<le> c \<and> c < host_cpu_number nd" if "c \<in> set (cpu_ids node)" for c
      using cpus_in_nodes(1,2) [of nd i c] that m(2) by (simp add: static_ok_def)
    then show ?thesis using node m(2) assms(2) by (fastforce simp: node_input_ok_def static_ok_def usages_ok_def)
  qed
  ultimately show ?thesis
    using m(2,3) ok vm_count [OF mo] by (simp add: schedule_input_ok_def static_ok_def nodes_ok_def vms_ok_def list_all_iff)
qed

lemma perform_act_frame:
  assumes "perform_act pin g cpu_lists act nd = Inr nd'"
  shows "cpu_mon nd' = cpu_mon nd \<and> mem_mon nd' = mem_mon nd \<and> netdev_numanode nd' = netdev_numanode nd"
  using assms
  by (auto simp: perform_act_def Let_def res_simps change_cpu_vm_mapping_def split: option.splits if_splits)

lemma perform_act_ok:
  assumes "daemon_ok nd" "std_sort compare_pairs_second srt" "usages_ok nd u" "vm_at nd (d_dom_id act) \<noteq> None"
    "0 \<le> cpu_node_id act" "cpu_node_id act < numa_number (numa nd)"
  shows "\<exists>nd'. perform_act pin g (act_lists srt u nd) act nd = Inr nd' \<and> daemon_ok nd' \<and> kept nd (d_dom_id act) nd'"
proof -
  have m: "mapping_ok nd" "static_ok nd" "vms_ok nd" using assms(1) by (simp_all add: daemon_ok_def)
  have n: "nodes_ok nd" using m(2) by (simp add: static_ok_def)
  obtain vm where vm: "vm_at nd (d_dom_id act) = Some vm" using assms(4) by auto
  have u: "NaN \<notin> set u" "int (length u) = host_cpu_number nd + 1" using assms(3) by (simp_all add: usages_ok_def)
  have ok: "daemon_ok nd'" if r: "perform_act pin g (act_lists srt u nd) act nd = Inr nd'" and k: "kept nd (d_dom_id act) nd'"
    and v: "\<forall>d w. vm_at nd' d = Some w \<longrightarrow> vm_range nd w" for nd'
  proof -
    have "static_ok nd'" using m(2) k perform_act_frame [OF r] by (simp add: static_ok_def kept_def)
    moreover have "vms_ok nd'" using v m(3) k by (simp add: vms_ok_def kept_def vm_range_def)
    ultimately show ?thesis using k m(1) by (simp add: daemon_ok_def kept_def)
  qed
  show ?thesis
    using mapping_ok_maps [OF m(1)] n assms(2) u vm assms(5,6)
  proof (cases rule: perform_act_cases [of nd srt u act vm pin g])
    case (stay nd')
    have "daemon_ok nd'"
      by (rule ok [OF stay(1) kept_same [OF stay(2)]]) (use m(3) same_machinesD [OF stay(2)] in \<open>simp add: vms_ok_def\<close>)
    then show ?thesis using stay(1) kept_same [OF stay(2)] by blast
  next
    case (refused nd')
    have "daemon_ok nd'"
      by (rule ok [OF refused(1) kept_same [OF refused(2)]]) (use m(3) same_machinesD [OF refused(2)] in \<open>simp add: vms_ok_def\<close>)
    then show ?thesis using refused(1) kept_same [OF refused(2)] by blast
  next
    case (moved c nd')
    let ?nd = "change_cpu_vm_mapping (d_dom_id act) vm c nd'"
    have c: "occupant nd c = None" "c \<in> set (cpu_ids (numa_nodes (numa nd) ! nat (cpu_node_id act)))"
      using moved(3) by (auto simp: free_cpus_def)
    note s = same_machinesD [OF moved(2)]
    have k: "kept nd (d_dom_id act) ?nd" by (rule kept_change [OF moved(2) m(1) vm c(1)])
    have at: "vm_at nd' (d_dom_id act) = Some vm" and mo: "maps_ok nd'" using s vm mapping_ok_maps [OF m(1)] by auto
    have "vm_range nd vm" using m(3) vm by (simp add: vms_ok_def)
    moreover have "0 \<le> c" "c < host_cpu_number nd" using cpus_in_nodes(1,2) [OF n _ c(2)] assms(5,6) by simp_all
    ultimately have "vm_range nd (vm\<lparr>real_cpu_no := c\<rparr>)" by (simp add: vm_range_def)
    then have "\<forall>d w. vm_at ?nd d = Some w \<longrightarrow> vm_range nd w"
      using m(3) s by (auto simp: change_views(1) [OF mo at] vms_ok_def)
    then show ?thesis using ok [OF moved(1) k] moved(1) k by blast
  qed
qed

lemma perform_ok:
  assumes "daemon_ok nd" "std_sort compare_pairs_second srt" "usages_ok nd u" "decisions_ok nd acts"
  shows "\<exists>nd'. perform srt pin g acts u nd = Inr nd' \<and> daemon_ok nd' \<and> dom (vm_at nd') = dom (vm_at nd)"
proof -
  have "\<exists>nd'. fold_res (perform_act pin g (act_lists srt u nd)) acts nd = Inr nd' \<and>
      daemon_ok nd' \<and> dom (vm_at nd') = dom (vm_at nd) \<and> act_lists srt u nd' = act_lists srt u nd \<and>
      numa_number (numa nd') = numa_number (numa nd) \<and> usages_ok nd' u"
  proof (rule fold_res_total)
    fix a nd1
    assume a: "a \<in> set acts" and i: "daemon_ok nd1 \<and> dom (vm_at nd1) = dom (vm_at nd) \<and>
      act_lists srt u nd1 = act_lists srt u nd \<and> numa_number (numa nd1) = numa_number (numa nd) \<and> usages_ok nd1 u"
    have d: "vm_at nd (d_dom_id a) \<noteq> None" "0 \<le> cpu_node_id a" "cpu_node_id a < numa_number (numa nd)"
      using a assms(4) by (auto simp: decisions_ok_def)
    then have "vm_at nd1 (d_dom_id a) \<noteq> None" using i by (metis domIff)
    then obtain nd2 where "perform_act pin g (act_lists srt u nd1) a nd1 = Inr nd2" "daemon_ok nd2" "kept nd1 (d_dom_id a) nd2"
      using perform_act_ok [of nd1 srt u a pin g] i assms(2) d by auto
    then show "\<exists>t. perform_act pin g (act_lists srt u nd) a nd1 = Inr t \<and> daemon_ok t \<and> dom (vm_at t) = dom (vm_at nd) \<and>
      act_lists srt u t = act_lists srt u nd \<and> numa_number (numa t) = numa_number (numa nd) \<and> usages_ok t u"
      using i kept_lists [of nd1 _ nd2 srt u] by (auto simp: kept_def usages_ok_def)
  qed (use assms in simp)
  moreover have "nodes_ok nd" using assms(1) by (simp add: daemon_ok_def static_ok_def)
  ultimately show ?thesis by (auto simp: perform_eq)
qed

subsection \<open>Events keep it\<close>

text \<open>A machine that libvirt describes completely, on a CPU of the host, with pages.\<close>

definition startable :: "host \<Rightarrow> nuiod \<Rightarrow> int \<Rightarrow> bool" where
  "startable h nd d \<longleftrightarrow> (\<exists>c name q tss s f k. described h nd d c name q tss s f \<and> 0 \<le> c \<and> c < host_cpu_number nd \<and>
     k < nat (mem_numa_number (mem_mon nd)) \<and> (of_nat (\<Sum>t\<leftarrow>concat tss. pages_on k t) :: u32) \<noteq> 0)"

lemma startableI:
  assumes "described h nd d c name q tss s f" "0 \<le> c" "c < host_cpu_number nd"
    "k < nat (mem_numa_number (mem_mon nd))" "(of_nat (\<Sum>t\<leftarrow>concat tss. pages_on k t) :: u32) \<noteq> 0"
  shows "startable h nd d"
  unfolding startable_def using assms by blast


text \<open>An event the daemon is made for: a machine that starts is new and completely described, and the machine of any
  other event that is handled is known.\<close>

definition event_ok :: "nuiod \<Rightarrow> vir_notification \<Rightarrow> bool" where
  "event_ok nd n \<longleftrightarrow> known_machine nd n \<and> (case n of (h, dm, ev) \<Rightarrow> ev = VIR_DOMAIN_EVENT_STARTED \<longrightarrow>
     startable h nd (h_id h dm) \<and> vm_at nd (h_id h dm) = None \<and> card (dom (vm_at nd)) + 1 < 2 ^ 31)"

lemma vms_ok_update:
  assumes "vms_ok nd" "core nd' = core nd" "vm_at nd' = (vm_at nd)(d \<mapsto> vm)" "vm_range nd vm"
    "d \<in> dom (vm_at nd) \<or> card (dom (vm_at nd)) + 1 < 2 ^ 31"
  shows "vms_ok nd'"
proof -
  have "card (dom (vm_at nd')) < 2 ^ 31"
  proof (cases "d \<in> dom (vm_at nd)")
    case True
    then have "dom (vm_at nd') = dom (vm_at nd)" by (auto simp: assms(3))
    then show ?thesis using assms(1) by (simp add: vms_ok_def)
  next
    case False
    have "card (dom (vm_at nd')) \<le> Suc (card (dom (vm_at nd)))" by (simp add: assms(3) card_insert_le_m1 card_insert_if)
    then show ?thesis using assms(5) False by simp
  qed
  then show ?thesis using assms(1,4) by (auto simp: vms_ok_def assms(3) vm_range_core [OF assms(2)] split: if_splits)
qed

lemma vm_range_event [simp]: "vm_range nd (vm\<lparr>vm_event_state := ev\<rparr>) = vm_range nd vm"
  by (simp add: vm_range_def)

lemma event_keeps_vms:
  assumes "maps_ok nd" "vms_ok nd" "ev \<noteq> VIR_DOMAIN_EVENT_STARTED" "known_machine nd (h, dm, ev)"
  shows "\<exists>ret nd'. handle_event h dm ev nd = Inr (ret, nd') \<and> vms_ok nd' \<and> core nd' = core nd"
proof (cases "vm_at nd (h_id h dm)")
  case None
  then have "handle_event h dm ev nd = Inr (0, nd)"
    using assms(3,4) by (auto simp: handle_event_def known_machine_def)
  then show ?thesis using assms(2) by blast
next
  case (Some vm)
  let ?d = "h_id h dm"
  note e = set_event_views [OF assms(1) Some, of ev]
  note r = remove_vm_views [OF assms(1) Some]
  have "handle_event h dm ev nd \<in> {Inr (0, nd), Inr (0, set_event ?d ev nd), Inr (0, remove_vm ?d vm nd)}"
    using assms(3) Some by (auto simp: handle_event_def Let_def vm_at_def)
  moreover have "vms_ok (set_event ?d ev nd)"
    by (rule vms_ok_update [OF assms(2) e(4) e(1)]) (use assms(2) Some in \<open>auto simp: vms_ok_def\<close>)
  moreover have "card (dom (vm_at nd) - {?d}) \<le> card (dom (vm_at nd))" by (rule card_Diff1_le)
  then have "vms_ok (remove_vm ?d vm nd)"
    using assms(2) by (auto simp: vms_ok_def r(1) vm_range_core [OF r(4)])
  ultimately show ?thesis using assms(2) e(4) r(4) by auto
qed

lemma register_ok:
  assumes "mapping_ok nd" "vms_ok nd" "mem_numa_number (mem_mon nd) = numa_number (numa nd)"
    "startable h nd d" "vm_at nd d = None" "card (dom (vm_at nd)) + 1 < 2 ^ 31"
  shows "\<exists>nd' vm. register_vm h d nd = Inr (0, nd') \<and> mapping_ok nd' \<and> vms_ok nd' \<and> core nd' = core nd \<and>
    vm_at nd' = (vm_at nd)(d \<mapsto> vm)"
proof -
  note mo = mapping_ok_maps [OF assms(1)]
  obtain c name q tss s f k where e: "described h nd d c name q tss s f" "0 \<le> c" "c < host_cpu_number nd"
    "k < nat (mem_numa_number (mem_mon nd))" "(of_nat (\<Sum>t\<leftarrow>concat tss. pages_on k t) :: u32) \<noteq> 0"
    using assms(4) unfolding startable_def by blast
  obtain nd1 vm distr where r: "register_vm h d nd = Inr (0, nd1)" "vm_at nd1 = (vm_at nd)(d \<mapsto> vm)"
    "real_cpu_no vm = c" "distr = map (\<lambda>k. of_nat (\<Sum>t\<leftarrow>concat tss. pages_on k t)) [0..<nat (mem_numa_number (mem_mon nd))]"
    "mem_main_node_id vm = main_node distr (mem_main_node_id (h_vm_storage h))"
    using register_described [OF mo e(1)] by (elim exE conjE) (rule that)
  have "k < length distr" "distr ! k \<noteq> 0" using e(4,5) by (simp_all add: r(4))
  then obtain j where "j < length distr" "mem_main_node_id vm = int j" using main_node_max r(5) by metis
  then have "vm_range nd vm" using e(2,3) r(3) by (simp add: vm_range_def r(4) assms(3))
  moreover have c1: "core nd1 = core nd" using register_result [OF mo r(1)] by metis
  ultimately have "vms_ok nd1" using vms_ok_update [OF assms(2) c1 r(2)] assms(6) by blast
  moreover have "mapping_ok nd1" by (rule register_mapping_ok [OF assms(1,5) r(1)])
  ultimately show ?thesis using r(1,2) c1 by blast
qed

lemma event_daemon_ok:
  assumes "daemon_ok nd" "event_ok nd n"
  shows "\<exists>nd'. run_event n nd = Inr nd' \<and> daemon_ok nd'"
proof -
  obtain h dm ev where n: "n = (h, dm, ev)" by (cases n) auto
  have m: "mapping_ok nd" "static_ok nd" "vms_ok nd" using assms(1) by (simp_all add: daemon_ok_def)
  note mo = mapping_ok_maps [OF m(1)]
  show ?thesis
  proof (cases "ev = VIR_DOMAIN_EVENT_STARTED")
    case False
    have k: "known_machine nd (h, dm, ev)" using assms(2) by (simp add: event_ok_def n)
    obtain ret nd' where r: "handle_event h dm ev nd = Inr (ret, nd')" "vms_ok nd'" "core nd' = core nd"
      using event_keeps_vms [OF mo m(3) False k] by blast
    moreover have "mapping_ok nd'"
      using handle_event_step [OF mo _ k] False m(1) r(1) by (auto simp: notification_ok_def)
    ultimately show ?thesis using m(2) static_ok_core [OF r(3)] by (simp add: n run_event_def daemon_ok_def)
  next
    case True
    let ?d = "h_id h dm"
    have "mem_numa_number (mem_mon nd) = numa_number (numa nd)" using m(2) by (simp add: static_ok_def)
    then obtain nd1 vm where r: "register_vm h ?d nd = Inr (0, nd1)" "mapping_ok nd1" "vms_ok nd1" "core nd1 = core nd"
      "vm_at nd1 = (vm_at nd)(?d \<mapsto> vm)"
      using register_ok [OF m(1,3), of h ?d] assms(2) True by (auto simp: event_ok_def n)
    have at: "vm_at nd1 ?d = Some vm" by (simp add: r(5))
    note se = set_event_views [OF mapping_ok_maps [OF r(2)] at, of ev]
    let ?nd' = "set_event ?d ev nd1"
    have "vms_ok ?nd'"
      by (rule vms_ok_update [OF r(3) se(4) se(1)]) (use r(3) at in \<open>auto simp: vms_ok_def\<close>)
    moreover have "static_ok ?nd'" using m(2) static_ok_core [of ?nd' nd] se(4) r(4) by simp
    moreover have "mapping_ok ?nd'" by (rule set_event_mapping_ok [OF r(2) at])
    ultimately show ?thesis using r(1) True by (auto simp: n run_event_def handle_event_def daemon_ok_def)
  qed
qed

subsection \<open>The start establishes it\<close>







text \<open>What the constructor leaves.\<close>

definition fresh :: "nuiod \<Rightarrow> bool" where
  "fresh nd \<longleftrightarrow> 0 < numa_number (numa nd) \<and> numa_number (numa nd) < 2 ^ 31 \<and> cpu_node_mapping (numa nd) = [] \<and>
     0 \<le> host_cpu_number nd \<and> host_cpu_number nd < 2 ^ 31 \<and> cpu_mon nd = Cpu_monitor_new (host_cpu_number nd) \<and>
     mem_numa_number (mem_mon nd) = numa_number (numa nd) \<and> cpumaps_len (thread_mig nd) = host_cpu_number nd div 8 + 1 \<and>
     vm_infos_map nd = [] \<and> cpu_vm_mapping nd = []"


lemma apply_items_frame:
  "vm_infos_map (fold apply_item items nd) = vm_infos_map nd \<and> cpu_vm_mapping (fold apply_item items nd) = cpu_vm_mapping nd \<and>
   numa (fold apply_item items nd) = numa nd \<and> host_cpu_number (fold apply_item items nd) = host_cpu_number nd \<and>
   cpu_mon (fold apply_item items nd) = cpu_mon nd \<and> mem_mon (fold apply_item items nd) = mem_mon nd \<and>
   thread_mig (fold apply_item items nd) = thread_mig nd \<and> conn (fold apply_item items nd) = conn nd"
proof (induction items arbitrary: nd)
  case (Cons i items)
  then show ?case by (cases i) auto
qed simp

lemma apply_items_fresh: "fresh (fold apply_item items nd) = fresh nd"
  using apply_items_frame [of items nd] by (simp add: fresh_def)



subsection \<open>A round returns\<close>

text \<open>A strategy that accepts what the daemon hands it.\<close>

locale daemon_strategy = schedule_strategy +
  assumes accepts: "schedule_input_ok vms u nodes number nic \<Longrightarrow> input_ok vms u nodes number nic"
begin

lemma decisions:
  assumes "daemon_ok nd" "usages_ok nd u"
  shows "\<exists>acts. schedule (vm_infos_map nd) u (numa_nodes (numa nd)) (numa_number (numa nd)) (netdev_numanode nd) = Some (Inr acts) \<and>
    decisions_ok nd acts"
proof -
  have mo: "maps_ok nd" using assms(1) mapping_ok_maps by (simp add: daemon_ok_def)
  obtain acts where a: "schedule (vm_infos_map nd) u (numa_nodes (numa nd)) (numa_number (numa nd)) (netdev_numanode nd) = Some (Inr acts)"
    "set (map d_dom_id acts) \<subseteq> set (map_keys (vm_infos_map nd))"
    "\<forall>d\<in>set acts. 0 \<le> cpu_node_id d \<and> cpu_node_id d < numa_number (numa nd)"
    using total [OF accepts [OF daemon_input_ok [OF assms]]] by blast
  have "vm_at nd (d_dom_id d) \<noteq> None" if "d \<in> set acts" for d
    using a(2) that keys_dom [OF mo] by auto
  then show ?thesis using a by (auto simp: decisions_ok_def)
qed

lemma round_ok:
  assumes "std_sort compare_pairs_second srt" "daemon_ok nd" "host_ok h nd"
  shows "\<exists>u' nd'. round_body srt schedule h (u, nd) = Some (Inr (u', nd')) \<and> daemon_ok nd' \<and>
    dom (vm_at nd') = dom (vm_at nd) \<and> usages_ok nd u'"
proof -
  let ?nd1 = "refresh_cpu_mapping (h_vcpu h) nd"
  have r: "daemon_ok ?nd1" "core ?nd1 = core nd" using refresh_ok [OF assms(2)] assms(3) by (simp_all add: host_ok_def)
  have d1: "dom (vm_at ?nd1) = dom (vm_at nd)"
  proof -
    have "daemon_ok nd' \<and> dom (vm_at nd') = dom (vm_at nd) \<and> core nd' = core nd \<Longrightarrow>
        dom (vm_at (fold (refresh_vm (h_vcpu h)) ks nd')) = dom (vm_at nd)" for ks nd'
    proof (induction ks arbitrary: nd')
      case (Cons k ks)
      have mo: "maps_ok nd'" using Cons.prems mapping_ok_maps by (simp add: daemon_ok_def)
      have "cpu_answers h nd'" using assms(3) Cons.prems core_fields(2) [of nd' nd] by (simp add: host_ok_def cpu_answers_def)
      then show ?case
        using Cons.IH [of "refresh_vm (h_vcpu h) k nd'"] refresh_vm_ok [of nd' h k] refresh_vm_dom [OF mo] Cons.prems by simp
    qed simp
    then show ?thesis using assms(2) by (simp add: refresh_cpu_mapping_def)
  qed
  note c = core_fields [OF r(2)]
  have hok: "host_ok h ?nd1" using assms(3) by (simp add: host_ok_def cpu_answers_def cpu_stat_readable_def rest_readable_def c)
  from monitor_ok [OF r(1) hok, of u] obtain u' nd2 where m: "monitor h u ?nd1 = Inr (u', nd2)" "daemon_ok nd2" "same_vms ?nd1 nd2" "usages_ok nd2 u'"
    "host_cpu_number nd2 = host_cpu_number ?nd1"
    by (elim exE conjE) (rule that)
  obtain acts where a: "schedule (vm_infos_map nd2) u' (numa_nodes (numa nd2)) (numa_number (numa nd2)) (netdev_numanode nd2) = Some (Inr acts)"
    "decisions_ok nd2 acts"
    using decisions [OF m(2,4)] by blast
  obtain nd3 where p: "perform srt (h_pin h) (h_vm_storage h) acts u' nd2 = Inr nd3" "daemon_ok nd3" "dom (vm_at nd3) = dom (vm_at nd2)"
    using perform_ok [OF m(2) assms(1) m(4) a(2)] by blast
  have "usages_ok nd u'" using m(4,5) c(2) by (simp add: usages_ok_def)
  then show ?thesis using m(1) a(1) p d1 same_vmsD(2) [OF m(3)] by (simp add: round_body_def)
qed

end

lemma simple_daemon_strategy:
  "std_sort compare_pairs_second csrt \<Longrightarrow> daemon_strategy (SimpleStrategy_schedule csrt ss indet) schedule_input_ok"
  by (intro daemon_strategy.intro simple_schedule_strategy daemon_strategy_axioms.intro)

interpretation simple_daemon: daemon_strategy
  "SimpleStrategy_schedule (insertion_sort compare_pairs_second) ss indet" schedule_input_ok for ss indet
  by (rule simple_daemon_strategy) (rule insertion.std_sort_axioms)

subsection \<open>The loop as a step relation\<close>

inductive daemon_step :: "latency_sort \<Rightarrow> strategy \<Rightarrow> dbl list \<times> nuiod \<Rightarrow> dbl list \<times> nuiod \<Rightarrow> bool"
  for srt :: latency_sort and schedule :: strategy where
  Notify: "event_ok nd n \<Longrightarrow> run_event n nd = Inr nd' \<Longrightarrow> daemon_step srt schedule (u, nd) (u, nd')"
| Round: "host_ok h nd \<Longrightarrow> round_body srt schedule h (u, nd) = Some (Inr s) \<Longrightarrow> daemon_step srt schedule (u, nd) s"

text \<open>Rounds whose events and hosts are fit for the states they meet.\<close>

fun events_ok :: "vir_notification list \<Rightarrow> nuiod \<Rightarrow> bool" where
  "events_ok [] nd = True"
| "events_ok (n # ns) nd = (event_ok nd n \<and> (\<forall>nd'. run_event n nd = Inr nd' \<longrightarrow> events_ok ns nd'))"

fun rounds_ok :: "latency_sort \<Rightarrow> strategy \<Rightarrow> daemon_round list \<Rightarrow> dbl list \<times> nuiod \<Rightarrow> bool" where
  "rounds_ok srt schedule [] s = True"
| "rounds_ok srt schedule (r # rs) s =
     (events_ok (fst r) (snd s) \<and>
      (\<forall>nd'. fold_res run_event (fst r) (snd s) = Inr nd' \<longrightarrow> host_ok (snd r) nd' \<and>
         (\<forall>s'. round_body srt schedule (snd r) (fst s, nd') = Some (Inr s') \<longrightarrow> rounds_ok srt schedule rs s')))"

inductive_cases daemon_stepE: "daemon_step srt schedule s s'"

context daemon_strategy
begin

lemma step_ok:
  assumes "std_sort compare_pairs_second srt" "daemon_step srt schedule s s'" "daemon_ok (snd s)"
  shows "daemon_ok (snd s')"
  using assms(2)
proof (cases rule: daemon_step.cases)
  case (Notify nd n nd' u)
  then show ?thesis using event_daemon_ok [of nd n] assms(3) by auto
next
  case (Round h nd u)
  then show ?thesis using round_ok [OF assms(1), of nd h u] assms(3) by auto
qed

lemma events_return:
  assumes "daemon_ok nd" "events_ok ns nd"
  shows "\<exists>nd'. fold_res run_event ns nd = Inr nd' \<and> daemon_ok nd'"
  using assms
proof (induction ns arbitrary: nd)
  case (Cons n ns)
  obtain nd1 where "run_event n nd = Inr nd1" "daemon_ok nd1" using event_daemon_ok [of nd n] Cons.prems by auto
  then show ?case using Cons.IH [of nd1] Cons.prems(2) by simp
qed simp

lemma loop_rounds_return:
  assumes "std_sort compare_pairs_second srt" "daemon_ok (snd s)" "rounds_ok srt schedule rs s"
  shows "\<exists>s'. loop_rounds srt schedule rs s = Some (Inr s') \<and> daemon_ok (snd s')"
  using assms(2,3)
proof (induction rs arbitrary: s)
  case (Cons r rs)
  obtain nd1 where e: "fold_res run_event (fst r) (snd s) = Inr nd1" "daemon_ok nd1"
    using events_return [of "snd s" "fst r"] Cons.prems by auto
  then have h: "host_ok (snd r) nd1" using Cons.prems(2) by simp
  obtain u' nd2 where b: "round_body srt schedule (snd r) (fst s, nd1) = Some (Inr (u', nd2))" "daemon_ok nd2"
    using round_ok [OF assms(1) e(2) h, of "fst s"] by blast
  then show ?case using Cons.IH [of "(u', nd2)"] Cons.prems(2) e(1) by (simp add: loop_round_def)
qed simp

lemma steps_ok:
  assumes "std_sort compare_pairs_second srt" "(daemon_step srt schedule)\<^sup>*\<^sup>* s s'" "daemon_ok (snd s)"
  shows "daemon_ok (snd s')"
  using assms(2,3) by (induction rule: rtranclp_induct) (auto intro: step_ok [OF assms(1)])

end

subsection \<open>An example daemon\<close>

text \<open>The example host of \<open>Lifecycle\<close> with two nodes; every counter advances in a round.\<close>

definition ex_row :: "nat \<Rightarrow> nat list" where
  "ex_row n = [n, 0, 0, n, 0, 0, 0, 0, 0, 0]"

definition ex_lat_node :: "int \<Rightarrow> int list \<Rightarrow> numa_node" where
  "ex_lat_node i cpus = (ex_cpu_node i cpus)\<lparr>sorted_lat_node_list := [(i, Fin 80), (1 - i, Fin 130)]\<rparr>"

definition ex_loop_daemon :: nuiod where
  "ex_loop_daemon = ex_conf_daemon\<lparr>numa := (numa ex_conf_daemon)\<lparr>numa_nodes := [ex_lat_node 0 [0, 1], ex_lat_node 1 [2, 3]]\<rparr>,
     cpu_mon := \<lparr>cpu_number = 4, cpu_stat_array = Some (replicate 5 (counters (ex_row 0)))\<rparr>, netdev_numanode := 0\<rparr>"

definition ex_loop_host :: host where
  "ex_loop_host = ex_host\<lparr>h_file := (\<lambda>p. if p = ''/proc/stat'' then Some (proc_stat (replicate 5 (ex_row 7)) ''intr 5'') else h_file ex_host p),
     h_cells := (\<lambda>n. (2, [4096, 8192]))\<rparr>"

lemma ex_loop_fields [simp]:
  "numa_number (numa ex_loop_daemon) = 2" "host_cpu_number ex_loop_daemon = 4" "netdev_numanode ex_loop_daemon = 0"
  "mem_numa_number (mem_mon ex_loop_daemon) = 2" "netdev_pci_bus_str ex_loop_daemon = ''0x06''"
  "netdev_pci_slot_val ex_loop_daemon = 16"
  "cpu_mon ex_loop_daemon = \<lparr>cpu_number = 4, cpu_stat_array = Some (replicate 5 (counters (ex_row 0)))\<rparr>"
  "numa_nodes (numa ex_loop_daemon) = [ex_lat_node 0 [0, 1], ex_lat_node 1 [2, 3]]"
  by (simp_all add: ex_loop_daemon_def) (simp_all add: ex_conf_daemon_def ex_daemon_def Nuiod_new_def)

lemma ex_loop_views:
  "vm_at ex_loop_daemon = [1 \<mapsto> ex_cpu_vm 1 0, 2 \<mapsto> ex_cpu_vm 2 1]" "occupant ex_loop_daemon = map_find [(0, 1), (1, 2)]"
  using ex_conf_views by (simp_all add: ex_loop_daemon_def vm_at_def occupant_def)

lemma ex_loop_ok: "daemon_ok ex_loop_daemon"
proof -
  have "mapping_ok ex_loop_daemon"
    using exact_mapping_ok [OF ex_conf_exact] by (simp add: ex_loop_daemon_def mapping_ok_def maps_ok_def vm_at_def occupant_def)
  moreover have "nodes_ok ex_loop_daemon"
    using ex_daemon_nodes [of 0 1 "[(0, 1), (1, 2)]"]
    by (simp add: ex_loop_daemon_def ex_conf_daemon_def nodes_ok_def ex_lat_node_def ex_daemon_def All_less_Suc numeral_2_eq_2)
  then have "static_ok ex_loop_daemon" by (auto simp: static_ok_def ex_lat_node_def)
  moreover have "dom (vm_at ex_loop_daemon) = {1, 2}" by (auto simp: ex_loop_views)
  then have "vms_ok ex_loop_daemon" by (auto simp: vms_ok_def ex_loop_views vm_range_def ex_cpu_vm_def zeroed_vm_def split: if_splits)
  ultimately show ?thesis by (simp add: daemon_ok_def)
qed

lemma ex_loop_host_ok:
  assumes "core nd = core ex_loop_daemon" shows "host_ok ex_loop_host nd"
proof -
  have e: "counters (ex_row n) = (counters [])\<lparr>total_user := of_nat n, total_idle := of_nat n\<rparr>" for n
    by (simp add: counters_def store_stats_def ex_row_def)
  have z: "advance (counters (ex_row 0)) (counters (ex_row 7))" "ticks (counters (ex_row 0)) (counters (ex_row 7)) = 14"
    by (simp_all add: e advance_def ticks_def)
  have "cpu_stat_readable ex_loop_host nd"
    unfolding cpu_stat_readable_def core_fields [OF assms]
    by (rule exI [of _ "replicate 5 (ex_row 7)"], rule exI [of _ "''intr 5''"], rule exI [of _ "replicate 5 (counters (ex_row 0))"])
       (simp add: ex_loop_host_def ex_tail z, simp add: list_all_iff row_ok_def ex_row_def)
  moreover have "cpu_answers ex_loop_host nd"
    unfolding cpu_answers_def core_fields [OF assms] by (simp add: ex_loop_host_def ex_host_def)
  ultimately show ?thesis
    unfolding host_ok_def rest_readable_def core_fields [OF assms]
    by (auto simp: ex_loop_host_def ex_host_def intro: exI [of _ "[]"])
qed

lemma ex_loop_event: "event_ok ex_loop_daemon (ex_host, Some 7, VIR_DOMAIN_EVENT_STARTED)"
proof -
  have "described ex_host ex_loop_daemon 7 3 ''vm1'' 77 ex_tokens ''10'' ''4''"
    using ex_described by (simp add: described_def)
  moreover have "h_id ex_host (Some 7) = 7" by (simp add: ex_host_def)
  moreover have "dom (vm_at ex_loop_daemon) = {1, 2}" by (auto simp: ex_loop_views)
  moreover have "(of_nat (\<Sum>t\<leftarrow>concat ex_tokens. pages_on 0 t) :: u32) \<noteq> 0" by (simp add: ex_tokens_def)
  moreover have "vm_at ex_loop_daemon 7 = None" by (simp add: ex_loop_views)
  ultimately have "startable ex_host ex_loop_daemon 7" by (intro startableI [where k = 0 and c = 3]) simp_all
  then show ?thesis
    using \<open>h_id ex_host (Some 7) = 7\<close> \<open>dom (vm_at ex_loop_daemon) = {1, 2}\<close> \<open>vm_at ex_loop_daemon 7 = None\<close>
    by (simp add: event_ok_def known_machine_def handled_events_def)
qed

subsection \<open>Properties\<close>

text \<open>C1. The main loop is safe: from a well-formed state, after any sequence of rounds on hosts that answer and of
  events fit for the state they meet - a machine that starts is new and described completely, the machine of any
  other event that is handled is known - the state is well-formed again, and from there neither such an event
  nor such a round can fault: both return, whatever order \<open>std::sort\<close> leaves equal elements in and whatever the
  uninitialised state of the strategy holds. An event about an unknown machine does fault: it dereferences
  the end of the map.\<close>

theorem loop_is_safe:
  assumes "std_sort compare_pairs_second srt" "std_sort compare_pairs_second csrt"
    "(daemon_step srt (SimpleStrategy_schedule csrt ss indet))\<^sup>*\<^sup>* (u, nd) (u', nd')" "daemon_ok nd"
  shows "daemon_ok nd' \<and> (event_ok nd' n \<longrightarrow> (\<exists>nd''. run_event n nd' = Inr nd'')) \<and>
    (\<not> known_machine nd' n \<longrightarrow> run_event n nd' = Inl Bad_Iterator) \<and>
    (host_ok h nd' \<longrightarrow> (\<exists>s. round_body srt (SimpleStrategy_schedule csrt ss indet) h (u', nd') = Some (Inr s)))"
proof -
  note strat = simple_daemon_strategy [OF assms(2), of ss indet]
  have ok: "daemon_ok nd'" using daemon_strategy.steps_ok [OF strat assms(1,3)] assms(4) by simp
  moreover have "run_event n nd' = Inl Bad_Iterator" if "\<not> known_machine nd' n"
    using that handle_event_unknown(1) by (cases n) (auto simp: known_machine_def run_event_def)
  ultimately show ?thesis
    using event_daemon_ok [OF ok, of n] daemon_strategy.round_ok [OF strat assms(1) ok, of h u'] by blast
qed

theorem loop_is_safe_witness:
  "\<exists>nd' s. daemon_step (insertion_sort compare_pairs_second)
      (SimpleStrategy_schedule (insertion_sort compare_pairs_second) SimpleStrategy_new (\<lambda>_. OTHER_STAT)) ([], ex_loop_daemon) ([], nd') \<and>
    vm_at nd' 7 \<noteq> None \<and> daemon_ok nd' \<and>
    round_body (insertion_sort compare_pairs_second)
      (SimpleStrategy_schedule (insertion_sort compare_pairs_second) SimpleStrategy_new (\<lambda>_. OTHER_STAT)) ex_loop_host ([], nd') = Some (Inr s)"
proof -
  let ?n = "(ex_host, Some 7, VIR_DOMAIN_EVENT_STARTED)"
  let ?step = "daemon_step (insertion_sort compare_pairs_second)
      (SimpleStrategy_schedule (insertion_sort compare_pairs_second) SimpleStrategy_new (\<lambda>_. OTHER_STAT))"
  have mo: "maps_ok ex_loop_daemon" using ex_loop_ok mapping_ok_maps by (simp add: daemon_ok_def)
  have "notification_ok ex_loop_daemon ?n" by (simp add: notification_ok_def ex_host_readable)
  moreover have "known_machine ex_loop_daemon ?n" using ex_loop_event by (simp add: event_ok_def)
  ultimately obtain ret nd' where r: "handle_event ex_host (Some 7) VIR_DOMAIN_EVENT_STARTED ex_loop_daemon = Inr (ret, nd')"
    "core nd' = core ex_loop_daemon"
    "\<forall>d. (if d = h_id ex_host (Some 7) then lc_step VIR_DOMAIN_EVENT_STARTED (lc_state ex_loop_daemon d)
       else Inr (lc_state ex_loop_daemon d)) = Inr (lc_state nd' d)"
    using handle_event_step [OF mo] by blast
  then have "?step ([], ex_loop_daemon) ([], nd')"
    by (intro Notify [OF ex_loop_event]) (simp add: run_event_def)
  moreover from this have "daemon_ok nd' \<and> (\<exists>s. round_body (insertion_sort compare_pairs_second)
      (SimpleStrategy_schedule (insertion_sort compare_pairs_second) SimpleStrategy_new (\<lambda>_. OTHER_STAT)) ex_loop_host ([], nd') = Some (Inr s))"
    using loop_is_safe [OF insertion.std_sort_axioms insertion.std_sort_axioms r_into_rtranclp ex_loop_ok, of SimpleStrategy_new "\<lambda>_. OTHER_STAT" "[]" "[]" nd' ?n ex_loop_host]
      ex_loop_host_ok [OF r(2)] by blast
  moreover have "h_id ex_host (Some 7) = 7" by (simp add: ex_host_def)
  then have "vm_at nd' 7 \<noteq> None" using r(3) [rule_format, of 7]
    by (cases "vm_at nd' 7") (auto simp: lc_state_def lc_step_eq)
  ultimately show ?thesis by blast
qed

text \<open>C39. \<open>monitor\<close> ignores failures: when \<open>/proc/stat\<close> cannot be opened in a round, the vector of usages is
  empty and the strategy indexes it out of range, if the first node has a CPU.\<close>

theorem unreadable_stat_breaks_the_round:
  assumes "daemon_ok nd" "cpu_answers h nd" "rest_readable h nd" "h_file h ''/proc/stat'' = None"
    "cpu_ids (numa_nodes (numa nd) ! 0) \<noteq> []"
  shows "round_body srt (SimpleStrategy_schedule csrt ss indet) h (u, nd) = Some (Inl Out_Of_Range)"
proof -
  let ?nd1 = "refresh_cpu_mapping (h_vcpu h) nd"
  have r: "daemon_ok ?nd1" "core ?nd1 = core nd" using refresh_ok [OF assms(1,2)] by simp_all
  note c = core_fields [OF r(2)]
  obtain arr where a: "cpu_mon ?nd1 = \<lparr>cpu_number = host_cpu_number ?nd1, cpu_stat_array = Some arr\<rparr>"
    "int (length arr) = host_cpu_number ?nd1 + 1"
    using r(1) by (auto simp: daemon_ok_def static_ok_def)
  have rest: "rest_readable h ?nd1" using assms(3) by (simp add: rest_readable_def c)
  have "get_cpu_usage (h_file h ''/proc/stat'') u (cpu_mon ?nd1) =
      Inr (-1, [], \<lparr>cpu_number = host_cpu_number ?nd1, cpu_stat_array = Some arr\<rparr>)"
    by (simp add: get_cpu_usage_def assms(4) a(1))
  from monitor_with_usage [OF r(1) rest this a(2)] obtain nd2 where m: "monitor h u ?nd1 = Inr ([], nd2)"
    "map node_view (numa_nodes (numa nd2)) = map node_view (numa_nodes (numa ?nd1))"
    "numa_number (numa nd2) = numa_number (numa ?nd1)" by (elim exE conjE) (rule that)
  have n: "0 < numa_number (numa nd)" "length (numa_nodes (numa nd)) = nat (numa_number (numa nd))" "nodes_ok nd"
    using assms(1) by (simp_all add: daemon_ok_def static_ok_def nodes_ok_def)
  have len: "length (numa_nodes (numa nd2)) = nat (numa_number (numa nd))" "cpu_ids (numa_nodes (numa nd2) ! 0) = cpu_ids (numa_nodes (numa nd) ! 0)"
    using node_view_fields(1,2) [OF m(2)] c(1) n by simp_all
  obtain x xs where x: "cpu_ids (numa_nodes (numa nd) ! 0) = x # xs" using assms(5) by (cases "cpu_ids (numa_nodes (numa nd) ! 0)") auto
  have "node_log [] (numa_nodes (numa nd2) ! 0) = Inl Out_Of_Range"
    by (simp add: node_log_def len(2) x vec_at_def)
  moreover obtain k where k: "nat (numa_number (numa nd)) = Suc k" using n(1) gr0_implies_Suc [of "nat (numa_number (numa nd))"] by auto
  then have "map int [0..<nat (numa_number (numa nd2))] = 0 # map int [1..<Suc k]"
    using m(3) c(1) by (simp add: upt_conv_Cons del: upt_Suc)
  moreover have "vec_at (numa_nodes (numa nd2)) 0 = Inr (numa_nodes (numa nd2) ! 0)" using len(1) k by (simp add: vec_at_def)
  ultimately have "SimpleStrategy_schedule csrt ss indet (vm_infos_map nd2) [] (numa_nodes (numa nd2))
      (numa_number (numa nd2)) (netdev_numanode nd2) = Some (Inl Out_Of_Range)"
    by (simp add: SimpleStrategy_schedule_def)
  then show ?thesis using m(1) by (simp add: round_body_def)
qed

theorem unreadable_stat_breaks_the_round_witness:
  "round_body (insertion_sort compare_pairs_second)
     (SimpleStrategy_schedule (insertion_sort compare_pairs_second) SimpleStrategy_new (\<lambda>_. OTHER_STAT))
     (ex_loop_host\<lparr>h_file := \<lambda>_. None\<rparr>) ([], ex_loop_daemon) = Some (Inl Out_Of_Range)"
proof (rule unreadable_stat_breaks_the_round [OF ex_loop_ok])
  have "host_ok ex_loop_host ex_loop_daemon" by (rule ex_loop_host_ok) simp
  then show "cpu_answers (ex_loop_host\<lparr>h_file := \<lambda>_. None\<rparr>) ex_loop_daemon" "rest_readable (ex_loop_host\<lparr>h_file := \<lambda>_. None\<rparr>) ex_loop_daemon"
    by (simp_all add: host_ok_def cpu_answers_def rest_readable_def)
qed (simp_all add: ex_lat_node_def ex_cpu_node_def)









text \<open>The daemon keeps running: from a well-formed state, any list of rounds whose events and hosts are
  fit for it is carried out to its end without a fault, and so is \<open>start\<close> once \<open>init\<close> has succeeded.\<close>

theorem daemon_keeps_running:
  assumes "std_sort compare_pairs_second srt" "std_sort compare_pairs_second csrt" "daemon_ok nd"
    "rounds_ok srt (SimpleStrategy_schedule csrt ss indet) rounds ([], nd)"
  shows "\<exists>s. loop_rounds srt (SimpleStrategy_schedule csrt ss indet) rounds ([], nd) = Some (Inr s) \<and> daemon_ok (snd s) \<and>
    (Nuiod_init srt sv h nd0 = Inr (0, nd) \<longrightarrow>
       start srt (SimpleStrategy_schedule csrt ss indet) sv h rounds nd0 = Some (Inr s))"
  using daemon_strategy.loop_rounds_return [OF simple_daemon_strategy [OF assms(2)] assms(1), of "([], nd)" ss indet rounds] assms(3,4)
  by (auto simp: start_def)

theorem daemon_keeps_running_witness:
  "\<exists>s. loop_rounds (insertion_sort compare_pairs_second)
      (SimpleStrategy_schedule (insertion_sort compare_pairs_second) SimpleStrategy_new (\<lambda>_. OTHER_STAT))
      [([(ex_host, Some 1, VIR_DOMAIN_EVENT_SUSPENDED)], ex_loop_host)] ([], ex_loop_daemon) = Some (Inr s) \<and> daemon_ok (snd s)"
proof -
  let ?n = "(ex_host, Some 1, VIR_DOMAIN_EVENT_SUSPENDED)"
  have e: "event_ok ex_loop_daemon ?n" by (simp add: event_ok_def known_machine_def ex_loop_views ex_host_def)
  have mo: "maps_ok ex_loop_daemon" using ex_loop_ok mapping_ok_maps by (simp add: daemon_ok_def)
  have "core nd' = core ex_loop_daemon" if "run_event ?n ex_loop_daemon = Inr nd'" for nd'
    using handle_event_step [OF mo, of ex_host "Some 1" VIR_DOMAIN_EVENT_SUSPENDED] that e
    by (auto simp: run_event_def notification_ok_def event_ok_def)
  then have "rounds_ok (insertion_sort compare_pairs_second)
      (SimpleStrategy_schedule (insertion_sort compare_pairs_second) SimpleStrategy_new (\<lambda>_. OTHER_STAT))
      [([?n], ex_loop_host)] ([], ex_loop_daemon)"
    using e ex_loop_host_ok by (simp add: res_simps)
  from daemon_keeps_running [OF insertion.std_sort_axioms insertion.std_sort_axioms ex_loop_ok this] show ?thesis by blast
qed

end
