(* ===== verification/Program.thy ===== *)
theory Program
  imports Daemon
begin

section \<open>The program\<close>

text \<open>
  \<open>main\<close> of \<open>src/main.cpp\<close>, and a run of the whole program. What the host must give is
  stated here without reference to the state of the daemon: files at the start, and
  for every round CPUs that exist, counters of \<open>/proc/stat\<close> that advance from one
  reading to the next, the free memory of the nodes and the output of perf.
\<close>


subsection \<open>Hosts that answer\<close>






lemma usage_irrelevant [simp]:
  "advance (st\<lparr>usage := v\<rparr>) st' = advance st st'" "ticks (st\<lparr>usage := v\<rparr>) st' = ticks st st'"
  by (simp_all add: advance_def ticks_def)


subsection \<open>What a round does to the CPU monitor\<close>






subsection \<open>Rounds on such hosts\<close>










end
