(* ===== verification/Rounds.thy ===== *)
theory Rounds
  imports Daemon
begin

section \<open>What a round achieves\<close>

text \<open>
  The monitors, the strategy and the pinning together, in one round of the loop in
  \<open>start\<close> of \<open>src/Nuiod.cpp\<close>: where the active machines run afterwards. The strategy
  decides by the nodes that hold the memory of the machines; the lemmas show that the
  CPUs follow the decisions when every node has room for the machines that come, and
  that machines on different CPUs stay on different CPUs whatever the pins do.
\<close>

definition runs_on :: "nuiod \<Rightarrow> int \<Rightarrow> nat \<Rightarrow> bool" where
  "runs_on nd d i \<longleftrightarrow> (\<exists>vm. vm_at nd d = Some vm \<and> real_cpu_no vm \<in> set (cpu_ids (numa_nodes (numa nd) ! i)))"

definition running_on :: "nuiod \<Rightarrow> int set \<Rightarrow> nat \<Rightarrow> nat" where
  "running_on nd A i = card {d \<in> A. runs_on nd d i}"

text \<open>Every machine is on a CPU of some node, and every node has a free CPU for every machine of another.\<close>

definition roomy :: "nuiod \<Rightarrow> bool" where
  "roomy nd \<longleftrightarrow> (\<forall>d vm. vm_at nd d = Some vm \<longrightarrow> on_some_node nd (real_cpu_no vm)) \<and>
     (\<forall>k<nat (numa_number (numa nd)). card {d \<in> dom (vm_at nd). \<not> runs_on nd d k} \<le> card (free_cpus nd k))"

lemma placed_runs_on: "placed nd a \<longleftrightarrow> runs_on nd (d_dom_id a) (nat (cpu_node_id a))"
  by (simp add: placed_def runs_on_def)

lemma runs_on_unique:
  assumes "nodes_ok nd" "runs_on nd d i" "runs_on nd d j" "i < nat (numa_number (numa nd))" "j < nat (numa_number (numa nd))"
  shows "i = j"
proof -
  obtain vm where "vm_at nd d = Some vm" "real_cpu_no vm \<in> set (cpu_ids (numa_nodes (numa nd) ! i))"
    "real_cpu_no vm \<in> set (cpu_ids (numa_nodes (numa nd) ! j))"
    using assms(2,3) by (auto simp: runs_on_def)
  then have "Some (int i) = Some (int j)" using cpus_in_nodes(3) [OF assms(1)] assms(4,5) by metis
  then show ?thesis by simp
qed

text \<open>Placed machines are counted on the nodes as the placement says.\<close>

lemma running_on_load:
  assumes "nodes_ok nd" "distinct (concat von)" "length von = nat (numa_number (numa nd))"
    "\<forall>a\<in>set (decisions_of von). placed nd a" "i < length von"
  shows "running_on nd (set (concat von)) i = load von i"
proof -
  have on: "runs_on nd d j" if "j < length von" "d \<in> set (von ! j)" for d j
  proof -
    have "\<lparr>d_dom_id = d, cpu_node_id = int j, mem_node_id = int j\<rparr> \<in> set (decisions_of von)"
      using that by (auto simp: decisions_of_def)
    then show ?thesis using assms(4) by (fastforce simp: placed_runs_on)
  qed
  have "{d \<in> set (concat von). runs_on nd d i} = set (von ! i)"
  proof (intro equalityI subsetI)
    fix d assume "d \<in> {d \<in> set (concat von). runs_on nd d i}"
    then obtain l where "l \<in> set von" "d \<in> set l" "runs_on nd d i" by auto
    then obtain j where "j < length von" "d \<in> set (von ! j)" "runs_on nd d i" by (metis in_set_conv_nth)
    then show "d \<in> set (von ! i)" using runs_on_unique [OF assms(1) _ on] assms(3,5) by metis
  next
    fix d assume "d \<in> set (von ! i)"
    then show "d \<in> {d \<in> set (concat von). runs_on nd d i}" using on assms(5) nth_mem by auto
  qed
  moreover have "distinct (von ! i)" using assms(2,5) nth_mem by (auto simp: distinct_concat_iff)
  ultimately show ?thesis by (simp add: running_on_def load_def distinct_card)
qed

text \<open>Monitoring changes neither where the machines run nor which CPUs are free.\<close>

lemma roomy_monitored:
  assumes "same_vms nd nd'" "map node_view (numa_nodes (numa nd')) = map node_view (numa_nodes (numa nd))"
    "numa_number (numa nd') = numa_number (numa nd)" "length (numa_nodes (numa nd)) = nat (numa_number (numa nd))"
    "roomy nd"
  shows "roomy nd'"
proof -
  note s = same_vmsD [OF assms(1)]
  have ids: "cpu_ids (numa_nodes (numa nd') ! i) = cpu_ids (numa_nodes (numa nd) ! i)" if "i < nat (numa_number (numa nd))" for i
    using node_view_fields(2) [OF assms(2)] that assms(4) by simp
  have on: "runs_on nd' d i = runs_on nd d i" if "i < nat (numa_number (numa nd))" for d i
    unfolding runs_on_def ids [OF that] using s(4,5) by (fastforce simp: vm_key_def)
  have "{d \<in> dom (vm_at nd'). \<not> runs_on nd' d k} = {d \<in> dom (vm_at nd). \<not> runs_on nd d k}"
    "free_cpus nd' k = free_cpus nd k" if "k < nat (numa_number (numa nd))" for k
    using on [OF that] ids [OF that] s(2,3) by (simp_all add: free_cpus_def)
  moreover have "on_some_node nd' (real_cpu_no vm')" if at: "vm_at nd' d = Some vm'" for d vm'
  proof -
    obtain vm where "vm_at nd d = Some vm" "vm_key vm' = vm_key vm" using s(4) [OF at] by blast
    then have "on_some_node nd (real_cpu_no vm')" using assms(5) by (auto simp: roomy_def vm_key_def)
    then show ?thesis using assms(3) ids by (auto simp: on_some_node_def)
  qed
  ultimately show ?thesis using assms(3,5) by (simp add: roomy_def)
qed

lemma roomy_decisions:
  assumes "roomy nd" "decisions_ok nd acts" "distinct (map d_dom_id acts)"
  shows "on_nodes nd acts" "enough_cpus nd acts"
proof -
  show "on_nodes nd acts" using assms(1) by (auto simp: on_nodes_def roomy_def)
  show "enough_cpus nd acts"
    unfolding enough_cpus_def
  proof (intro allI impI)
    fix k assume k: "k < nat (numa_number (numa nd))"
    let ?f = "filter (\<lambda>a. cpu_node_id a = int k \<and> \<not> placed nd a) acts"
    have "map_find (vm_infos_map nd) = map_of (vm_infos_map nd)" by (simp add: map_find_def fun_eq_iff)
    then have "finite {d \<in> dom (vm_at nd). \<not> runs_on nd d k}" by (simp add: vm_at_def finite_dom_map_of)
    moreover have "set (map d_dom_id ?f) \<subseteq> {d \<in> dom (vm_at nd). \<not> runs_on nd d k}"
      using assms(2) by (auto simp: decisions_ok_def placed_runs_on)
    moreover have "arrivals nd acts k = card (set (map d_dom_id ?f))"
      using distinct_card [OF distinct_map_filter [OF assms(3)], of "\<lambda>a. cpu_node_id a = int k \<and> \<not> placed nd a"]
      by (simp add: arrivals_def)
    ultimately have "arrivals nd acts k \<le> card {d \<in> dom (vm_at nd). \<not> runs_on nd d k}" by (simp only: card_mono)
    then show "arrivals nd acts k \<le> card (free_cpus nd k)" using assms(1) k by (force simp: roomy_def)
  qed
qed

text \<open>What the strategy decides for the daemon.\<close>

lemma daemon_decisions:
  assumes "std_sort compare_pairs_second csrt" "daemon_ok nd" "usages_ok nd u"
  obtains von where "SimpleStrategy_schedule csrt ss indet (vm_infos_map nd) u (numa_nodes (numa nd)) (numa_number (numa nd))
      (netdev_numanode nd) = Some (Inr (decisions_of von))"
    "reshuffle (home_placement indet u (vm_infos_map nd) (numa_number (numa nd))) von"
    "mset (concat von) = mset (active_ids indet u (vm_infos_map nd))" "distinct (concat von)"
    "2 * nat (numa_number (numa nd)) - 1 \<le> length (active_ids indet u (vm_infos_map nd)) \<longrightarrow> balanced von"
    "decisions_ok nd (decisions_of von)"
proof -
  let ?N = "numa_number (numa nd)"
  note input = daemon_input_ok [OF assms(2,3)]
  have mo: "maps_ok nd" using assms(2) mapping_ok_maps by (simp add: daemon_ok_def)
  obtain von where von: "SimpleStrategy_schedule csrt ss indet (vm_infos_map nd) u (numa_nodes (numa nd)) ?N (netdev_numanode nd) =
      Some (Inr (decisions_of von))"
    "reshuffle (home_placement indet u (vm_infos_map nd) ?N) von"
    "2 * nat ?N - 1 \<le> length (active_ids indet u (vm_infos_map nd)) \<longrightarrow> balanced von"
    using schedule_outcome [OF assms(1) input, of ss indet] .
  have act: "mset (concat von) = mset (active_ids indet u (vm_infos_map nd))"
    using von(2) classify_result(2) [of u ?N "vm_infos_map nd" indet] input by (simp add: reshuffle_def schedule_input_ok_def)
  then have dist: "distinct (concat von)"
    using active_ids_distinct mset_eq_imp_distinct_iff input by (metis schedule_input_ok_def)
  have "decisions_ok nd (decisions_of von)"
    unfolding decisions_ok_def
  proof (intro ballI conjI)
    fix a assume a: "a \<in> set (decisions_of von)"
    then have "d_dom_id a \<in> set (map d_dom_id (decisions_of von))" by simp
    then have "d_dom_id a \<in> set (active_ids indet u (vm_infos_map nd))"
      using mset_eq_setD [OF act] by (simp only: decisions_ids)
    then show "vm_at nd (d_dom_id a) \<noteq> None" using active_ids_keys keys_dom [OF mo] by blast
    show "0 \<le> cpu_node_id a" "cpu_node_id a < ?N"
      using decisions_nodes [OF a] reshuffle_length [OF von(2)]
      by (auto simp: home_placement_length split: if_splits)
  qed
  then show ?thesis using that von act dist by blast
qed

text \<open>One round, from what the monitors leave to what the pins achieve.\<close>

lemma round_carried_out:
  assumes "std_sort compare_pairs_second srt" "std_sort compare_pairs_second csrt"
    "daemon_ok nd" "host_ok h nd" "pins_succeed (h_pin h)" "roomy (refresh_cpu_mapping (h_vcpu h) nd)"
  obtains u nd1 nd' von where "monitor h us (refresh_cpu_mapping (h_vcpu h) nd) = Inr (u, nd1)"
    "round_body srt (SimpleStrategy_schedule csrt ss indet) h (us, nd) = Some (Inr (u, nd'))"
    "reshuffle (home_placement indet u (vm_infos_map nd1) (numa_number (numa nd))) von"
    "mset (concat von) = mset (active_ids indet u (vm_infos_map nd1))" "distinct (concat von)"
    "2 * nat (numa_number (numa nd)) - 1 \<le> length (active_ids indet u (vm_infos_map nd1)) \<longrightarrow> balanced von"
    "nodes_ok nd'" "numa_number (numa nd') = numa_number (numa nd)" "\<forall>a\<in>set (decisions_of von). placed nd' a"
    "\<forall>d. d \<notin> set (concat von) \<longrightarrow> vm_at nd' d = vm_at nd1 d"
proof -
  let ?nd0 = "refresh_cpu_mapping (h_vcpu h) nd"
  have r: "daemon_ok ?nd0" "core ?nd0 = core nd" using refresh_ok [OF assms(3)] assms(4) by (simp_all add: host_ok_def)
  note c = core_fields [OF r(2)]
  have h: "host_ok h ?nd0" using assms(4) by (simp add: host_ok_def cpu_answers_def cpu_stat_readable_def rest_readable_def c)
  obtain u nd1 where m: "monitor h us ?nd0 = Inr (u, nd1)" "daemon_ok nd1" "same_vms ?nd0 nd1" "usages_ok nd1 u"
    "map node_view (numa_nodes (numa nd1)) = map node_view (numa_nodes (numa ?nd0))"
    "numa_number (numa nd1) = numa_number (numa ?nd0)"
    by (rule monitor_result [OF r(1) h])
  have n1: "numa_number (numa nd1) = numa_number (numa nd)" using m(6) c(1) by simp
  have ok1: "mapping_ok nd1" "nodes_ok nd1" using m(2) by (simp_all add: daemon_ok_def static_ok_def)
  have "length (numa_nodes (numa ?nd0)) = nat (numa_number (numa ?nd0))"
    using r(1) by (simp add: daemon_ok_def static_ok_def nodes_ok_def)
  from roomy_monitored [OF m(3,5,6) this assms(6)] have room: "roomy nd1" .
  obtain von where von: "SimpleStrategy_schedule csrt ss indet (vm_infos_map nd1) u (numa_nodes (numa nd1)) (numa_number (numa nd1))
      (netdev_numanode nd1) = Some (Inr (decisions_of von))"
    "reshuffle (home_placement indet u (vm_infos_map nd1) (numa_number (numa nd1))) von"
    "mset (concat von) = mset (active_ids indet u (vm_infos_map nd1))" "distinct (concat von)"
    "2 * nat (numa_number (numa nd1)) - 1 \<le> length (active_ids indet u (vm_infos_map nd1)) \<longrightarrow> balanced von"
    and dec: "decisions_ok nd1 (decisions_of von)"
    using daemon_decisions [OF assms(2) m(2,4), of ss indet] .
  have u: "NaN \<notin> set u" "int (length u) = host_cpu_number nd1 + 1" using m(4) by (simp_all add: usages_ok_def)
  have ids: "distinct (map d_dom_id (decisions_of von))" by (simp only: decisions_ids von(4))
  obtain nd' where p: "perform srt (h_pin h) (h_vm_storage h) (decisions_of von) u nd1 = Inr nd'"
    "performed (h_pin h) nd1 (decisions_of von) nd'" "\<forall>a\<in>set (decisions_of von). placed nd' a"
    by (rule perform_places [OF ok1 assms(1) u dec ids assms(5) roomy_decisions [OF room dec ids]])
  have "round_body srt (SimpleStrategy_schedule csrt ss indet) h (us, nd) = Some (Inr (u, nd'))"
    using m(1) von(1) p(1) by (simp add: round_body_def)
  moreover have "\<forall>d. d \<notin> set (concat von) \<longrightarrow> vm_at nd' d = vm_at nd1 d"
    using p(2) unfolding performed_def decisions_ids by blast
  ultimately show ?thesis using that m(1) von(2-5) p(2,3) n1 by (simp add: performed_def)
qed

lemma exact_same_vms: "same_vms nd nd' \<Longrightarrow> exact nd \<Longrightarrow> mapping_ok nd' \<Longrightarrow> exact nd'"
  using same_vmsD(3,4) [of nd nd'] unfolding exact_def vm_key_def by (metis prod.inject)

lemma round_exact:
  assumes "std_sort compare_pairs_second srt" "std_sort compare_pairs_second csrt" "daemon_ok nd" "host_ok h nd"
    "exact nd" "distinct_cpus (h_vcpu h) nd"
  obtains u nd' where "round_body srt (SimpleStrategy_schedule csrt ss indet) h (us, nd) = Some (Inr (u, nd'))"
    "exact nd'" "dom (vm_at nd') = dom (vm_at nd)"
proof -
  let ?nd0 = "refresh_cpu_mapping (h_vcpu h) nd"
  have r: "daemon_ok ?nd0" "core ?nd0 = core nd" using refresh_ok [OF assms(3)] assms(4) by (simp_all add: host_ok_def)
  have h: "host_ok h ?nd0" using assms(4) by (simp add: host_ok_def cpu_answers_def cpu_stat_readable_def rest_readable_def core_fields [OF r(2)])
  obtain u nd1 where m: "monitor h us ?nd0 = Inr (u, nd1)" "daemon_ok nd1" "same_vms ?nd0 nd1" "usages_ok nd1 u"
    by (rule monitor_result [OF r(1) h])
  have ok1: "mapping_ok nd1" "nodes_ok nd1" using m(2) by (simp_all add: daemon_ok_def static_ok_def)
  have ex1: "exact nd1" using exact_same_vms [OF m(3) refresh_exact [OF assms(5,6)] ok1(1)] .
  obtain von where von: "SimpleStrategy_schedule csrt ss indet (vm_infos_map nd1) u (numa_nodes (numa nd1)) (numa_number (numa nd1))
      (netdev_numanode nd1) = Some (Inr (decisions_of von))" "decisions_ok nd1 (decisions_of von)"
    using daemon_decisions [OF assms(2) m(2,4), of ss indet] .
  have u: "NaN \<notin> set u" "int (length u) = host_cpu_number nd1 + 1" using m(4) by (simp_all add: usages_ok_def)
  obtain nd' where p: "perform srt (h_pin h) (h_vm_storage h) (decisions_of von) u nd1 = Inr nd'"
    "performed (h_pin h) nd1 (decisions_of von) nd'"
    using perform_fold [OF ok1 assms(1) u von(2)] perform_eq [OF ok1(2)] by metis
  have "dom (vm_at ?nd0) = dom (vm_at nd)"
    using refresh_result [OF assms(5,6)] by (auto simp: refreshed_def dom_def)
  then show ?thesis
    using that m(1) von(1) p ex1 same_vmsD(2) [OF m(3)] by (simp add: round_body_def performed_def)
qed

subsection \<open>Properties\<close>

text \<open>C3. The daemon never puts two machines on one CPU, from a well-formed state on a host that answers: when every machine with a known CPU is the one found on it and
  libvirt reports no two machines on the same CPU, then after the round, whatever libvirt answered to the pins, the
  same machines are known and no two of them are on the same CPU; the mapping from CPUs to machines is exact again.\<close>

theorem round_keeps_cpus_apart:
  assumes "std_sort compare_pairs_second srt" "std_sort compare_pairs_second csrt" "daemon_ok nd" "host_ok h nd"
    "exact nd" "distinct_cpus (h_vcpu h) nd"
  shows "\<exists>u nd'. round_body srt (SimpleStrategy_schedule csrt ss indet) h (us, nd) = Some (Inr (u, nd')) \<and>
    exact nd' \<and> dom (vm_at nd') = dom (vm_at nd) \<and>
    (\<forall>d e v w. vm_at nd' d = Some v \<longrightarrow> vm_at nd' e = Some w \<longrightarrow> d \<noteq> e \<longrightarrow> real_cpu_no v \<noteq> -1 \<longrightarrow>
      real_cpu_no v \<noteq> real_cpu_no w)"
proof -
  obtain u nd' where r: "round_body srt (SimpleStrategy_schedule csrt ss indet) h (us, nd) = Some (Inr (u, nd'))"
    "exact nd'" "dom (vm_at nd') = dom (vm_at nd)"
    by (rule round_exact [OF assms])
  have "real_cpu_no v \<noteq> real_cpu_no w"
    if "vm_at nd' d = Some v" "vm_at nd' e = Some w" "d \<noteq> e" "real_cpu_no v \<noteq> -1" for d e v w
    using r(2) that unfolding exact_def by (metis option.inject)
  with r show ?thesis by blast
qed

text \<open>C4. A round moves the active machines to where the strategy wants them: when the pins succeed, every machine is on a
  CPU of some node and every node has a free CPU for every machine of another node, then after the round no node runs
  more active machines than the fullest home node holds; with at least \<open>2n - 1\<close> active machines on \<open>n\<close> nodes, every
  node runs the \<open>n\<close>-th part of them, rounded down or up. All other machines are as the monitors left them.\<close>

theorem round_places_active_machines:
  assumes "std_sort compare_pairs_second srt" "std_sort compare_pairs_second csrt"
    "daemon_ok nd" "host_ok h nd" "pins_succeed (h_pin h)" "roomy (refresh_cpu_mapping (h_vcpu h) nd)"
    "n = nat (numa_number (numa nd))"
  shows "\<exists>u nd1 nd' A. monitor h us (refresh_cpu_mapping (h_vcpu h) nd) = Inr (u, nd1) \<and>
    round_body srt (SimpleStrategy_schedule csrt ss indet) h (us, nd) = Some (Inr (u, nd')) \<and>
    A = set (active_ids indet u (vm_infos_map nd1)) \<and> (\<Sum>i<n. running_on nd' A i) = card A \<and>
    (\<forall>b. (\<forall>l\<in>set (home_placement indet u (vm_infos_map nd1) (numa_number (numa nd))). length l \<le> b) \<longrightarrow>
      (\<forall>i<n. running_on nd' A i \<le> b)) \<and>
    (2 * n - 1 \<le> card A \<longrightarrow>
      (\<forall>i<n. card A div n \<le> running_on nd' A i \<and> running_on nd' A i \<le> (card A + n - 1) div n)) \<and>
    (\<forall>d. d \<notin> A \<longrightarrow> vm_at nd' d = vm_at nd1 d)"
proof -
  obtain u nd1 nd' von where r: "monitor h us (refresh_cpu_mapping (h_vcpu h) nd) = Inr (u, nd1)"
    "round_body srt (SimpleStrategy_schedule csrt ss indet) h (us, nd) = Some (Inr (u, nd'))"
    and von: "reshuffle (home_placement indet u (vm_infos_map nd1) (numa_number (numa nd))) von"
    "mset (concat von) = mset (active_ids indet u (vm_infos_map nd1))" "distinct (concat von)"
    "2 * n - 1 \<le> length (active_ids indet u (vm_infos_map nd1)) \<longrightarrow> balanced von"
    and nd': "nodes_ok nd'" "numa_number (numa nd') = numa_number (numa nd)" "\<forall>a\<in>set (decisions_of von). placed nd' a"
    "\<forall>d. d \<notin> set (concat von) \<longrightarrow> vm_at nd' d = vm_at nd1 d"
    using round_carried_out [OF assms(1-6), of us ss indet] unfolding assms(7) .
  let ?h = "home_placement indet u (vm_infos_map nd1) (numa_number (numa nd))"
  have A: "set (concat von) = set (active_ids indet u (vm_infos_map nd1))" using von(2) by (rule mset_eq_setD)
  have len: "length von = n" "length ?h = n"
    using reshuffle_length [OF von(1)] assms(7) by (simp_all add: home_placement_length)
  have on: "running_on nd' (set (concat von)) i = load von i" if "i < n" for i
    by (rule running_on_load [OF nd'(1) von(3) _ nd'(3)]) (use that len assms(7) nd'(2) in simp_all)
  have card: "card (set (concat von)) = length (active_ids indet u (vm_infos_map nd1))"
    using distinct_card [OF von(3)] arg_cong [OF von(2), of size] by simp
  have "(\<Sum>i<n. running_on nd' (set (concat von)) i) = card (set (concat von))"
    using on total_load [OF len(1)] distinct_card [OF von(3)] by simp
  moreover have "running_on nd' (set (concat von)) i \<le> b"
    if "\<forall>l\<in>set ?h. length l \<le> b" "i < n" for b i
    using von(1) that on [OF that(2)] len nth_mem by (auto simp: reshuffle_def load_def)
  moreover have "card (set (concat von)) div n \<le> running_on nd' (set (concat von)) i"
    "running_on nd' (set (concat von)) i \<le> (card (set (concat von)) + n - 1) div n"
    if "2 * n - 1 \<le> card (set (concat von))" "i < n" for i
    using von(4) that(1) balanced_share [OF _ len(1) that(2)] on [OF that(2)] card distinct_card [OF von(3)] by simp_all
  ultimately show ?thesis using r A nd'(4)
    by (intro exI [of _ u] exI [of _ nd1] exI [of _ nd'] exI [of _ "set (concat von)"] conjI allI impI) blast+
qed

text \<open>The example daemon of above, on a host that reports its two machines where they are, with all pins succeeding.\<close>

definition ex_pair_host :: host where
  "ex_pair_host = ex_loop_host\<lparr>h_vcpu := (\<lambda>p. (1, if p = Some 1 then 0 else 1))\<rparr>"

lemma ex_pair_host_ok: "host_ok ex_pair_host ex_loop_daemon"
proof -
  have "host_ok ex_loop_host ex_loop_daemon" by (rule ex_loop_host_ok) simp
  then have "cpu_stat_readable ex_pair_host ex_loop_daemon" "rest_readable ex_pair_host ex_loop_daemon"
    by (simp_all add: host_ok_def cpu_stat_readable_def rest_readable_def ex_pair_host_def)
  then show ?thesis by (simp add: host_ok_def cpu_answers_def ex_pair_host_def)
qed

lemma ex_pair_room: "roomy (refresh_cpu_mapping (h_vcpu ex_pair_host) ex_loop_daemon)"
proof -
  have "refresh_cpu_mapping (h_vcpu ex_pair_host) ex_loop_daemon = ex_loop_daemon"
    by (rule refresh_idle)
      (auto simp: ex_loop_views new_cpu_of_def get_vm_real_cpu_def ex_pair_host_def split: if_splits)
  moreover have "runs_on ex_loop_daemon d 0" if "d \<in> dom (vm_at ex_loop_daemon)" for d
    using that by (auto simp: runs_on_def ex_loop_views ex_lat_node_def ex_cpu_node_def)
  then have "card {d \<in> dom (vm_at ex_loop_daemon). \<not> runs_on ex_loop_daemon d 0} = 0"
    by (metis (no_types, lifting) card.empty empty_Collect_eq)
  moreover have "{d \<in> dom (vm_at ex_loop_daemon). \<not> runs_on ex_loop_daemon d 1} \<subseteq> {1, 2}"
    by (auto simp: ex_loop_views split: if_splits)
  then have "card {d \<in> dom (vm_at ex_loop_daemon). \<not> runs_on ex_loop_daemon d 1} \<le> card {1, 2 :: int}"
    by (rule card_mono [rotated]) simp
  moreover have "free_cpus ex_loop_daemon 1 = {2, 3}"
    by (auto simp: free_cpus_def ex_loop_views ex_lat_node_def ex_cpu_node_def map_find_def)
  moreover have "on_some_node ex_loop_daemon (real_cpu_no vm)" if "vm_at ex_loop_daemon d = Some vm" for d vm
    using that by (auto simp: ex_loop_views on_some_node_def ex_lat_node_def ex_cpu_node_def split: if_splits
        intro!: exI [of _ 0])
  ultimately show ?thesis by (simp add: roomy_def All_less_Suc numeral_2_eq_2)
qed

theorem round_keeps_cpus_apart_witness:
  "\<exists>u nd' v w. round_body (insertion_sort compare_pairs_second)
      (SimpleStrategy_schedule (insertion_sort compare_pairs_second) SimpleStrategy_new (\<lambda>_. OTHER_STAT))
      ex_pair_host ([], ex_loop_daemon) = Some (Inr (u, nd')) \<and>
    vm_at nd' 1 = Some v \<and> vm_at nd' 2 = Some w \<and> (real_cpu_no v = -1 \<or> real_cpu_no v \<noteq> real_cpu_no w)"
proof -
  have "exact ex_loop_daemon"
    using ex_conf_exact by (simp add: ex_loop_daemon_def exact_def mapping_ok_def maps_ok_def vm_at_def occupant_def)
  moreover have "distinct_cpus (h_vcpu ex_pair_host) ex_loop_daemon"
    by (auto simp: distinct_cpus_def ex_loop_views new_cpu_of_def get_vm_real_cpu_def ex_pair_host_def split: if_splits)
  ultimately obtain u nd' where r: "round_body (insertion_sort compare_pairs_second)
      (SimpleStrategy_schedule (insertion_sort compare_pairs_second) SimpleStrategy_new (\<lambda>_. OTHER_STAT))
      ex_pair_host ([], ex_loop_daemon) = Some (Inr (u, nd'))" "dom (vm_at nd') = dom (vm_at ex_loop_daemon)"
    "\<And>d e v w. vm_at nd' d = Some v \<Longrightarrow> vm_at nd' e = Some w \<Longrightarrow> d \<noteq> e \<Longrightarrow> real_cpu_no v \<noteq> -1 \<Longrightarrow>
      real_cpu_no v \<noteq> real_cpu_no w"
    using round_keeps_cpus_apart [OF insertion.std_sort_axioms insertion.std_sort_axioms ex_loop_ok ex_pair_host_ok,
        of SimpleStrategy_new "\<lambda>_. OTHER_STAT" "[]"] by metis
  have "1 \<in> dom (vm_at nd')" "2 \<in> dom (vm_at nd')" unfolding r(2) by (simp_all add: ex_loop_views)
  then obtain v w where "vm_at nd' 1 = Some v" "vm_at nd' 2 = Some w" by auto
  then show ?thesis using r(1) r(3) [of 1 v 2 w] by auto
qed

theorem round_places_active_machines_witness:
  "\<exists>u nd' A. round_body (insertion_sort compare_pairs_second)
      (SimpleStrategy_schedule (insertion_sort compare_pairs_second) SimpleStrategy_new (\<lambda>_. OTHER_STAT))
      ex_pair_host ([], ex_loop_daemon) = Some (Inr (u, nd')) \<and>
    running_on nd' A 0 + running_on nd' A 1 = card A"
proof -
  have "pins_succeed (h_pin ex_pair_host)"
    by (simp add: pins_succeed_def ex_pair_host_def ex_loop_host_def ex_host_def)
  from round_places_active_machines [OF insertion.std_sort_axioms insertion.std_sort_axioms ex_loop_ok ex_pair_host_ok
      this ex_pair_room refl, of "[]" SimpleStrategy_new "\<lambda>_. OTHER_STAT"]
  show ?thesis by (elim exE conjE) (simp add: lessThan_Suc numeral_2_eq_2, metis add.commute)
qed

end
