(* ===== verification/MgenBuffer.thy ===== *)
theory MgenBuffer
  imports Prelude
begin

section \<open>The buffer of the latency measurement\<close>

text \<open>
  \<open>last_free_elem\<close>, \<open>rand_array_init\<close>, \<open>rand_buf_init\<close> and \<open>buf_read\<close> of \<open>src/mgen.cpp\<close>:
  a buffer of 256 MB whose lines hold pointers to one another, and the loop that
  follows them. A memory gives the pointer stored at an address; \<open>rand\<close> is a
  parameter, a sequence of numbers for every seed. The array of random numbers
  is built by drawing until the number drawn is free, which need not end, so
  that loop is a partial function. The lemmas show that it ends when every
  remainder is drawn again and again, that the array is then a path through all
  its elements, and that the pointers form one ring through all lines.
\<close>

definition RAND_ARRAY_SIZE :: nat where "RAND_ARRAY_SIZE = 8192"
definition INVALID_RAND :: int where "INVALID_RAND = -1"
definition LINE_SIZE :: nat where "LINE_SIZE = 64"
definition MGEN_BUF_SIZE :: nat where "MGEN_BUF_SIZE = 256 * 1024 * 1024"

subsection \<open>The random array\<close>

fun last_free_loop :: "int list \<Rightarrow> nat \<Rightarrow> bool" where
  "last_free_loop [] cnt \<longleftrightarrow> cnt = 1"
| "last_free_loop (x # xs) cnt \<longleftrightarrow>
     (if x = INVALID_RAND then (if 1 < cnt + 1 then False else last_free_loop xs (cnt + 1))
      else last_free_loop xs cnt)"

definition last_free_elem :: "int list \<Rightarrow> bool" where
  "last_free_elem arr = last_free_loop arr 0"

text \<open>The inner loop: the first free element drawn from position \<open>k\<close> on, and the next position.\<close>

definition drawn :: "(nat \<Rightarrow> nat) \<Rightarrow> nat \<Rightarrow> nat" where
  "drawn rnd k = rnd k mod RAND_ARRAY_SIZE"

partial_function (option) draw_free :: "(nat \<Rightarrow> nat) \<Rightarrow> int list \<Rightarrow> nat \<Rightarrow> (nat \<times> nat) option" where
  "draw_free rnd arr k =
     (if arr ! drawn rnd k = INVALID_RAND then Some (drawn rnd k, Suc k) else draw_free rnd arr (Suc k))"

partial_function (option) fill_loop :: "(nat \<Rightarrow> nat) \<Rightarrow> int list \<Rightarrow> nat \<Rightarrow> nat \<Rightarrow> int list option" where
  "fill_loop rnd arr index k =
     Option.bind (draw_free rnd arr k) (\<lambda>rk.
       let (arr1, index1) = (if arr ! index = INVALID_RAND \<and> index \<noteq> fst rk
             then (arr[index := int (fst rk)], fst rk) else (arr, index))
       in if last_free_elem arr1 then Some (arr1[index1 := int RAND_ARRAY_SIZE])
          else fill_loop rnd arr1 index1 (snd rk))"

text \<open>The seed that is used and the array; \<open>now\<close> is what \<open>time(0)\<close> gives.\<close>

definition rand_array_init ::
  "(u32 \<Rightarrow> nat \<Rightarrow> nat) \<Rightarrow> u32 \<Rightarrow> u32 \<Rightarrow> (u32 \<times> int list) option" where
  "rand_array_init rnd now s_randseed =
     (let seed = (if s_randseed = 0 then now else s_randseed)
      in map_option (Pair seed) (fill_loop (rnd seed) (replicate RAND_ARRAY_SIZE INVALID_RAND) 0 0))"

subsection \<open>The buffer\<close>

type_synonym memory = "int \<Rightarrow> int option"

text \<open>The loops carry the address of the line, the line where the last block ends, and the memory.\<close>

definition init_line :: "int list \<Rightarrow> int \<Rightarrow> nat \<Rightarrow> int \<times> int option \<times> memory \<Rightarrow> int \<times> int option \<times> memory" where
  "init_line s_rand_arr blk_start j = (\<lambda>(p, end_line, mem).
     (p + int LINE_SIZE,
      if s_rand_arr ! j = int RAND_ARRAY_SIZE then Some p else end_line,
      mem(p \<mapsto> blk_start + s_rand_arr ! j * int LINE_SIZE)))"

definition init_block :: "int list \<Rightarrow> int \<times> int option \<times> memory \<Rightarrow> int \<times> int option \<times> memory" where
  "init_block s_rand_arr s = fold (init_line s_rand_arr (fst s)) [0..<RAND_ARRAY_SIZE] s"

definition rand_buf_init :: "int list \<Rightarrow> int \<Rightarrow> nat \<Rightarrow> memory \<Rightarrow> memory" where
  "rand_buf_init s_rand_arr buf size_bytes mem =
     (let nblk = size_bytes div (RAND_ARRAY_SIZE * LINE_SIZE);
          (p, end_line, mem') = fold (\<lambda>i. init_block s_rand_arr) [0..<nblk] (buf, None, mem)
      in case end_line of None \<Rightarrow> mem' | Some e \<Rightarrow> mem'(e \<mapsto> buf))"

subsection \<open>Following the pointers\<close>

definition load_ptr :: "memory \<Rightarrow> int \<Rightarrow> int res" where
  "load_ptr mem p = (case mem p of None \<Rightarrow> Inl Out_Of_Range | Some q \<Rightarrow> Inr q)"

text \<open>The loop of the assembler code; \<open>i\<close> is the register that counts.\<close>

function read_loop :: "memory \<Rightarrow> nat \<Rightarrow> nat \<Rightarrow> int \<Rightarrow> int res" where
  "read_loop mem read_num i p =
     bind_res (load_ptr mem p) (\<lambda>q. if i + 1 < read_num then read_loop mem read_num (i + 1) q else Inr q)"
  by pat_completeness auto
termination by (relation "measure (\<lambda>(mem, n, i, p). n - i)") auto

declare read_loop.simps [simp del]

definition buf_read :: "memory \<Rightarrow> int \<Rightarrow> nat \<Rightarrow> int res" where
  "buf_read mem buf read_num = read_loop mem read_num 0 buf"

text \<open>What it computes: a number of loads, each from the address the one before gave.\<close>

fun chase :: "memory \<Rightarrow> nat \<Rightarrow> int \<Rightarrow> int res" where
  "chase mem 0 p = Inr p"
| "chase mem (Suc n) p = bind_res (load_ptr mem p) (chase mem n)"

lemma read_loop_chase: "read_loop mem n i p = chase mem (max 1 (n - i)) p"
proof (induction mem n i p rule: read_loop.induct)
  case (1 mem n i p)
  show ?case
  proof (cases "load_ptr mem p")
    case (Inr q)
    show ?thesis
    proof (cases "i + 1 < n")
      case True
      then have "max 1 (n - i) = Suc (max 1 (n - (i + 1)))" by simp
      then show ?thesis using "1.IH" [OF Inr True] True by (simp add: read_loop.simps [of mem n i p] Inr)
    next
      case False
      then have "max 1 (n - i) = Suc 0" by simp
      then show ?thesis using False by (simp add: read_loop.simps [of mem n i p] Inr del: max.absorb1)
    qed
  next
    case (Inl e)
    then show ?thesis by (cases "max 1 (n - i)") (simp_all add: read_loop.simps [of mem n i p])
  qed
qed

lemma buf_read_chase: "0 < n \<Longrightarrow> buf_read mem buf n = chase mem n buf"
  by (simp add: buf_read_def read_loop_chase max_def)

lemma chase_snoc: "chase mem (Suc n) p = bind_res (chase mem n p) (load_ptr mem)"
proof (induction n arbitrary: p)
  case 0
  then show ?case by (cases "load_ptr mem p") simp_all
next
  case (Suc n)
  show ?case
  proof (cases "load_ptr mem p")
    case (Inr q)
    then show ?thesis using Suc [of q] by simp
  qed simp
qed

subsection \<open>The random array is a path\<close>

text \<open>
  A path under construction starts at 0, every element but the last points to
  its successor, and every other element of the array is free. A complete one
  has all elements, and the last one holds the mark \<open>RAND_ARRAY_SIZE\<close>.
\<close>

definition partial_path :: "nat list \<Rightarrow> int list \<Rightarrow> bool" where
  "partial_path ps arr \<longleftrightarrow>
     length arr = RAND_ARRAY_SIZE \<and> distinct ps \<and> set ps \<subseteq> {..<RAND_ARRAY_SIZE} \<and> ps \<noteq> [] \<and> hd ps = 0 \<and>
     (\<forall>t. Suc t < length ps \<longrightarrow> arr ! (ps ! t) = int (ps ! Suc t)) \<and>
     (\<forall>x<RAND_ARRAY_SIZE. x \<notin> set (butlast ps) \<longrightarrow> arr ! x = INVALID_RAND)"

definition array_path :: "nat list \<Rightarrow> int list \<Rightarrow> bool" where
  "array_path ps arr \<longleftrightarrow>
     length arr = RAND_ARRAY_SIZE \<and> distinct ps \<and> set ps = {..<RAND_ARRAY_SIZE} \<and> hd ps = 0 \<and>
     (\<forall>t. Suc t < RAND_ARRAY_SIZE \<longrightarrow> arr ! (ps ! t) = int (ps ! Suc t)) \<and>
     arr ! last ps = int RAND_ARRAY_SIZE"

lemma size_ge_2: "2 \<le> RAND_ARRAY_SIZE"
  by (simp add: RAND_ARRAY_SIZE_def)

lemma last_free_loop_count:
  "c \<le> 1 \<Longrightarrow> last_free_loop xs c \<longleftrightarrow> c + length (filter (\<lambda>x. x = INVALID_RAND) xs) = 1"
  by (induction xs arbitrary: c) auto

lemma last_free_elem_count:
  "last_free_elem arr \<longleftrightarrow> card {i. i < length arr \<and> arr ! i = INVALID_RAND} = 1"
  by (simp add: last_free_elem_def last_free_loop_count length_filter_conv_card)

lemma partial_path_free:
  assumes "partial_path ps arr" "x < RAND_ARRAY_SIZE"
  shows "arr ! x = INVALID_RAND \<longleftrightarrow> x \<notin> set (butlast ps)"
proof -
  have "arr ! x \<noteq> INVALID_RAND" if x: "x \<in> set (butlast ps)"
  proof -
    obtain t where "t < length ps - 1" "x = ps ! t" using x by (auto simp: in_set_conv_nth nth_butlast)
    then have "arr ! x = int (ps ! Suc t)" using assms(1) by (auto simp: partial_path_def)
    then show ?thesis by (simp add: INVALID_RAND_def)
  qed
  then show ?thesis using assms by (auto simp: partial_path_def)
qed

lemma partial_path_count:
  assumes "partial_path ps arr"
  shows "last_free_elem arr \<longleftrightarrow> length ps = RAND_ARRAY_SIZE" "length ps \<le> RAND_ARRAY_SIZE"
proof -
  have d: "distinct (butlast ps)" "set (butlast ps) \<subseteq> {..<RAND_ARRAY_SIZE}" "ps \<noteq> []"
    using assms by (auto simp: partial_path_def distinct_butlast dest: in_set_butlastD)
  have "{i. i < length arr \<and> arr ! i = INVALID_RAND} = {..<RAND_ARRAY_SIZE} - set (butlast ps)"
    using partial_path_free [OF assms] assms by (auto simp: partial_path_def)
  then have "card {i. i < length arr \<and> arr ! i = INVALID_RAND} = RAND_ARRAY_SIZE - (length ps - 1)"
    using d by (simp add: card_Diff_subset distinct_card)
  moreover show le: "length ps \<le> RAND_ARRAY_SIZE"
  proof -
    have "distinct ps" "set ps \<subseteq> {..<RAND_ARRAY_SIZE}" using assms by (simp_all add: partial_path_def)
    then show ?thesis using card_mono [of "{..<RAND_ARRAY_SIZE}" "set ps"] by (simp add: distinct_card)
  qed
  ultimately show "last_free_elem arr \<longleftrightarrow> length ps = RAND_ARRAY_SIZE"
    using d(3) by (cases ps) (auto simp: last_free_elem_count)
qed

lemma partial_path_last:
  assumes "partial_path ps arr"
  shows "ps \<noteq> []" "last ps < RAND_ARRAY_SIZE" "length arr = RAND_ARRAY_SIZE" "distinct ps" "set ps \<subseteq> {..<RAND_ARRAY_SIZE}"
  using assms last_in_set [of ps] unfolding partial_path_def by (blast, blast, blast, blast, blast)

lemma partial_path_snoc:
  assumes "partial_path ps arr" "r < RAND_ARRAY_SIZE" "r \<notin> set ps"
  shows "partial_path (ps @ [r]) (arr[last ps := int r])"
proof -
  note ps = partial_path_last [OF assms(1)]
  have "arr[last ps := int r] ! ((ps @ [r]) ! t) = int ((ps @ [r]) ! Suc t)" if t: "Suc t < length (ps @ [r])" for t
  proof (cases "Suc t < length ps")
    case True
    have "ps ! t \<noteq> last ps" using True ps by (simp add: last_conv_nth nth_eq_iff_index_eq)
    then show ?thesis using True assms(1) by (simp add: partial_path_def nth_append)
  next
    case False
    then have "t = length ps - 1" using t ps(1) by (cases ps) simp_all
    then show ?thesis using ps by (simp add: nth_append last_conv_nth)
  qed
  moreover have "arr[last ps := int r] ! x = INVALID_RAND" if "x < RAND_ARRAY_SIZE" "x \<notin> set ps" for x
  proof -
    have "x \<noteq> last ps" using that(2) ps(1) last_in_set by metis
    moreover have "x \<notin> set (butlast ps)" using that(2) in_set_butlastD by metis
    ultimately show ?thesis using that(1) assms(1) by (simp add: partial_path_def)
  qed
  ultimately show ?thesis using assms ps by (auto simp: partial_path_def)
qed

lemma partial_path_complete:
  assumes "partial_path ps arr" "length ps = RAND_ARRAY_SIZE"
  shows "array_path ps (arr[last ps := int RAND_ARRAY_SIZE])"
proof -
  note ps = partial_path_last [OF assms(1)]
  have "set ps = {..<RAND_ARRAY_SIZE}"
    using ps(4,5) assms(2) by (intro card_subset_eq) (simp_all add: distinct_card)
  moreover have "arr[last ps := int RAND_ARRAY_SIZE] ! (ps ! t) = int (ps ! Suc t)" if "Suc t < RAND_ARRAY_SIZE" for t
  proof -
    have "ps ! t \<noteq> last ps" using that assms(2) ps by (simp add: last_conv_nth nth_eq_iff_index_eq)
    then show ?thesis using that assms by (simp add: partial_path_def)
  qed
  ultimately show ?thesis using assms(1) ps by (simp add: array_path_def partial_path_def)
qed

text \<open>
  One number drawn: it is taken when it is free and not the end of the path, and
  changes nothing otherwise.
\<close>

lemma drawn_less: "drawn rnd k < RAND_ARRAY_SIZE"
  by (simp add: drawn_def RAND_ARRAY_SIZE_def)

lemma fill_loop_skip:
  assumes "partial_path ps arr" "length ps < RAND_ARRAY_SIZE" "drawn rnd k \<in> set ps"
  shows "fill_loop rnd arr (last ps) k = fill_loop rnd arr (last ps) (Suc k)"
proof (cases "drawn rnd k = last ps")
  case True
  then have "last ps \<notin> set (butlast ps)"
    using partial_path_last [OF assms(1)] by (metis append_butlast_last_id distinct_append disjoint_iff list.set_intros(1))
  then have "arr ! drawn rnd k = INVALID_RAND"
    using True partial_path_free [OF assms(1)] drawn_less by metis
  moreover have "\<not> last_free_elem arr" using partial_path_count [OF assms(1)] assms(2) by simp
  ultimately show ?thesis
    using True by (simp add: fill_loop.simps [of rnd arr "last ps" k] draw_free.simps [of rnd arr k])
next
  case False
  have "set ps = insert (last ps) (set (butlast ps))"
    using partial_path_last(1) [OF assms(1)] append_butlast_last_id [of ps] by (metis list.set(1,2) set_append Un_insert_right Un_empty_right)
  then have "drawn rnd k \<in> set (butlast ps)" using assms(3) False by blast
  then have "arr ! drawn rnd k \<noteq> INVALID_RAND" using partial_path_free [OF assms(1) drawn_less] by blast
  then have "draw_free rnd arr k = draw_free rnd arr (Suc k)" by (simp add: draw_free.simps [of rnd arr k])
  then show ?thesis by (subst (1 2) fill_loop.simps) (simp only:)
qed

lemma fill_loop_skips:
  assumes "partial_path ps arr" "length ps < RAND_ARRAY_SIZE" "\<forall>i<n. drawn rnd (k + i) \<in> set ps"
  shows "fill_loop rnd arr (last ps) k = fill_loop rnd arr (last ps) (k + n)"
  using assms(3)
proof (induction n)
  case (Suc n)
  then show ?case using fill_loop_skip [OF assms(1,2), of rnd "k + n"] by simp
qed simp

lemma fill_loop_take:
  assumes "partial_path ps arr" "drawn rnd k \<notin> set ps"
  defines "arr' \<equiv> arr[last ps := int (drawn rnd k)]"
  shows "fill_loop rnd arr (last ps) k =
    (if last_free_elem arr' then Some (arr'[drawn rnd k := int RAND_ARRAY_SIZE])
     else fill_loop rnd arr' (drawn rnd k) (Suc k))"
proof -
  note ps = partial_path_last [OF assms(1)]
  have "last ps \<notin> set (butlast ps)"
    using ps by (metis append_butlast_last_id distinct_append disjoint_iff list.set_intros(1))
  moreover have "drawn rnd k \<notin> set (butlast ps)" using assms(2) in_set_butlastD by metis
  ultimately have "arr ! drawn rnd k = INVALID_RAND" "arr ! last ps = INVALID_RAND"
    using partial_path_free [OF assms(1)] ps(2) drawn_less by metis+
  moreover have "last ps \<noteq> drawn rnd k" using assms(2) ps(1) last_in_set by metis
  ultimately show ?thesis
    unfolding arr'_def by (simp add: fill_loop.simps [of rnd arr "last ps" k] draw_free.simps [of rnd arr k])
qed

text \<open>Every remainder is drawn again and again.\<close>

definition fair :: "(nat \<Rightarrow> nat) \<Rightarrow> bool" where
  "fair rnd \<longleftrightarrow> (\<forall>k. \<forall>x<RAND_ARRAY_SIZE. \<exists>j\<ge>k. rnd j mod RAND_ARRAY_SIZE = x)"

lemma fill_loop_returns:
  assumes "fair rnd" "partial_path ps arr" "length ps < RAND_ARRAY_SIZE"
  shows "\<exists>arr' qs. fill_loop rnd arr (last ps) k = Some arr' \<and> array_path qs arr'"
  using assms(2,3)
proof (induction "RAND_ARRAY_SIZE - length ps" arbitrary: ps arr k rule: less_induct)
  case less
  have "\<exists>x<RAND_ARRAY_SIZE. x \<notin> set ps"
  proof (rule ccontr)
    assume "\<not> (\<exists>x<RAND_ARRAY_SIZE. x \<notin> set ps)"
    then have "{..<RAND_ARRAY_SIZE} \<subseteq> set ps" by auto
    then have "RAND_ARRAY_SIZE \<le> length ps" using card_mono [OF finite_set, of "{..<RAND_ARRAY_SIZE}" ps] card_length [of ps]
      by simp
    then show False using less.prems(2) by simp
  qed
  then obtain j where j: "k \<le> j" "drawn rnd j \<notin> set ps" using assms(1) by (auto simp: fair_def drawn_def)
  define n where "n = (LEAST n. drawn rnd (k + n) \<notin> set ps)"
  have "drawn rnd (k + (j - k)) \<notin> set ps" using j by simp
  then have n: "drawn rnd (k + n) \<notin> set ps" unfolding n_def by (rule LeastI)
  have "\<forall>i<n. drawn rnd (k + i) \<in> set ps" unfolding n_def using not_less_Least by blast
  note eq = fill_loop_skips [OF less.prems this] fill_loop_take [OF less.prems(1) n]
  let ?r = "drawn rnd (k + n)" and ?arr = "arr[last ps := int (drawn rnd (k + n))]"
  have p: "partial_path (ps @ [?r]) ?arr" by (rule partial_path_snoc [OF less.prems(1) drawn_less n])
  show ?case
  proof (cases "length (ps @ [?r]) = RAND_ARRAY_SIZE")
    case True
    then have "fill_loop rnd arr (last ps) k = Some (?arr[?r := int RAND_ARRAY_SIZE])"
      using eq partial_path_count(1) [OF p] by simp
    then show ?thesis using partial_path_complete [OF p True] by auto
  next
    case False
    then have "\<exists>arr' qs. fill_loop rnd ?arr (last (ps @ [?r])) (Suc (k + n)) = Some arr' \<and> array_path qs arr'"
      using less.prems(2) by (intro less.hyps [OF _ p]) auto
    then show ?thesis using eq partial_path_count(1) [OF p] False by simp
  qed
qed

lemma rand_array_init_returns:
  assumes "fair (rnd (if seed = 0 then now else seed))"
  shows "\<exists>arr qs. rand_array_init rnd now seed = Some (if seed = 0 then now else seed, arr) \<and> array_path qs arr"
proof -
  have "partial_path [0] (replicate RAND_ARRAY_SIZE INVALID_RAND)"
    using size_ge_2 by (simp add: partial_path_def)
  moreover have "length [0 :: nat] < RAND_ARRAY_SIZE" using size_ge_2 by simp
  ultimately obtain arr qs where
    "fill_loop (rnd (if seed = 0 then now else seed)) (replicate RAND_ARRAY_SIZE INVALID_RAND) (last [0]) 0 = Some arr"
    "array_path qs arr"
    using fill_loop_returns [OF assms] by blast
  then show ?thesis by (auto simp: rand_array_init_def)
qed

subsection \<open>The pointers form one ring\<close>

text \<open>The pointer stored in line \<open>m\<close> before the end is closed, and the lines of the buffer.\<close>

definition line_addr :: "int \<Rightarrow> nat \<Rightarrow> int" where
  "line_addr buf m = buf + int (LINE_SIZE * m)"

definition line_ptr :: "int list \<Rightarrow> int \<Rightarrow> nat \<Rightarrow> int" where
  "line_ptr arr buf m =
     line_addr buf (RAND_ARRAY_SIZE * (m div RAND_ARRAY_SIZE)) + arr ! (m mod RAND_ARRAY_SIZE) * int LINE_SIZE"

lemma line_addr_inj: "line_addr buf m = line_addr buf n \<longleftrightarrow> m = n"
  by (simp add: line_addr_def LINE_SIZE_def)

text \<open>What the loops leave: the next line, the line that ends the last block, and \<open>n\<close> lines filled by \<open>f\<close>.\<close>

definition filled :: "(nat \<Rightarrow> int) \<Rightarrow> int \<Rightarrow> nat \<Rightarrow> nat \<Rightarrow> memory \<Rightarrow> memory \<Rightarrow> bool" where
  "filled f buf b n mem mem' \<longleftrightarrow>
     (\<forall>m. b \<le> m \<and> m < b + n \<longrightarrow> mem' (line_addr buf m) = Some (f m)) \<and>
     (\<forall>a. (\<forall>m. b \<le> m \<and> m < b + n \<longrightarrow> a \<noteq> line_addr buf m) \<longrightarrow> mem' a = mem a)"

lemma filled_Suc:
  "filled f buf b n mem mem' \<Longrightarrow> filled f buf b (Suc n) mem (mem'(line_addr buf (b + n) \<mapsto> f (b + n)))"
  unfolding filled_def by (auto simp: line_addr_inj less_Suc_eq)

lemma filled_append:
  "filled f buf b n mem mem' \<Longrightarrow> filled f buf (b + n) k mem' mem'' \<Longrightarrow> filled f buf b (n + k) mem mem''"
  unfolding filled_def
proof (elim conjE, intro conjI allI impI)
  fix m
  assume 1: "\<forall>m. b \<le> m \<and> m < b + n \<longrightarrow> mem' (line_addr buf m) = Some (f m)"
    and 2: "\<forall>m. b + n \<le> m \<and> m < b + n + k \<longrightarrow> mem'' (line_addr buf m) = Some (f m)"
    and 3: "\<forall>a. (\<forall>m. b + n \<le> m \<and> m < b + n + k \<longrightarrow> a \<noteq> line_addr buf m) \<longrightarrow> mem'' a = mem' a"
    and m: "b \<le> m \<and> m < b + (n + k)"
  show "mem'' (line_addr buf m) = Some (f m)"
  proof (cases "m < b + n")
    case True
    then have "mem'' (line_addr buf m) = mem' (line_addr buf m)" by (intro 3 [rule_format]) (auto simp: line_addr_inj)
    then show ?thesis using 1 m True by simp
  qed (use 2 m in simp)
next
  fix a
  assume 1: "\<forall>a. (\<forall>m. b \<le> m \<and> m < b + n \<longrightarrow> a \<noteq> line_addr buf m) \<longrightarrow> mem' a = mem a"
    and 2: "\<forall>a. (\<forall>m. b + n \<le> m \<and> m < b + n + k \<longrightarrow> a \<noteq> line_addr buf m) \<longrightarrow> mem'' a = mem' a"
    and a: "\<forall>m. b \<le> m \<and> m < b + (n + k) \<longrightarrow> a \<noteq> line_addr buf m"
  have "mem'' a = mem' a" using a by (intro 2 [rule_format]) simp
  moreover have "mem' a = mem a" using a by (intro 1 [rule_format]) simp
  ultimately show "mem'' a = mem a" by simp
qed

lemma init_line_fold:
  assumes "\<forall>j<RAND_ARRAY_SIZE. arr ! j = int RAND_ARRAY_SIZE \<longleftrightarrow> j = e" "k \<le> RAND_ARRAY_SIZE"
  shows "\<exists>mem'. fold (init_line arr (line_addr buf (RAND_ARRAY_SIZE * i))) [0..<k] (line_addr buf (RAND_ARRAY_SIZE * i), l, mem) =
      (line_addr buf (RAND_ARRAY_SIZE * i + k), if e < k then Some (line_addr buf (RAND_ARRAY_SIZE * i + e)) else l, mem') \<and>
    filled (line_ptr arr buf) buf (RAND_ARRAY_SIZE * i) k mem mem'"
  using assms(2)
proof (induction k)
  case 0
  then show ?case by (auto simp: filled_def)
next
  case (Suc k)
  then obtain mem' where
    1: "fold (init_line arr (line_addr buf (RAND_ARRAY_SIZE * i))) [0..<k] (line_addr buf (RAND_ARRAY_SIZE * i), l, mem) =
      (line_addr buf (RAND_ARRAY_SIZE * i + k), if e < k then Some (line_addr buf (RAND_ARRAY_SIZE * i + e)) else l, mem')"
    and 2: "filled (line_ptr arr buf) buf (RAND_ARRAY_SIZE * i) k mem mem'" by auto
  have "(RAND_ARRAY_SIZE * i + k) div RAND_ARRAY_SIZE = i" "(RAND_ARRAY_SIZE * i + k) mod RAND_ARRAY_SIZE = k"
    using Suc.prems by simp_all
  then have "line_ptr arr buf (RAND_ARRAY_SIZE * i + k) = line_addr buf (RAND_ARRAY_SIZE * i) + arr ! k * int LINE_SIZE"
    by (simp add: line_ptr_def)
  moreover have "line_addr buf (RAND_ARRAY_SIZE * i + k) + int LINE_SIZE = line_addr buf (Suc (RAND_ARRAY_SIZE * i + k))"
    by (simp add: line_addr_def algebra_simps)
  moreover have "arr ! k = int RAND_ARRAY_SIZE \<longleftrightarrow> k = e" using assms(1) Suc.prems by simp
  ultimately have "fold (init_line arr (line_addr buf (RAND_ARRAY_SIZE * i))) [0..<Suc k] (line_addr buf (RAND_ARRAY_SIZE * i), l, mem) =
      (line_addr buf (RAND_ARRAY_SIZE * i + Suc k), if e < Suc k then Some (line_addr buf (RAND_ARRAY_SIZE * i + e)) else l,
       mem'(line_addr buf (RAND_ARRAY_SIZE * i + k) \<mapsto> line_ptr arr buf (RAND_ARRAY_SIZE * i + k)))"
    using 1 by (auto simp: init_line_def)
  then show ?case using filled_Suc [OF 2] by blast
qed

lemma init_blocks:
  assumes "\<forall>j<RAND_ARRAY_SIZE. arr ! j = int RAND_ARRAY_SIZE \<longleftrightarrow> j = e" "e < RAND_ARRAY_SIZE"
  shows "\<exists>mem'. fold (\<lambda>i. init_block arr) [0..<n] (buf, None, mem) =
      (line_addr buf (RAND_ARRAY_SIZE * n),
       if n = 0 then None else Some (line_addr buf (RAND_ARRAY_SIZE * (n - 1) + e)), mem') \<and>
    filled (line_ptr arr buf) buf 0 (RAND_ARRAY_SIZE * n) mem mem'"
proof (induction n)
  case 0
  then show ?case by (simp add: filled_def line_addr_def)
next
  case (Suc n)
  then obtain mem' l where 1: "fold (\<lambda>i. init_block arr) [0..<n] (buf, None, mem) = (line_addr buf (RAND_ARRAY_SIZE * n), l, mem')"
    and 2: "filled (line_ptr arr buf) buf 0 (RAND_ARRAY_SIZE * n) mem mem'" by blast
  obtain mem'' where
    3: "fold (init_line arr (line_addr buf (RAND_ARRAY_SIZE * n))) [0..<RAND_ARRAY_SIZE] (line_addr buf (RAND_ARRAY_SIZE * n), l, mem') =
      (line_addr buf (RAND_ARRAY_SIZE * n + RAND_ARRAY_SIZE),
       if e < RAND_ARRAY_SIZE then Some (line_addr buf (RAND_ARRAY_SIZE * n + e)) else l, mem'')"
    and 4: "filled (line_ptr arr buf) buf (RAND_ARRAY_SIZE * n) RAND_ARRAY_SIZE mem' mem''"
    using init_line_fold [OF assms(1) order_refl, of buf n l mem'] by blast
  have "filled (line_ptr arr buf) buf 0 (RAND_ARRAY_SIZE * n + RAND_ARRAY_SIZE) mem mem''"
    using filled_append [OF 2] 4 by simp
  moreover have "fold (\<lambda>i. init_block arr) [0..<Suc n] (buf, None, mem) =
      init_block arr (fold (\<lambda>i. init_block arr) [0..<n] (buf, None, mem))" by simp
  moreover have "init_block arr (line_addr buf (RAND_ARRAY_SIZE * n), l, mem') =
      (line_addr buf (RAND_ARRAY_SIZE * Suc n), Some (line_addr buf (RAND_ARRAY_SIZE * n + e)), mem'')"
    using 3 assms(2) by (simp add: init_block_def add.commute)
  ultimately show ?case by (simp only: 1) (simp add: add.commute)
qed

text \<open>The order in which the lines are visited.\<close>

definition ring_line :: "nat list \<Rightarrow> nat \<Rightarrow> nat" where
  "ring_line ps t = RAND_ARRAY_SIZE * (t div RAND_ARRAY_SIZE) + ps ! (t mod RAND_ARRAY_SIZE)"

lemma ring_line_bij:
  assumes "distinct ps" "set ps = {..<RAND_ARRAY_SIZE}"
  shows "bij_betw (ring_line ps) {..<RAND_ARRAY_SIZE * n} {..<RAND_ARRAY_SIZE * n}"
proof -
  have N: "0 < RAND_ARRAY_SIZE" using size_ge_2 by simp
  have len: "length ps = RAND_ARRAY_SIZE" using assms distinct_card by fastforce
  have less: "ps ! (t mod RAND_ARRAY_SIZE) < RAND_ARRAY_SIZE" for t
    using nth_mem [of "t mod RAND_ARRAY_SIZE" ps] assms(2) len N by auto
  have div: "ring_line ps t div RAND_ARRAY_SIZE = t div RAND_ARRAY_SIZE"
    "ring_line ps t mod RAND_ARRAY_SIZE = ps ! (t mod RAND_ARRAY_SIZE)" for t
    using less [of t] by (simp_all add: ring_line_def)
  have "inj (ring_line ps)"
  proof (rule injI)
    fix t u assume eq: "ring_line ps t = ring_line ps u"
    then have "t div RAND_ARRAY_SIZE = u div RAND_ARRAY_SIZE" "ps ! (t mod RAND_ARRAY_SIZE) = ps ! (u mod RAND_ARRAY_SIZE)"
      using div by metis+
    moreover then have "t mod RAND_ARRAY_SIZE = u mod RAND_ARRAY_SIZE"
      using assms(1) len N by (simp add: nth_eq_iff_index_eq)
    ultimately show "t = u" by (metis div_mult_mod_eq)
  qed
  moreover have "ring_line ps ` {..<RAND_ARRAY_SIZE * n} \<subseteq> {..<RAND_ARRAY_SIZE * n}"
  proof (clarsimp)
    fix t assume "t < RAND_ARRAY_SIZE * n"
    then have "ring_line ps t div RAND_ARRAY_SIZE < n" by (simp add: div(1) less_mult_imp_div_less mult.commute)
    then show "ring_line ps t < RAND_ARRAY_SIZE * n" using N by (simp add: div_less_iff_less_mult mult.commute)
  qed
  ultimately show ?thesis
    by (simp add: bij_betw_def inj_on_subset [OF _ subset_UNIV] endo_inj_surj)
qed

lemma array_path_facts:
  assumes "array_path ps arr"
  shows "length ps = RAND_ARRAY_SIZE" "ps ! 0 = 0" "ps ! (RAND_ARRAY_SIZE - 1) = last ps" "last ps < RAND_ARRAY_SIZE"
    "\<forall>j<RAND_ARRAY_SIZE. arr ! j = int RAND_ARRAY_SIZE \<longleftrightarrow> j = last ps"
proof -
  have a: "distinct ps" "set ps = {..<RAND_ARRAY_SIZE}" "hd ps = 0" using assms by (simp_all add: array_path_def)
  show len: "length ps = RAND_ARRAY_SIZE" using a(1,2) distinct_card by fastforce
  then have ne: "ps \<noteq> []" using size_ge_2 by auto
  show "ps ! 0 = 0" using a(3) hd_conv_nth [OF ne] by simp
  show l: "ps ! (RAND_ARRAY_SIZE - 1) = last ps" using last_conv_nth [OF ne] len by simp
  show "last ps < RAND_ARRAY_SIZE" using last_in_set [OF ne] a(2) by auto
  show "\<forall>j<RAND_ARRAY_SIZE. arr ! j = int RAND_ARRAY_SIZE \<longleftrightarrow> j = last ps"
  proof (intro allI impI iffI)
    fix j assume j: "j < RAND_ARRAY_SIZE" "arr ! j = int RAND_ARRAY_SIZE"
    then obtain i where i: "i < RAND_ARRAY_SIZE" "j = ps ! i" using a(2) len by (metis in_set_conv_nth lessThan_iff)
    show "j = last ps"
    proof (cases "Suc i < RAND_ARRAY_SIZE")
      case True
      then have "ps ! Suc i = RAND_ARRAY_SIZE" using assms i(2) j(2) by (simp add: array_path_def)
      moreover have "ps ! Suc i < RAND_ARRAY_SIZE" using nth_mem [of "Suc i" ps] a(2) len True by auto
      ultimately show ?thesis by simp
    next
      case False
      then have "i = RAND_ARRAY_SIZE - 1" using i(1) by simp
      then show ?thesis using l i(2) by metis
    qed
  qed (use assms in \<open>simp add: array_path_def\<close>)
qed

lemma ring_line_0: "array_path ps arr \<Longrightarrow> ring_line ps 0 = 0"
  by (simp add: ring_line_def array_path_facts)

lemma line_ptr_ring:
  assumes "array_path ps arr"
  shows "line_ptr arr buf (ring_line ps t) = line_addr buf (ring_line ps (Suc t))"
proof -
  have N: "0 < RAND_ARRAY_SIZE" using size_ge_2 by simp
  have "ps ! (t mod RAND_ARRAY_SIZE) < RAND_ARRAY_SIZE"
    using nth_mem [of "t mod RAND_ARRAY_SIZE" ps] array_path_facts(1) [OF assms] assms N by (auto simp: array_path_def)
  then have p: "line_ptr arr buf (ring_line ps t) =
      line_addr buf (RAND_ARRAY_SIZE * (t div RAND_ARRAY_SIZE)) + arr ! (ps ! (t mod RAND_ARRAY_SIZE)) * int LINE_SIZE"
    by (simp add: line_ptr_def ring_line_def)
  show ?thesis
  proof (cases "Suc (t mod RAND_ARRAY_SIZE) < RAND_ARRAY_SIZE")
    case True
    then have "arr ! (ps ! (t mod RAND_ARRAY_SIZE)) = int (ps ! Suc (t mod RAND_ARRAY_SIZE))"
      using assms by (simp add: array_path_def)
    moreover have "Suc t div RAND_ARRAY_SIZE = t div RAND_ARRAY_SIZE" "Suc t mod RAND_ARRAY_SIZE = Suc (t mod RAND_ARRAY_SIZE)"
      using True by (simp_all add: div_Suc mod_Suc)
    ultimately show ?thesis using p by (simp add: ring_line_def line_addr_def algebra_simps)
  next
    case False
    then have m: "Suc (t mod RAND_ARRAY_SIZE) = RAND_ARRAY_SIZE" using mod_less_divisor [OF N, of t] by simp
    then have "arr ! (ps ! (t mod RAND_ARRAY_SIZE)) = int RAND_ARRAY_SIZE"
      using array_path_facts(3,4,5) [OF assms] by (metis diff_Suc_1)
    moreover have "Suc t div RAND_ARRAY_SIZE = Suc (t div RAND_ARRAY_SIZE)" "Suc t mod RAND_ARRAY_SIZE = 0"
      using m by (simp_all add: div_Suc mod_Suc)
    ultimately show ?thesis using p array_path_facts(2) [OF assms] by (simp add: ring_line_def line_addr_def algebra_simps)
  qed
qed

lemma rand_buf_init_result:
  fixes mem :: memory and n :: nat and buf :: int
  assumes "array_path ps arr"
  defines "mem' \<equiv> rand_buf_init arr buf (Suc n * (RAND_ARRAY_SIZE * LINE_SIZE)) mem"
  shows "t < RAND_ARRAY_SIZE * Suc n \<Longrightarrow> mem' (line_addr buf (ring_line ps t)) =
      Some (line_addr buf (ring_line ps (Suc t mod (RAND_ARRAY_SIZE * Suc n))))"
    and "a \<notin> line_addr buf ` {..<RAND_ARRAY_SIZE * Suc n} \<Longrightarrow> mem' a = mem a"
proof -
  note facts = array_path_facts [OF assms(1)]
  have N: "0 < RAND_ARRAY_SIZE" using size_ge_2 by simp
  let ?L = "RAND_ARRAY_SIZE * Suc n" and ?e = "line_addr buf (RAND_ARRAY_SIZE * n + last ps)"
  have div: "Suc n * (RAND_ARRAY_SIZE * LINE_SIZE) div (RAND_ARRAY_SIZE * LINE_SIZE) = Suc n"
    using N by (intro nonzero_mult_div_cancel_right) (simp add: LINE_SIZE_def)
  obtain mem1 where
    1: "fold (\<lambda>i. init_block arr) [0..<Suc n] (buf, None, mem) = (line_addr buf (RAND_ARRAY_SIZE * Suc n),
       if Suc n = 0 then None else Some (line_addr buf (RAND_ARRAY_SIZE * (Suc n - 1) + last ps)), mem1)"
    and 2: "filled (line_ptr arr buf) buf 0 (RAND_ARRAY_SIZE * Suc n) mem mem1"
    using init_blocks [OF facts(5,4)] by blast
  have mem': "mem' = mem1(?e \<mapsto> buf)"
    unfolding mem'_def rand_buf_init_def by (simp only: div Let_def 1 prod.case) simp
  have "(?L - 1) div RAND_ARRAY_SIZE = n" "(?L - 1) mod RAND_ARRAY_SIZE = RAND_ARRAY_SIZE - 1"
  proof -
    have eq: "?L - 1 = RAND_ARRAY_SIZE * n + (RAND_ARRAY_SIZE - 1)" using N by simp
    have "RAND_ARRAY_SIZE - 1 < RAND_ARRAY_SIZE" using N by simp
    moreover have "(RAND_ARRAY_SIZE * n + r) div RAND_ARRAY_SIZE = n" "(RAND_ARRAY_SIZE * n + r) mod RAND_ARRAY_SIZE = r"
      if "r < RAND_ARRAY_SIZE" for r using that by simp_all
    ultimately show "(?L - 1) div RAND_ARRAY_SIZE = n" "(?L - 1) mod RAND_ARRAY_SIZE = RAND_ARRAY_SIZE - 1"
      by (simp_all only: eq)
  qed
  then have e: "?e = line_addr buf (ring_line ps (?L - 1))" using facts(3) by (simp only: ring_line_def)
  have bij: "bij_betw (ring_line ps) {..<?L} {..<?L}"
    using assms(1) by (intro ring_line_bij) (simp_all add: array_path_def)
  show "mem' (line_addr buf (ring_line ps t)) = Some (line_addr buf (ring_line ps (Suc t mod ?L)))" if t: "t < ?L"
  proof (cases "Suc t = ?L")
    case True
    then have "t = ?L - 1" by linarith
    moreover have "line_addr buf 0 = buf" by (simp add: line_addr_def)
    ultimately show ?thesis using ring_line_0 [OF assms(1)] True unfolding mem' e by (simp only: fun_upd_same mod_self)
  next
    case False
    then have "ring_line ps t \<noteq> ring_line ps (?L - 1)"
      using t N bij_betw_imp_inj_on [OF bij] by (auto simp: inj_on_eq_iff)
    moreover have "ring_line ps t < ?L" using t bij by (auto simp: bij_betw_def)
    moreover have "Suc t mod ?L = Suc t" using False t by (simp only: mod_less Suc_lessI)
    ultimately show ?thesis
      using 2 line_ptr_ring [OF assms(1), of buf t] unfolding mem' e filled_def by (simp add: line_addr_inj)
  qed
  show "mem' a = mem a" if "a \<notin> line_addr buf ` {..<?L}"
  proof -
    have "last ps + RAND_ARRAY_SIZE * n < ?L" using facts(4) by simp
    then have "a \<noteq> ?e" using that by (auto simp: add.commute)
    then show ?thesis using 2 that unfolding mem' filled_def by auto
  qed
qed

subsection \<open>Walking the ring\<close>

lemma chase_ring:
  assumes "array_path ps arr"
  shows "chase (rand_buf_init arr buf (Suc n * (RAND_ARRAY_SIZE * LINE_SIZE)) mem) k buf =
    Inr (line_addr buf (ring_line ps (k mod (RAND_ARRAY_SIZE * Suc n))))"
proof (induction k)
  case 0
  then show ?case by (simp add: ring_line_0 [OF assms] line_addr_def)
next
  case (Suc k)
  have "0 < RAND_ARRAY_SIZE * Suc n" using size_ge_2 by simp
  then have "k mod (RAND_ARRAY_SIZE * Suc n) < RAND_ARRAY_SIZE * Suc n" by (rule mod_less_divisor)
  then show ?case
    unfolding chase_snoc Suc by (simp only: bind_res_Inr load_ptr_def rand_buf_init_result(1) [OF assms] option.case mod_Suc_eq)
qed

text \<open>The lines of the buffer, and the addresses a walk from its start visits.\<close>

definition buf_lines :: nat where "buf_lines = MGEN_BUF_SIZE div LINE_SIZE"

definition walk :: "memory \<Rightarrow> int \<Rightarrow> nat \<Rightarrow> int res list" where
  "walk mem buf n = map (\<lambda>k. chase mem k buf) [0..<n]"

lemma buf_lines_eq:
  "buf_lines = RAND_ARRAY_SIZE * Suc 511" "MGEN_BUF_SIZE = Suc 511 * (RAND_ARRAY_SIZE * LINE_SIZE)"
  by (simp_all add: buf_lines_def MGEN_BUF_SIZE_def LINE_SIZE_def RAND_ARRAY_SIZE_def)

lemma walk_ring:
  assumes "array_path ps arr"
  defines "mem' \<equiv> (\<lambda>buf mem. rand_buf_init arr buf MGEN_BUF_SIZE mem)"
  shows "distinct (walk (mem' buf mem) buf buf_lines)"
    "set (walk (mem' buf mem) buf buf_lines) = Inr ` line_addr buf ` {..<buf_lines}"
    "chase (mem' buf mem) buf_lines buf = Inr buf"
    "chase (mem' buf mem) k buf \<in> Inr ` line_addr buf ` {..<buf_lines}"
    "a \<notin> line_addr buf ` {..<buf_lines} \<Longrightarrow> mem' buf mem a = mem a"
proof -
  have pos: "0 < buf_lines" using size_ge_2 by (simp add: buf_lines_eq(1))
  have chase: "chase (mem' buf mem) k buf = Inr (line_addr buf (ring_line ps (k mod buf_lines)))" for k
    unfolding mem'_def buf_lines_eq by (rule chase_ring [OF assms(1)])
  have bij: "bij_betw (ring_line ps) {..<buf_lines} {..<buf_lines}"
    unfolding buf_lines_eq(1) using assms(1) by (intro ring_line_bij) (simp_all add: array_path_def)
  have walk: "walk (mem' buf mem) buf buf_lines = map (\<lambda>k. Inr (line_addr buf (ring_line ps k))) [0..<buf_lines]"
    unfolding walk_def chase by simp
  show "distinct (walk (mem' buf mem) buf buf_lines)"
    using bij_betw_imp_inj_on [OF bij] unfolding walk by (auto simp: distinct_map inj_on_def line_addr_inj)
  have "set (walk (mem' buf mem) buf buf_lines) = (\<lambda>k. Inr (line_addr buf (ring_line ps k))) ` {..<buf_lines}"
    unfolding walk by (simp only: set_map set_upt atLeast0LessThan)
  also have "\<dots> = Inr ` line_addr buf ` ring_line ps ` {..<buf_lines}" by (simp only: image_image)
  also have "ring_line ps ` {..<buf_lines} = {..<buf_lines}" using bij by (simp only: bij_betw_def)
  finally show "set (walk (mem' buf mem) buf buf_lines) = Inr ` line_addr buf ` {..<buf_lines}" .
  show "chase (mem' buf mem) buf_lines buf = Inr buf"
    unfolding chase by (simp add: ring_line_0 [OF assms(1)]) (simp add: line_addr_def)
  show "chase (mem' buf mem) k buf \<in> Inr ` line_addr buf ` {..<buf_lines}"
  proof -
    have "ring_line ps (k mod buf_lines) \<in> {..<buf_lines}" using bij pos unfolding bij_betw_def by auto
    then show ?thesis unfolding chase by blast
  qed
  show "mem' buf mem a = mem a" if "a \<notin> line_addr buf ` {..<buf_lines}"
    using that unfolding mem'_def buf_lines_eq by (rule rand_buf_init_result(2) [OF assms(1)])
qed

text \<open>C16. Building the buffer of the latency measurement ends when \<open>rand\<close> produces every remainder again and
  again, and the pointers then form one ring: from the start of the buffer, 4194304 dependent loads visit every
  line exactly once and come back, no load ever leaves the buffer, and nothing outside it is written.\<close>

theorem chase_visits_every_line:
  assumes "fair (rnd (if seed = 0 then now else seed))"
  shows "\<exists>arr. rand_array_init rnd now seed = Some (if seed = 0 then now else seed, arr) \<and>
    (\<forall>buf mem. let mem' = rand_buf_init arr buf MGEN_BUF_SIZE mem in
       distinct (walk mem' buf buf_lines) \<and>
       set (walk mem' buf buf_lines) = Inr ` line_addr buf ` {..<buf_lines} \<and>
       chase mem' buf_lines buf = Inr buf \<and>
       (\<forall>n. buf_read mem' buf n \<in> Inr ` line_addr buf ` {..<buf_lines}) \<and>
       (\<forall>a. a \<in> line_addr buf ` {..<buf_lines} \<or> mem' a = mem a))"
proof -
  obtain arr qs where r: "rand_array_init rnd now seed = Some (if seed = 0 then now else seed, arr)" "array_path qs arr"
    using rand_array_init_returns [of rnd seed now] assms by blast
  show ?thesis
  proof (intro exI [of _ arr] conjI allI, rule r(1))
    fix buf mem
    have out: "a \<in> line_addr buf ` {..<buf_lines} \<or> rand_buf_init arr buf MGEN_BUF_SIZE mem a = mem a" for a
      using walk_ring(5) [OF r(2), of a buf mem] by metis
    show "let mem' = rand_buf_init arr buf MGEN_BUF_SIZE mem in
       distinct (walk mem' buf buf_lines) \<and>
       set (walk mem' buf buf_lines) = Inr ` line_addr buf ` {..<buf_lines} \<and>
       chase mem' buf_lines buf = Inr buf \<and>
       (\<forall>n. buf_read mem' buf n \<in> Inr ` line_addr buf ` {..<buf_lines}) \<and>
       (\<forall>a. a \<in> line_addr buf ` {..<buf_lines} \<or> mem' a = mem a)"
      unfolding Let_def buf_read_def read_loop_chase
      by (intro conjI allI walk_ring(1) [OF r(2)] walk_ring(2) [OF r(2)] walk_ring(3) [OF r(2)]
          walk_ring(4) [OF r(2)] out)
  qed
qed

lemma fair_counter: "fair (\<lambda>k. k)"
  unfolding fair_def
proof (intro allI impI)
  fix k x :: nat assume "x < RAND_ARRAY_SIZE"
  then have "k \<le> RAND_ARRAY_SIZE * k + x" "(RAND_ARRAY_SIZE * k + x) mod RAND_ARRAY_SIZE = x"
    by (simp_all add: trans_le_add1)
  then show "\<exists>j\<ge>k. j mod RAND_ARRAY_SIZE = x" by blast
qed

theorem chase_visits_every_line_witness:
  "\<exists>arr. rand_array_init (\<lambda>seed k. k) 1 0 = Some (1, arr) \<and>
     chase (rand_buf_init arr 4096 MGEN_BUF_SIZE Map.empty) buf_lines 4096 = Inr 4096 \<and>
     distinct (walk (rand_buf_init arr 4096 MGEN_BUF_SIZE Map.empty) 4096 buf_lines)"
  using chase_visits_every_line [of "\<lambda>seed k. k" 0 1, OF fair_counter] unfolding Let_def by auto

end
