(* ===== verification/MgenClock.thy ===== *)
theory MgenClock
  imports CLib MgenBuffer "HOL-Library.Signed_Division"
begin

section \<open>The clock of the latency measurement\<close>

text \<open>
  \<open>msdiff\<close>, the binding of the thread and the calibration of \<open>src/mgen.cpp\<close>: how
  many cycles of the time stamp counter there are in a second, taken from the name
  of the processor, from its highest frequency, or measured against the time of
  day. The environment holds what the system answers during one measurement; the
  clock and the counter are sequences of readings, so that waiting for the clock
  is a loop that need not end. The lemmas give the exact meaning of a time
  difference, what a processor name without a frequency does, and the result of
  every way to calibrate.
\<close>

subsection \<open>State and environment\<close>

record timeval =
  tv_sec :: int
  tv_usec :: int

text \<open>
  The static variables of the file, followed by the part of the process memory
  that it uses, the addresses of the buffers that are allocated and the pointers
  in them, and by the CPUs that the thread has been bound to.
\<close>

record mgen =
  s_nsofclk :: dbl
  s_clkofns :: dbl
  s_clkofsec :: u64
  s_rand_arr :: "int list"
  s_latest_avglat :: dbl
  s_tvbase :: timeval
  s_ncpus :: int
  s_buf :: "int option"
  s_randseed :: u32
  live_bufs :: "int set"
  buf_mem :: memory
  affinity :: "int set"

text \<open>
  \<open>e_beyond i\<close> is the text in memory after the terminator of the \<open>i\<close>-th line that
  \<open>getline\<close> delivers; \<open>e_bind\<close> is \<open>sched_setaffinity\<close> for a set of CPUs, \<open>e_signal\<close>
  tells whether a handler can be installed, \<open>e_alloc\<close> is \<open>numa_alloc_onnode\<close>.
\<close>

record mgen_env =
  e_file :: "string \<Rightarrow> string option"
  e_beyond :: "nat \<Rightarrow> string"
  e_nprocs :: int
  e_signal :: "int \<Rightarrow> bool"
  e_bind :: "int set \<Rightarrow> int"
  e_clock :: "nat \<Rightarrow> timeval"
  e_tsc :: "nat \<Rightarrow> u64"
  e_time :: u32
  e_rand :: "u32 \<Rightarrow> nat \<Rightarrow> nat"
  e_alloc :: "nat \<Rightarrow> int \<Rightarrow> int option"

subsection \<open>Time\<close>

definition MAX_VALUE :: int where "MAX_VALUE = 4294967295"
definition MHZ :: int where "MHZ = 1000000"
definition GHZ :: int where "GHZ = 1000000000"
definition KHZ :: u64 where "KHZ = 1000"
definition NS_SEC :: int where "NS_SEC = 1000000000"
definition NS_MS :: u64 where "NS_MS = 1000000"
definition MS_SEC :: int where "MS_SEC = 1000"
definition MICROSEC :: int where "MICROSEC = 1000000"

definition msdiff :: "timeval \<Rightarrow> timeval \<Rightarrow> u32" where
  "msdiff tva tvb =
     (let sdiff = tv_sec tva - tv_sec tvb; udiff = tv_usec tva - tv_usec tvb
      in if sdiff < 0 then 0
         else let (sdiff1, udiff1) = (if udiff < 0 then (sdiff - 1, udiff + MICROSEC) else (sdiff, udiff))
              in if sdiff1 < 0 then 0
                 else if MAX_VALUE div MS_SEC \<le> sdiff1 then word_of_int MAX_VALUE
                 else word_of_int (sdiff1 * MS_SEC + udiff1 sdiv MS_SEC))"

definition current_ms :: "timeval \<Rightarrow> timeval \<Rightarrow> u64" where
  "current_ms tvnow tvbase = ucast (msdiff tvnow tvbase)"

subsection \<open>Binding the thread\<close>

text \<open>A set of CPUs has 1024 bits; \<open>CPU_SET\<close> does nothing for a CPU outside it.\<close>

definition CPU_SET :: "int \<Rightarrow> int set \<Rightarrow> int set" where
  "CPU_SET cpu cs = (if 0 \<le> cpu \<and> cpu < 1024 then insert cpu cs else cs)"

definition sched_setaffinity :: "mgen_env \<Rightarrow> int set \<Rightarrow> mgen \<Rightarrow> int \<times> mgen" where
  "sched_setaffinity env cs m = (if e_bind env cs < 0 then (-1, m) else (0, m\<lparr>affinity := cs\<rparr>))"

definition processor_bind :: "mgen_env \<Rightarrow> int \<Rightarrow> mgen \<Rightarrow> int \<times> mgen" where
  "processor_bind env cpu m = sched_setaffinity env (CPU_SET cpu {}) m"

definition processor_unbind :: "mgen_env \<Rightarrow> mgen \<Rightarrow> int \<times> mgen" where
  "processor_unbind env m = sched_setaffinity env (fold CPU_SET [0..s_ncpus m - 1] {}) m"

lemma processor_bind_cases:
  "e_bind env (CPU_SET cpu {}) < 0 \<Longrightarrow> processor_bind env cpu m = (-1, m)"
  "0 \<le> e_bind env (CPU_SET cpu {}) \<Longrightarrow> processor_bind env cpu m = (0, m\<lparr>affinity := CPU_SET cpu {}\<rparr>)"
  by (simp_all add: processor_bind_def sched_setaffinity_def)

lemma fold_CPU_SET: "fold CPU_SET cpus cs = cs \<union> {c \<in> set cpus. 0 \<le> c \<and> c < 1024}"
  by (induction cpus arbitrary: cs) (auto simp: CPU_SET_def)

lemma processor_unbind_affinity:
  "snd (processor_unbind env m) =
     m\<lparr>affinity := if e_bind env {c. 0 \<le> c \<and> c < s_ncpus m \<and> c < 1024} < 0 then affinity m
        else {c. 0 \<le> c \<and> c < s_ncpus m \<and> c < 1024}\<rparr>"
proof -
  have "fold CPU_SET [0..s_ncpus m - 1] {} = {c. 0 \<le> c \<and> c < s_ncpus m \<and> c < 1024}"
    by (auto simp: fold_CPU_SET)
  then show ?thesis by (simp add: processor_unbind_def sched_setaffinity_def)
qed

subsection \<open>Calibration\<close>

text \<open>A double stored in a \<open>uint64_t\<close>; a value that does not fit is undefined behaviour.\<close>

definition dbl_to_u64 :: "dbl \<Rightarrow> u64 res" where
  "dbl_to_u64 x =
     (case x of
        Fin r \<Rightarrow> if -1 < r \<and> r < 18446744073709551616 then Inr (word_of_int (if r < 0 then 0 else \<lfloor>r\<rfloor>))
                 else Inl Out_Of_Range
      | _ \<Rightarrow> Inl Out_Of_Range)"

definition set_clock :: "u64 \<Rightarrow> mgen \<Rightarrow> mgen" where
  "set_clock clkofsec m =
     (let nsofclk = dbl_of_int NS_SEC / dbl_of_u64 clkofsec
      in m\<lparr>s_clkofsec := clkofsec, s_nsofclk := nsofclk, s_clkofns := Fin 1 / nsofclk\<rparr>)"

definition strcasecmp_eq :: "string \<Rightarrow> string \<Rightarrow> bool" where
  "strcasecmp_eq s t \<longleftrightarrow> map to_lower s = map to_lower t"

text \<open>\<open>line + strcspn(line, "@") + 1\<close>.\<close>

definition after_at :: "string \<Rightarrow> string \<Rightarrow> string" where
  "after_at line beyond =
     (let l = c_str line in if CHR ''@'' \<in> set l then tl (dropWhile (\<lambda>c. c \<noteq> CHR ''@'') l) else beyond)"

text \<open>\<open>sscanf(p, "%lf%10s", &freq, unit)\<close>: the number and the unit, as far as they are there.\<close>

definition scan_freq :: "string \<Rightarrow> (dbl \<times> string option) option" where
  "scan_freq p =
     (case scan_lf p of
        None \<Rightarrow> None
      | Some (freq, r) \<Rightarrow>
          (let w = take 10 (takeWhile (\<lambda>c. \<not> isspace c) (skip_space r))
           in Some (freq, if w = [] then None else Some w)))"

definition unit_freq :: "dbl \<Rightarrow> string \<Rightarrow> dbl" where
  "unit_freq freq u =
     (if strcasecmp_eq u ''GHz'' then freq * dbl_of_int GHZ
      else if strcasecmp_eq u ''Mhz'' then freq * dbl_of_int MHZ else freq)"

fun cpuinfo_loop :: "(nat \<Rightarrow> string) \<Rightarrow> nat \<Rightarrow> string list \<Rightarrow> dbl \<Rightarrow> dbl" where
  "cpuinfo_loop beyond i [] freq = freq"
| "cpuinfo_loop beyond i (line # ls) freq =
     (if take 10 (c_str line) \<noteq> ''model name'' then cpuinfo_loop beyond (Suc i) ls freq
      else case scan_freq (after_at line (beyond i)) of
             None \<Rightarrow> cpuinfo_loop beyond (Suc i) ls freq
           | Some (f, None) \<Rightarrow> cpuinfo_loop beyond (Suc i) ls f
           | Some (f, Some u) \<Rightarrow> unit_freq f u)"

text \<open>\<open>getline\<close> delivers whole lines.\<close>

definition getlines :: "string \<Rightarrow> string list" where
  "getlines s = fgets_loop (length s) s"

definition calibrate_cpuinfo :: "mgen_env \<Rightarrow> mgen \<Rightarrow> (int \<times> mgen) res" where
  "calibrate_cpuinfo env m =
     (case e_file env ''/proc/cpuinfo'' of
        None \<Rightarrow> Inr (-1, m)
      | Some s \<Rightarrow>
          (let freq = cpuinfo_loop (e_beyond env) 0 (getlines s) (Fin 0)
           in if freq = Fin 0 then Inr (-1, m)
              else bind_res (dbl_to_u64 freq) (\<lambda>clkofsec. Inr (0, set_clock clkofsec m))))"

definition CPU0_CPUFREQ_PATH :: string where
  "CPU0_CPUFREQ_PATH = ''/sys/devices/system/cpu/cpu0/cpufreq/cpuinfo_max_freq''"

definition calibrate_cpufreq :: "mgen_env \<Rightarrow> mgen \<Rightarrow> int \<times> mgen" where
  "calibrate_cpufreq env m =
     (case e_file env CPU0_CPUFREQ_PATH of
        None \<Rightarrow> (-1, m)
      | Some s \<Rightarrow>
          (let freq = (word_of_int (fst (strtol 10 (c_str (take 31 s)))) :: u64)
           in if s = [] \<or> freq = 0 then (-1, m) else (0, set_clock (freq * KHZ) m)))"

text \<open>Waiting for the clock; both give the time read last and the next reading.\<close>

partial_function (option) wait_change :: "(nat \<Rightarrow> u64) \<Rightarrow> u64 \<Rightarrow> nat \<Rightarrow> (u64 \<times> nat) option" where
  "wait_change ms end_ms k = (if ms k = end_ms then wait_change ms end_ms (Suc k) else Some (ms k, Suc k))"

partial_function (option) wait_until :: "(nat \<Rightarrow> u64) \<Rightarrow> u64 \<Rightarrow> nat \<Rightarrow> (u64 \<times> nat) option" where
  "wait_until ms limit k = (if ms k < limit then wait_until ms limit (Suc k) else Some (ms k, Suc k))"

text \<open>The number of readings of the counter that have been taken goes with the state.\<close>

definition calibrate_by_tsc :: "mgen_env \<Rightarrow> mgen \<Rightarrow> (nat \<times> mgen) res option" where
  "calibrate_by_tsc env m =
     (let (ret, m1) = processor_bind env 0 m; ms = (\<lambda>k. current_ms (e_clock env k) (s_tvbase m1))
      in if ret \<noteq> 0 then Some (Inr (0, m1)) else
         Option.bind (wait_change ms (ms 1) 2) (\<lambda>(start_ms, k).
         Option.bind (wait_until ms (start_ms + 100) k) (\<lambda>(end_ms, k').
           let diff_ms = end_ms - start_ms;
               nsofclk = dbl_of_u64 (diff_ms * NS_MS) / dbl_of_u64 (e_tsc env 1 - e_tsc env 0)
           in Some (bind_res (dbl_to_u64 (dbl_of_int NS_SEC / nsofclk)) (\<lambda>clkofsec.
                Inr (2, snd (processor_unbind env (m1\<lparr>s_nsofclk := nsofclk, s_clkofns := Fin 1 / nsofclk,
                  s_clkofsec := clkofsec\<rparr>))))))))"

definition calibrate :: "mgen_env \<Rightarrow> mgen \<Rightarrow> (nat \<times> mgen) res option" where
  "calibrate env m =
     (case calibrate_cpuinfo env m of
        Inl e \<Rightarrow> Some (Inl e)
      | Inr (ret, m1) \<Rightarrow>
          if ret = 0 then Some (Inr (0, m1))
          else (let (ret2, m2) = calibrate_cpufreq env m1
                in if ret2 = 0 then Some (Inr (0, m2)) else calibrate_by_tsc env m2))"

subsection \<open>Time differences\<close>

text \<open>The time between two readings in whole milliseconds, none when it is negative, and capped.\<close>

definition usecs :: "timeval \<Rightarrow> int" where
  "usecs t = tv_sec t * 1000000 + tv_usec t"

definition elapsed_ms :: "timeval \<Rightarrow> timeval \<Rightarrow> int" where
  "elapsed_ms a b =
     (let d = (usecs a - usecs b) div 1000
      in if d < 0 then 0 else if 4294967000 \<le> d then 4294967295 else d)"

definition proper :: "timeval \<Rightarrow> bool" where
  "proper t \<longleftrightarrow> 0 \<le> tv_usec t \<and> tv_usec t < 1000000"

lemma div_ms: "(s * 1000000 + u) div 1000 = s * 1000 + u div (1000 :: int)"
proof -
  have "s * 1000000 + u = u + s * 1000 * 1000" by simp
  then show ?thesis by (simp only: div_mult_self1)
qed

lemma ms_borrow:
  fixes s q :: int
  assumes "- 1000 \<le> q" "q \<le> -1"
  shows "(if s < 0 then 0 else if s - 1 < 0 then 0 else if 4294967 \<le> s - 1 then 4294967295 else (s - 1) * 1000 + (q + 1000)) =
    (if s * 1000 + q < 0 then 0 else if 4294967000 \<le> s * 1000 + q then 4294967295 else s * 1000 + q)"
  using assms by (auto split: if_split)

lemma ms_plain:
  fixes s q :: int
  assumes "0 \<le> q" "q \<le> 999"
  shows "(if s < 0 then 0 else if 4294967 \<le> s then 4294967295 else s * 1000 + q) =
    (if s * 1000 + q < 0 then 0 else if 4294967000 \<le> s * 1000 + q then 4294967295 else s * 1000 + q)"
  using assms by (auto split: if_split)

text \<open>C29. \<open>msdiff\<close> is the exact difference of two times in milliseconds, rounded down: 0 when the first is the
  earlier one, and the largest value from 4294967 seconds on.\<close>

theorem msdiff_is_elapsed_time:
  assumes "proper a" "proper b"
  shows "msdiff a b = word_of_int (elapsed_ms a b)"
proof -
  define s u where "s = tv_sec a - tv_sec b" and "u = tv_usec a - tv_usec b"
  have u: "- 1000000 < u" "u < 1000000" using assms by (simp_all add: u_def proper_def)
  have e: "(usecs a - usecs b) div 1000 = s * 1000 + u div 1000"
    using div_ms [of s u] by (simp add: usecs_def s_def u_def algebra_simps)
  have m: "msdiff a b = (if s < 0 then 0
      else let (s1, u1) = (if u < 0 then (s - 1, u + 1000000) else (s, u))
           in if s1 < 0 then 0 else if 4294967 \<le> s1 then word_of_int 4294967295 else word_of_int (s1 * 1000 + u1 sdiv 1000))"
    by (simp add: msdiff_def s_def u_def MAX_VALUE_def MS_SEC_def MICROSEC_def Let_def)
  show ?thesis
  proof (cases "u < 0")
    case True
    have q: "(u + 1000000) sdiv 1000 = u div 1000 + 1000" using u by (simp add: signed_divide_int_def sgn_if)
    have "msdiff a b = word_of_int (if s < 0 then 0 else if s - 1 < 0 then 0 else if 4294967 \<le> s - 1 then 4294967295
        else (s - 1) * 1000 + (u div 1000 + 1000))"
      unfolding m using True by (simp only: q if_True Let_def prod.case split: if_split) simp
    moreover have "- 1000 \<le> u div 1000" "u div 1000 \<le> -1" using u True by linarith+
    ultimately show ?thesis unfolding elapsed_ms_def e Let_def by (simp only: ms_borrow)
  next
    case False
    then have q: "u sdiv 1000 = u div 1000" by (simp add: signed_divide_int_def sgn_if)
    have "msdiff a b = word_of_int (if s < 0 then 0 else if 4294967 \<le> s then 4294967295 else s * 1000 + u div 1000)"
      unfolding m using False by (simp only: q if_False Let_def prod.case split: if_split) simp
    moreover have "0 \<le> u div 1000" "u div 1000 \<le> 999" using u False by linarith+
    ultimately show ?thesis unfolding elapsed_ms_def e Let_def by (simp only: ms_plain)
  qed
qed

theorem msdiff_is_elapsed_time_witness:
  "msdiff \<lparr>tv_sec = 12, tv_usec = 300\<rparr> \<lparr>tv_sec = 10, tv_usec = 999999\<rparr> = 1000 \<and>
   msdiff \<lparr>tv_sec = 12, tv_usec = 300\<rparr> \<lparr>tv_sec = 13, tv_usec = 0\<rparr> = 0"
  using msdiff_is_elapsed_time [of "\<lparr>tv_sec = 12, tv_usec = 300\<rparr>" "\<lparr>tv_sec = 10, tv_usec = 999999\<rparr>"]
    msdiff_is_elapsed_time [of "\<lparr>tv_sec = 12, tv_usec = 300\<rparr>" "\<lparr>tv_sec = 13, tv_usec = 0\<rparr>"]
  by (simp add: proper_def elapsed_ms_def usecs_def)

subsection \<open>The processor name\<close>

lemma getlines_lines:
  assumes "\<forall>l\<in>set ls. newline \<notin> set l"
  shows "getlines (concat (map (\<lambda>l. l @ [newline]) ls)) = map (\<lambda>l. l @ [newline]) ls"
proof -
  have "length l < length (concat (map (\<lambda>l. l @ [newline]) ls))" if "l \<in> set ls" for l
    using that by (induction ls) auto
  then show ?thesis unfolding getlines_def using assms by (intro fgets_loop_lines) auto
qed

lemma cpuinfo_skip:
  "\<forall>l\<in>set ls. take 10 (c_str l) \<noteq> ''model name'' \<Longrightarrow>
   cpuinfo_loop beyond i (ls @ rs) f = cpuinfo_loop beyond (i + length ls) rs f"
  by (induction ls arbitrary: i) auto

lemma cpuinfo_no_frequency:
  assumes "\<forall>l\<in>set ls. take 10 (c_str l) = ''model name'' \<longrightarrow> CHR ''@'' \<notin> set (c_str l)" "\<forall>i. scan_freq (beyond i) = None"
  shows "cpuinfo_loop beyond i ls f = f"
  using assms(1) by (induction ls arbitrary: i) (auto simp: after_at_def Let_def assms(2))

text \<open>C38. The name of a processor without a frequency, as AMD's are, sends the parser past the end of the line: the
  clock then depends on what happens to be in memory behind it. With no \<open>@\<close> on any line for a model name of
  \<open>/proc/cpuinfo\<close>, the calibration by name fails, as it should, when no number is found there; when a number and a
  word are found behind the first of these lines, they are taken for the frequency of the processor.\<close>

theorem model_name_without_frequency:
  assumes "e_file env ''/proc/cpuinfo'' = Some (concat (map (\<lambda>l. l @ [newline]) ls))"
    "ls = pre @ (''model name'' @ x) # post" "\<forall>l\<in>set pre. take 10 l \<noteq> ''model name''"
    "\<forall>l\<in>set ls. newline \<notin> set l \<and> NUL \<notin> set l \<and> (take 10 l = ''model name'' \<longrightarrow> CHR ''@'' \<notin> set l)"
  shows "((\<forall>i. scan_freq (e_beyond env i) = None) \<longrightarrow> calibrate_cpuinfo env m = Inr (-1, m)) \<and>
    (\<forall>f u clk. scan_freq (e_beyond env (length pre)) = Some (f, Some u) \<longrightarrow> unit_freq f u \<noteq> Fin 0 \<longrightarrow>
       dbl_to_u64 (unit_freq f u) = Inr clk \<longrightarrow> calibrate_cpuinfo env m = Inr (0, set_clock clk m))"
proof -
  have lines: "getlines (concat (map (\<lambda>l. l @ [newline]) ls)) = map (\<lambda>l. l @ [newline]) ls"
    by (rule getlines_lines) (use assms(4) in blast)
  have c: "c_str (l @ [newline]) = l @ [newline]" if "l \<in> set ls" for l
    by (rule c_str_id) (use that assms(4) in auto)
  have t: "take 10 (l @ [newline]) = ''model name'' \<longleftrightarrow> take 10 l = ''model name''" for l :: string
  proof (cases "10 \<le> length l")
    case False
    have "newline \<notin> set ''model name''" by simp
    moreover obtain k where "10 - length l = Suc k" using False by (cases "10 - length l") auto
    then have "newline \<in> set (take 10 (l @ [newline]))" by simp
    moreover have "take 10 l \<noteq> ''model name''" using False by auto
    ultimately show ?thesis by metis
  qed simp
  have none: "cpuinfo_loop (e_beyond env) 0 (getlines (concat (map (\<lambda>l. l @ [newline]) ls))) (Fin 0) = Fin 0"
    if "\<forall>i. scan_freq (e_beyond env i) = None"
    unfolding lines by (rule cpuinfo_no_frequency [OF _ that]) (use assms(4) in \<open>auto simp: c t simp del: take_append\<close>)
  have found: "cpuinfo_loop (e_beyond env) 0 (getlines (concat (map (\<lambda>l. l @ [newline]) ls))) (Fin 0) = unit_freq f u"
    if "scan_freq (e_beyond env (length pre)) = Some (f, Some u)" for f u
  proof -
    let ?pre = "map (\<lambda>l. l @ [newline]) pre" and ?l = "(''model name'' @ x) @ [newline]"
    have "\<forall>l\<in>set ?pre. take 10 (c_str l) \<noteq> ''model name''" using assms(2,3) by (auto simp: c t simp del: take_append)
    then have "cpuinfo_loop (e_beyond env) 0 (map (\<lambda>l. l @ [newline]) ls) (Fin 0) =
        cpuinfo_loop (e_beyond env) (0 + length ?pre) (?l # map (\<lambda>l. l @ [newline]) post) (Fin 0)"
      unfolding assms(2) map_append list.map(2) by (rule cpuinfo_skip)
    moreover have l: "''model name'' @ x \<in> set ls" by (simp add: assms(2))
    moreover have "c_str ?l = ?l" by (rule c [OF l])
    moreover have "CHR ''@'' \<notin> set (''model name'' @ x)" using assms(4) l by auto
    then have "CHR ''@'' \<notin> set ?l" by simp
    ultimately show ?thesis unfolding lines using that by (simp add: after_at_def)
  qed
  show ?thesis using none found assms(1) by (simp add: calibrate_cpuinfo_def Let_def)
qed

definition ex_cpu_env :: mgen_env where
  "ex_cpu_env = \<lparr>e_file = [''/proc/cpuinfo'' \<mapsto> ''model name'' @ '': AMD EPYC 7551'' @ [newline]],
     e_beyond = (\<lambda>i. []), e_nprocs = 8, e_signal = (\<lambda>s. True), e_bind = (\<lambda>cs. 0),
     e_clock = (\<lambda>k. \<lparr>tv_sec = int k, tv_usec = 0\<rparr>), e_tsc = of_nat, e_time = 1,
     e_rand = (\<lambda>s k. k), e_alloc = (\<lambda>n i. None)\<rparr>"

definition ex_mgen :: mgen where
  "ex_mgen = \<lparr>s_nsofclk = Fin 0, s_clkofns = Fin 0, s_clkofsec = 0, s_rand_arr = [], s_latest_avglat = Fin 0,
     s_tvbase = \<lparr>tv_sec = 0, tv_usec = 0\<rparr>, s_ncpus = 0, s_buf = None, s_randseed = 0, live_bufs = {}, buf_mem = Map.empty,
     affinity = {0..7}\<rparr>"

definition ex_cpuinfo :: "string list" where
  "ex_cpuinfo = [''processor : 0'', ''vendor_id : AuthenticAMD'', ''model name : AMD EPYC 7551 32-Core Processor'', ''cpu MHz : 2000.000'', []]"

theorem model_name_without_frequency_witness:
  "calibrate_cpuinfo (ex_cpu_env\<lparr>e_file := [''/proc/cpuinfo'' \<mapsto> concat (map (\<lambda>l. l @ [newline]) ex_cpuinfo)]\<rparr>) ex_mgen = Inr (-1, ex_mgen) \<and>
   calibrate_cpuinfo (ex_cpu_env\<lparr>e_file := [''/proc/cpuinfo'' \<mapsto> concat (map (\<lambda>l. l @ [newline]) ex_cpuinfo)],
     e_beyond := \<lambda>i. ''2GHz''\<rparr>) ex_mgen = Inr (0, set_clock 2000000000 ex_mgen)"
proof -
  have s: "ex_cpuinfo = [''processor : 0'', ''vendor_id : AuthenticAMD''] @
      (''model name'' @ '' : AMD EPYC 7551 32-Core Processor'') # [''cpu MHz : 2000.000'', []]"
    "\<forall>l\<in>set [''processor : 0'', ''vendor_id : AuthenticAMD'']. take 10 l \<noteq> ''model name''"
    "\<forall>l\<in>set ex_cpuinfo. newline \<notin> set l \<and> NUL \<notin> set l \<and> (take 10 l = ''model name'' \<longrightarrow> CHR ''@'' \<notin> set l)"
    by (simp_all add: ex_cpuinfo_def)
  have none: "scan_freq [] = None"
    by (simp add: scan_freq_def scan_lf_def skip_space_def scan_sign_def span_digits_def char_at_def scan_special_def)
  have "scan_lf ''2GHz'' = Some (Fin 2, ''GHz'')"
    by (simp add: scan_lf_def skip_space_def scan_sign_def span_digits_def char_at_def isspace_def is_dec_digit_def
        scan_exponent_def digits_value_def digit_val_def)
  then have two: "scan_freq ''2GHz'' = Some (Fin 2, Some ''GHz'')"
    by (simp add: scan_freq_def skip_space_def isspace_def)
  have unit: "unit_freq (Fin 2) ''GHz'' = Fin 2000000000"
    by (simp add: unit_freq_def strcasecmp_eq_def GHZ_def dbl_of_int_def dbl_op_defs)
  have fl: "e_file (ex_cpu_env\<lparr>e_file := [''/proc/cpuinfo'' \<mapsto> t], e_beyond := b\<rparr>) ''/proc/cpuinfo'' = Some t" for t b
    by simp
  note w = model_name_without_frequency [OF fl s, of _ ex_mgen]
  have "e_beyond ex_cpu_env = (\<lambda>i. [])" by (simp add: ex_cpu_env_def)
  then have e: "ex_cpu_env\<lparr>e_file := f, e_beyond := \<lambda>i. []\<rparr> = ex_cpu_env\<lparr>e_file := f\<rparr>" for f by (cases ex_cpu_env) simp
  have "calibrate_cpuinfo (ex_cpu_env\<lparr>e_file := [''/proc/cpuinfo'' \<mapsto> concat (map (\<lambda>l. l @ [newline]) ex_cpuinfo)],
      e_beyond := \<lambda>i. []\<rparr>) ex_mgen = Inr (-1, ex_mgen)"
    using w [of "\<lambda>i. []"] none by simp
  moreover have "calibrate_cpuinfo (ex_cpu_env\<lparr>e_file := [''/proc/cpuinfo'' \<mapsto> concat (map (\<lambda>l. l @ [newline]) ex_cpuinfo)],
      e_beyond := \<lambda>i. ''2GHz''\<rparr>) ex_mgen = Inr (0, set_clock 2000000000 ex_mgen)"
    using w [of "\<lambda>i. ''2GHz''"] two unit by (simp add: dbl_to_u64_def)
  ultimately show ?thesis by (simp only: e)
qed

subsection \<open>The other ways to calibrate\<close>

lemma calibrate_cpufreq_reads:
  assumes "e_file env CPU0_CPUFREQ_PATH = Some (show_nat n @ [newline])" "0 < n" "n < 10 ^ 18"
  shows "calibrate_cpufreq env m = (0, set_clock (of_nat n * KHZ) m)"
proof -
  have "length (show_nat n @ [newline]) \<le> 31" using show_nat_length [of n 17] assms(3) by simp
  then have "c_str (take 31 (show_nat n @ [newline])) = show_nat n @ [newline]"
    by (simp add: c_str_id show_nat_clean)
  moreover have "strtol 10 (show_nat n @ [newline]) = (int n, [newline])"
    by (rule strtol_show_nat) (use assms(3) in \<open>simp_all add: char_at_def digit_val_def\<close>)
  moreover have "(of_nat n :: u64) \<noteq> 0" using assms(2,3) by (simp add: word_of_nat_eq_0_iff) (auto dest: nat_dvd_not_less)
  ultimately show ?thesis using assms(1) by (simp add: calibrate_cpufreq_def Let_def del: of_nat_0_eq_iff)
qed

lemma calibrate_by_tsc_keeps:
  assumes "calibrate_by_tsc env m = Some (Inr (k, m'))"
  shows "\<exists>a b c cs. m' = m\<lparr>s_nsofclk := a, s_clkofns := b, s_clkofsec := c, affinity := cs\<rparr>"
proof (cases "e_bind env (CPU_SET 0 {}) < 0")
  case True
  then have "m' = m" using assms by (simp add: calibrate_by_tsc_def processor_bind_cases)
  then show ?thesis
    by (intro exI [of _ "s_nsofclk m"] exI [of _ "s_clkofns m"] exI [of _ "s_clkofsec m"] exI [of _ "affinity m"]) simp
next
  case False
  then show ?thesis using assms
    by (auto simp: calibrate_by_tsc_def processor_bind_cases not_less Let_def res_simps bind_eq_Some_conv
        processor_unbind_affinity)
qed

lemma calibrate_keeps:
  assumes "calibrate env m = Some (Inr (k, m'))"
  shows "\<exists>a b c cs. m' = m\<lparr>s_nsofclk := a, s_clkofns := b, s_clkofsec := c, affinity := cs\<rparr>"
proof -
  have set: "\<exists>a b c cs. set_clock f m = m\<lparr>s_nsofclk := a, s_clkofns := b, s_clkofsec := c, affinity := cs\<rparr>" for f
    by (simp add: set_clock_def Let_def) (intro exI, rule mgen.equality, simp_all)
  have id: "\<exists>a b c cs. m = m\<lparr>s_nsofclk := a, s_clkofns := b, s_clkofsec := c, affinity := cs\<rparr>"
    by (intro exI [of _ "s_nsofclk m"] exI [of _ "s_clkofns m"] exI [of _ "s_clkofsec m"] exI [of _ "affinity m"]) simp
  obtain ret m1 where 1: "calibrate_cpuinfo env m = Inr (ret, m1)"
    using assms by (auto simp: calibrate_def split: sum.splits)
  show ?thesis
  proof (cases "ret = 0")
    case True
    then show ?thesis using assms 1 set id
      by (auto simp: calibrate_def calibrate_cpuinfo_def Let_def res_simps split: option.splits if_splits)
  next
    case False
    then have m1: "m1 = m" using 1 by (auto simp: calibrate_cpuinfo_def Let_def res_simps split: option.splits if_splits)
    obtain ret2 m2 where 2: "calibrate_cpufreq env m = (ret2, m2)" by (cases "calibrate_cpufreq env m")
    show ?thesis
    proof (cases "ret2 = 0")
      case True
      then show ?thesis using assms 1 2 False set by (auto simp: calibrate_def m1 calibrate_cpufreq_def Let_def split: option.splits if_splits)
    next
      case f2: False
      then have "m2 = m" using 2 by (auto simp: calibrate_cpufreq_def Let_def split: option.splits if_splits)
      then have "calibrate_by_tsc env m = Some (Inr (k, m'))" using assms 1 2 False f2 by (simp add: calibrate_def m1)
      then show ?thesis by (rule calibrate_by_tsc_keeps)
    qed
  qed
qed

text \<open>Both waits return at the first reading they wait for.\<close>

interpretation change: waiting_loop "\<lambda>k. ms k \<noteq> v" "\<lambda>k. (ms k, Suc k)" "wait_change ms v" for ms v
  by unfold_locales (subst wait_change.simps, simp)

interpretation until: waiting_loop "\<lambda>k. limit \<le> ms k" "\<lambda>k. (ms k, Suc k)" "wait_until ms limit" for ms limit
  by unfold_locales (subst wait_until.simps, auto)

text \<open>
  A clock that changes and goes on to any later time lets the calibration by the
  counter end: it starts at the first change and ends at the first reading a
  tenth of a second later.
\<close>

lemma calibrate_by_tsc_returns:
  fixes env :: mgen_env and m :: mgen
  defines "ms \<equiv> (\<lambda>k. current_ms (e_clock env k) (s_tvbase m))"
  assumes "0 \<le> e_bind env {0}" "2 \<le> j" "ms j \<noteq> ms 1" "\<And>a. \<exists>b>a. ms a + 100 \<le> ms b"
  shows "\<exists>a b. 2 \<le> a \<and> a < b \<and> (\<forall>i. 2 \<le> i \<and> i < a \<longrightarrow> ms i = ms 1) \<and> ms a \<noteq> ms 1 \<and>
    (\<forall>i. a < i \<and> i < b \<longrightarrow> ms i < ms a + 100) \<and> ms a + 100 \<le> ms b \<and>
    calibrate_by_tsc env m =
      (let nsofclk = dbl_of_u64 ((ms b - ms a) * 1000000) / dbl_of_u64 (e_tsc env 1 - e_tsc env 0)
       in Some (bind_res (dbl_to_u64 (Fin 1000000000 / nsofclk)) (\<lambda>clkofsec.
            Inr (2, snd (processor_unbind env (m\<lparr>affinity := {0}, s_nsofclk := nsofclk,
              s_clkofns := Fin 1 / nsofclk, s_clkofsec := clkofsec\<rparr>))))))"
proof -
  have ms: "current_ms (e_clock env k) (s_tvbase m) = ms k" for k by (simp add: ms_def)
  obtain a where a: "2 \<le> a" "\<forall>i. 2 \<le> i \<and> i < a \<longrightarrow> ms i = ms 1" "ms a \<noteq> ms 1"
    "wait_change ms (ms 1) 2 = Some (ms a, Suc a)"
    using change.returns_first [of ms j "ms 1" 2] assms(3,4) by auto
  obtain j' where "Suc a \<le> j'" "ms a + 100 \<le> ms j'" using assms(5) [of a] by (auto simp: Suc_le_eq)
  then obtain b where b: "Suc a \<le> b" "\<forall>i. Suc a \<le> i \<and> i < b \<longrightarrow> ms i < ms a + 100" "ms a + 100 \<le> ms b"
    "wait_until ms (ms a + 100) (Suc a) = Some (ms b, Suc b)"
    using until.returns_first [of "ms a + 100" ms j' "Suc a"] by (auto simp: not_le)
  have "calibrate_by_tsc env m =
      (let nsofclk = dbl_of_u64 ((ms b - ms a) * 1000000) / dbl_of_u64 (e_tsc env 1 - e_tsc env 0)
       in Some (bind_res (dbl_to_u64 (Fin 1000000000 / nsofclk)) (\<lambda>clkofsec.
            Inr (2, snd (processor_unbind env (m\<lparr>affinity := {0}, s_nsofclk := nsofclk,
              s_clkofns := Fin 1 / nsofclk, s_clkofsec := clkofsec\<rparr>))))))"
    using assms(2) a(4) b(4)
    by (simp add: calibrate_by_tsc_def processor_bind_cases CPU_SET_def Let_def NS_SEC_def NS_MS_def
        dbl_of_int_small ms)
  then show ?thesis using a b(1,2,3) by (intro exI [of _ a] exI [of _ b]) (auto simp: Suc_le_eq)
qed

end
