(* ===== verification/Mgen.thy ===== *)
theory Mgen
  imports MgenClock NumaInfo
begin

section \<open>Measuring a latency\<close>

text \<open>
  \<open>buf_create\<close>, \<open>buf_release\<close>, \<open>dependent_read\<close>, \<open>get_numa_latency\<close> and the signal
  handler of \<open>src/mgen.cpp\<close>. A buffer on one node is walked by a thread on a CPU
  of another until the time stamp counter has advanced by a second, and the time
  per load is the latency. What does not end is \<open>None\<close>: the random array without
  a fair \<open>rand\<close>, the wait for a clock that stands still, a counter that never
  advances far enough. The lemmas show that a measurement ends and what it
  returns, and what a failed one leaves for the code that uses it.
\<close>

definition READ_NUM :: nat where "READ_NUM = 10240000"
definition MEAS_TIME_DEFAULT :: u64 where "MEAS_TIME_DEFAULT = 1"

subsection \<open>The buffer\<close>

text \<open>The result of \<open>buf_create\<close> is \<open>None\<close> inside when the allocation fails.\<close>

definition buf_create :: "mgen_env \<Rightarrow> int \<Rightarrow> mgen \<Rightarrow> (int option \<times> mgen) option" where
  "buf_create env node_alloc m =
     (case e_alloc env MGEN_BUF_SIZE node_alloc of
        None \<Rightarrow> Some (None, m)
      | Some buf \<Rightarrow>
          map_option (\<lambda>(seed, arr). (Some buf,
              m\<lparr>s_randseed := seed, s_rand_arr := arr, live_bufs := insert buf (live_bufs m),
                buf_mem := rand_buf_init arr buf MGEN_BUF_SIZE (buf_mem m)\<rparr>))
            (rand_array_init (e_rand env) (e_time env) (s_randseed m)))"

definition buf_release :: "int \<Rightarrow> mgen \<Rightarrow> mgen res" where
  "buf_release buf m =
     (if buf \<in> live_bufs m then Inr (m\<lparr>live_bufs := live_bufs m - {buf}\<rparr>) else Inl Bad_Free)"

definition release_buf :: "mgen \<Rightarrow> mgen res" where
  "release_buf m = (case s_buf m of None \<Rightarrow> Inr m | Some buf \<Rightarrow> buf_release buf m)"

text \<open>The handler of the signals prints, frees the buffer and ends the program.\<close>

definition sigint_handler :: "mgen \<Rightarrow> mgen res" where
  "sigint_handler m = bind_res (release_buf m) (\<lambda>m'. Inl (Exit 0))"

subsection \<open>The measurement\<close>

text \<open>
  The loop of \<open>dependent_read\<close>: \<open>k\<close> is the next reading of the counter. The result
  is the cycles, the loads, and the state.
\<close>

partial_function (option) read_rounds ::
  "mgen_env \<Rightarrow> int \<Rightarrow> u64 \<Rightarrow> u64 \<Rightarrow> nat \<Rightarrow> u64 \<Rightarrow> u64 \<Rightarrow> u64 \<Rightarrow> u64 \<Rightarrow> mgen \<Rightarrow> (u64 \<times> u64 \<times> mgen) res option" where
  "read_rounds env buf run_cyc start_tsc k end_tsc prev_tsc dur_count total_count m =
     (let total_cyc = end_tsc - start_tsc;
          dur_cyc = end_tsc - prev_tsc;
          (prev, dur, k1) = (if s_clkofsec m \<le> dur_cyc then (e_tsc env k, 0, Suc k) else (prev_tsc, dur_count, k))
      in if run_cyc \<le> total_cyc then Some (Inr (total_cyc, total_count, m))
         else let m1 = (if 0 < total_count
                then m\<lparr>s_latest_avglat := (dbl_of_u64 total_cyc * s_nsofclk m) / dbl_of_u64 total_count\<rparr> else m)
              in case buf_read (buf_mem m1) buf READ_NUM of
                   Inl e \<Rightarrow> Some (Inl e)
                 | Inr p \<Rightarrow> read_rounds env buf run_cyc start_tsc (Suc k1) (e_tsc env k1) prev
                     (dur + of_nat READ_NUM) (total_count + of_nat READ_NUM) m1)"

definition dependent_read ::
  "mgen_env \<Rightarrow> nat \<Rightarrow> int \<Rightarrow> int \<Rightarrow> u64 \<Rightarrow> mgen \<Rightarrow> (dbl \<times> mgen) res option" where
  "dependent_read env k buf cpu_consumer meas_sec m =
     (case dbl_to_u64 (dbl_of_int NS_SEC * s_clkofns m) of
        Inl e \<Rightarrow> Some (Inl e)
      | Inr clk \<Rightarrow>
          let (ret, m1) = processor_bind env cpu_consumer m
          in if ret \<noteq> 0 then Some (Inr (- Fin 1, m1))
          else map_option (\<lambda>r. bind_res r (\<lambda>(total_cyc, total_count, m').
                 Inr (if 0 < total_count then (dbl_of_u64 total_cyc * s_nsofclk m') / dbl_of_u64 total_count else Fin 0, m')))
               (read_rounds env buf (meas_sec * clk) (e_tsc env k) (Suc k) (e_tsc env k) (e_tsc env k) 0 0 m1))"

definition handled_signals :: "int list" where
  "handled_signals = [2, 1, 3, 15, 13]"

text \<open>The label \<open>L_EXIT0\<close>.\<close>

definition leave :: "dbl \<Rightarrow> mgen \<Rightarrow> (dbl \<times> mgen) res" where
  "leave ret m = bind_res (release_buf m) (\<lambda>m'. Inr (ret, m'))"

definition get_numa_latency :: "mgen_env \<Rightarrow> int \<Rightarrow> int \<Rightarrow> mgen \<Rightarrow> (dbl \<times> mgen) res option" where
  "get_numa_latency env from_node to_node m =
     (let m1 = m\<lparr>s_randseed := 0, s_ncpus := e_nprocs env\<rparr>
      in if from_node = -1 \<or> to_node = -1 \<or> \<not> list_all (e_signal env) handled_signals then Some (leave (- Fin 1) m1)
         else case calibrate env (m1\<lparr>s_tvbase := e_clock env 0\<rparr>) of
                None \<Rightarrow> None
              | Some (Inl e) \<Rightarrow> Some (Inl e)
              | Some (Inr (k, m2)) \<Rightarrow>
                  (case buf_create env from_node m2 of
                     None \<Rightarrow> None
                   | Some (None, m3) \<Rightarrow> Some (leave (- Fin 1) (m3\<lparr>s_buf := None\<rparr>))
                   | Some (Some buf, m3) \<Rightarrow>
                       map_option (\<lambda>r. bind_res r (\<lambda>(ret, m4). leave ret m4))
                         (dependent_read env k buf to_node MEAS_TIME_DEFAULT (m3\<lparr>s_buf := Some buf\<rparr>))))"

subsection \<open>The loop ends\<close>

text \<open>
  \<open>i\<close> is the reading the loop has taken last. Every pass takes one reading or two,
  so two readings in a row that are late enough cannot both be missed.
\<close>

lemma read_rounds_step:
  assumes "\<not> run_cyc \<le> e_tsc env i - start_tsc" "buf_read (buf_mem m) buf READ_NUM = Inr p"
  shows "\<exists>j \<in> {Suc i, Suc (Suc i)}. \<exists>prev' dur' x.
    read_rounds env buf run_cyc start_tsc (Suc i) (e_tsc env i) prev dur tot m =
    read_rounds env buf run_cyc start_tsc (Suc j) (e_tsc env j) prev' dur' (tot + of_nat READ_NUM) (m\<lparr>s_latest_avglat := x\<rparr>)"
proof -
  define x where "x = (if 0 < tot
    then (dbl_of_u64 (e_tsc env i - start_tsc) * s_nsofclk m) / dbl_of_u64 tot else s_latest_avglat m)"
  have x: "(if 0 < tot then m\<lparr>s_latest_avglat := (dbl_of_u64 (e_tsc env i - start_tsc) * s_nsofclk m) / dbl_of_u64 tot\<rparr> else m)
    = m\<lparr>s_latest_avglat := x\<rparr>"
    by (simp add: x_def)
  have r: "buf_read (buf_mem (m\<lparr>s_latest_avglat := x\<rparr>)) buf READ_NUM = Inr p" using assms(2) by simp
  show ?thesis
  proof (cases "s_clkofsec m \<le> e_tsc env i - prev")
    case True
    have "read_rounds env buf run_cyc start_tsc (Suc i) (e_tsc env i) prev dur tot m =
        read_rounds env buf run_cyc start_tsc (Suc (Suc (Suc i))) (e_tsc env (Suc (Suc i))) (e_tsc env (Suc i))
          (0 + of_nat READ_NUM) (tot + of_nat READ_NUM) (m\<lparr>s_latest_avglat := x\<rparr>)"
      by (subst read_rounds.simps) (simp only: Let_def x r True assms(1) if_True if_False prod.case sum.case)
    then show ?thesis by (intro bexI [of _ "Suc (Suc i)"] exI) simp_all
  next
    case False
    have "read_rounds env buf run_cyc start_tsc (Suc i) (e_tsc env i) prev dur tot m =
        read_rounds env buf run_cyc start_tsc (Suc (Suc i)) (e_tsc env (Suc i)) prev
          (dur + of_nat READ_NUM) (tot + of_nat READ_NUM) (m\<lparr>s_latest_avglat := x\<rparr>)"
      by (subst read_rounds.simps) (simp only: Let_def x r False assms(1) if_False prod.case sum.case)
    then show ?thesis by (intro bexI [of _ "Suc i"] exI) simp_all
  qed
qed

lemma read_rounds_returns:
  assumes "run_cyc \<le> e_tsc env j - start_tsc" "run_cyc \<le> e_tsc env (Suc j) - start_tsc"
    "i \<le> Suc j" "buf_read (buf_mem m) buf READ_NUM = Inr p"
  shows "\<exists>e n x. read_rounds env buf run_cyc start_tsc (Suc i) (e_tsc env i) prev dur tot m =
      Some (Inr (e_tsc env e - start_tsc, tot + of_nat (n * READ_NUM), m\<lparr>s_latest_avglat := x\<rparr>)) \<and>
    i \<le> e \<and> e \<le> Suc j \<and> n \<le> e - i \<and> run_cyc \<le> e_tsc env e - start_tsc \<and>
    (n = 0 \<longleftrightarrow> run_cyc \<le> e_tsc env i - start_tsc)"
  using assms(3,4)
proof (induction "Suc j - i" arbitrary: i prev dur tot m rule: less_induct)
  case less
  show ?case
  proof (cases "run_cyc \<le> e_tsc env i - start_tsc")
    case True
    have "read_rounds env buf run_cyc start_tsc (Suc i) (e_tsc env i) prev dur tot m =
        Some (Inr (e_tsc env i - start_tsc, tot, m))"
      by (subst read_rounds.simps) (simp add: Let_def True split: prod.split)
    then show ?thesis using less.prems True
      by (intro exI [of _ i] exI [of _ 0] exI [of _ "s_latest_avglat m"]) simp
  next
    case False
    obtain i' prev' dur' x where i': "i' \<in> {Suc i, Suc (Suc i)}"
      "read_rounds env buf run_cyc start_tsc (Suc i) (e_tsc env i) prev dur tot m =
       read_rounds env buf run_cyc start_tsc (Suc i') (e_tsc env i') prev' dur' (tot + of_nat READ_NUM) (m\<lparr>s_latest_avglat := x\<rparr>)"
      using read_rounds_step [OF False less.prems(2), of prev dur tot] by blast
    have "i \<noteq> j" "i \<noteq> Suc j" using False assms(1,2) by metis+
    then have lt: "Suc j - i' < Suc j - i" "i' \<le> Suc j" "i < i'" using i'(1) less.prems(1) by auto
    have rd: "buf_read (buf_mem (m\<lparr>s_latest_avglat := x\<rparr>)) buf READ_NUM = Inr p" using less.prems(2) by simp
    from less.hyps [OF lt(1,2) rd, of prev' dur' "tot + of_nat READ_NUM"] obtain e n y where e:
      "read_rounds env buf run_cyc start_tsc (Suc i') (e_tsc env i') prev' dur' (tot + of_nat READ_NUM) (m\<lparr>s_latest_avglat := x\<rparr>) =
       Some (Inr (e_tsc env e - start_tsc, (tot + of_nat READ_NUM) + of_nat (n * READ_NUM), m\<lparr>s_latest_avglat := x\<rparr>\<lparr>s_latest_avglat := y\<rparr>))"
      "i' \<le> e" "e \<le> Suc j" "n \<le> e - i'" "run_cyc \<le> e_tsc env e - start_tsc"
      by (elim exE conjE) (rule that)
    have "(tot + of_nat READ_NUM) + of_nat (n * READ_NUM) = tot + of_nat (Suc n * READ_NUM)" by simp
    then show ?thesis using i'(2) e lt(3) False
      by (intro exI [of _ e] exI [of _ "Suc n"] exI [of _ y]) simp
  qed
qed

lemma rand_array_returns:
  assumes "fair (e_rand env (e_time env))" "e_alloc env MGEN_BUF_SIZE node = Some buf" "s_randseed m = 0"
  shows "\<exists>arr m'. buf_create env node m = Some (Some buf, m') \<and> live_bufs m' = insert buf (live_bufs m) \<and>
    s_nsofclk m' = s_nsofclk m \<and> s_clkofns m' = s_clkofns m \<and> (\<exists>p. buf_read (buf_mem m') buf READ_NUM = Inr p)"
proof -
  obtain arr qs where r: "rand_array_init (e_rand env) (e_time env) 0 = Some (e_time env, arr)" "array_path qs arr"
    using rand_array_init_returns [of "e_rand env" 0 "e_time env"] assms(1) by auto
  have "chase (rand_buf_init arr buf MGEN_BUF_SIZE mem) READ_NUM buf \<in> range Inr" for mem
    using walk_ring(4) [OF r(2), of buf mem READ_NUM] by blast
  then have "\<exists>p. buf_read (rand_buf_init arr buf MGEN_BUF_SIZE mem) buf READ_NUM = Inr p" for mem
    by (simp add: buf_read_chase READ_NUM_def image_iff)
  then show ?thesis using r(1) assms(2,3) by (simp add: buf_create_def)
qed

lemma loads_fit:
  assumes "1 \<le> n" "n \<le> 10 ^ 9 + 1"
  shows "0 < (of_nat (n * READ_NUM) :: u64)" "dbl_of_u64 (of_nat (n * READ_NUM)) = dbl_of_int (int (n * READ_NUM))"
proof -
  have "n * READ_NUM \<le> (10 ^ 9 + 1) * READ_NUM" using assms(2) by (rule mult_le_mono1)
  also have "\<dots> < 2 ^ 64" by (simp add: READ_NUM_def)
  finally have "int (n * READ_NUM) < 2 ^ 64" by (simp only: flip: of_nat_less_iff [where ?'a = int]) simp
  then have u: "uint (of_nat (n * READ_NUM) :: u64) = int (n * READ_NUM)"
    using uint_word_of_int_u64 [of "int (n * READ_NUM)"] by (simp only: of_int_of_nat_eq of_nat_0_le_iff)
  then show "dbl_of_u64 (of_nat (n * READ_NUM)) = dbl_of_int (int (n * READ_NUM))"
    by (simp only: dbl_of_u64_def dbl_of_int_def)
  show "0 < (of_nat (n * READ_NUM) :: u64)"
    using u assms(1) by (simp only: word_less_def uint_0_eq) (simp add: READ_NUM_def)
qed

text \<open>The state in which the calibration starts.\<close>

definition calibrated :: "mgen_env \<Rightarrow> mgen \<Rightarrow> nat \<Rightarrow> mgen \<Rightarrow> bool" where
  "calibrated env m k mc \<longleftrightarrow>
     calibrate env (m\<lparr>s_randseed := 0, s_ncpus := e_nprocs env, s_tvbase := e_clock env 0\<rparr>) = Some (Inr (k, mc))"

lemma measurement_result:
  assumes "from_node \<noteq> -1" "to_node \<noteq> -1" "list_all (e_signal env) handled_signals"
    and "calibrated env m k mc" "dbl_to_u64 (dbl_of_int NS_SEC * s_clkofns mc) = Inr clk" "0 < clk"
    and "e_alloc env MGEN_BUF_SIZE from_node = Some buf" "buf \<notin> live_bufs m"
    and "fair (e_rand env (e_time env))" "0 \<le> e_bind env (CPU_SET to_node {})"
    and "k \<le> j" "j < k + 10 ^ 9" "clk \<le> e_tsc env j - e_tsc env k" "clk \<le> e_tsc env (Suc j) - e_tsc env k"
  shows "\<exists>e n m'. get_numa_latency env from_node to_node m =
      Some (Inr (dbl_of_u64 (e_tsc env e - e_tsc env k) * s_nsofclk mc / dbl_of_int (int (n * READ_NUM)), m')) \<and>
    1 \<le> n \<and> n \<le> e - k \<and> e \<le> Suc j \<and> clk \<le> e_tsc env e - e_tsc env k \<and>
    live_bufs m' = live_bufs m \<and> s_buf m' = Some buf \<and> affinity m' = CPU_SET to_node {}"
proof -
  have mc: "s_randseed mc = 0" "live_bufs mc = live_bufs m"
    using calibrate_keeps assms(4) unfolding calibrated_def by fastforce+
  obtain m3 where m3: "buf_create env from_node mc = Some (Some buf, m3)" "live_bufs m3 = insert buf (live_bufs m)"
    "s_nsofclk m3 = s_nsofclk mc" "s_clkofns m3 = s_clkofns mc" "\<exists>p. buf_read (buf_mem m3) buf READ_NUM = Inr p"
    using rand_array_returns [OF assms(9,7) mc(1)] mc(2) by auto
  define m4 where "m4 = m3\<lparr>s_buf := Some buf, affinity := CPU_SET to_node {}\<rparr>"
  obtain p where p: "buf_read (buf_mem m4) buf READ_NUM = Inr p" using m3(5) by (auto simp: m4_def)
  have kj: "k \<le> Suc j" using assms(11) by simp
  from read_rounds_returns [OF assms(13,14) kj p, of "e_tsc env k" 0 0] obtain e n x where
    e: "read_rounds env buf clk (e_tsc env k) (Suc k) (e_tsc env k) (e_tsc env k) 0 0 m4 =
        Some (Inr (e_tsc env e - e_tsc env k, 0 + of_nat (n * READ_NUM), m4\<lparr>s_latest_avglat := x\<rparr>))"
      "k \<le> e" "e \<le> Suc j" "n \<le> e - k" "clk \<le> e_tsc env e - e_tsc env k" "n = 0 \<longleftrightarrow> clk \<le> e_tsc env k - e_tsc env k"
    by (elim exE conjE) (rule that)
  have n: "1 \<le> n" "n \<le> 10 ^ 9 + 1" using e(3,4,6) assms(6,12) by auto
  let ?lat = "dbl_of_u64 (e_tsc env e - e_tsc env k) * s_nsofclk mc / dbl_of_int (int (n * READ_NUM))"
  have read: "dependent_read env k buf to_node MEAS_TIME_DEFAULT (m3\<lparr>s_buf := Some buf\<rparr>) = Some (Inr (?lat, m4\<lparr>s_latest_avglat := x\<rparr>))"
    using assms(5,10) e(1) loads_fit [OF n] m3(3,4)
    by (simp add: dependent_read_def processor_bind_cases MEAS_TIME_DEFAULT_def m4_def)
  have leave: "leave r (m4\<lparr>s_latest_avglat := x\<rparr>) =
      Inr (r, m4\<lparr>s_latest_avglat := x, live_bufs := live_bufs m\<rparr>)" for r
    using assms(8) m3(2) by (simp add: leave_def release_buf_def buf_release_def m4_def)
  have "get_numa_latency env from_node to_node m = Some (Inr (?lat, m4\<lparr>s_latest_avglat := x, live_bufs := live_bufs m\<rparr>))"
    using assms(1,2,3,4) m3(1) read leave
    by (simp add: get_numa_latency_def calibrated_def m4_def)
  then show ?thesis using n(1) e(3,4,5)
    by (intro exI [of _ e] exI [of _ n] exI [of _ "m4\<lparr>s_latest_avglat := x, live_bufs := live_bufs m\<rparr>"]) (simp add: m4_def)
qed

text \<open>C17. A measurement ends and returns a latency: with a known clock, a buffer, a fair \<open>rand\<close>, a thread that can be
  bound, and a counter of which two readings in a row are late enough. The latency is the time between the first
  and the last reading of the counter divided by the number of loads, 10240000 for each pass over the buffer; at
  least one pass is made, the last reading is late enough, and the buffer has been freed. The thread stays bound to
  the CPU it measured from.\<close>

theorem measurement_returns:
  assumes "from_node \<noteq> -1" "to_node \<noteq> -1" "list_all (e_signal env) handled_signals"
    and "calibrated env m k mc" "dbl_to_u64 (dbl_of_int NS_SEC * s_clkofns mc) = Inr clk" "0 < clk"
    and "e_alloc env MGEN_BUF_SIZE from_node = Some buf" "buf \<notin> live_bufs m"
    and "fair (e_rand env (e_time env))" "0 \<le> e_bind env (CPU_SET to_node {})"
    and "k \<le> j" "j < k + 10 ^ 9" "clk \<le> e_tsc env j - e_tsc env k" "clk \<le> e_tsc env (Suc j) - e_tsc env k"
  shows "\<exists>e n m'. get_numa_latency env from_node to_node m =
      Some (Inr (dbl_of_u64 (e_tsc env e - e_tsc env k) * s_nsofclk mc / dbl_of_int (int (n * READ_NUM)), m')) \<and>
    1 \<le> n \<and> n \<le> e - k \<and> e \<le> Suc j \<and> clk \<le> e_tsc env e - e_tsc env k \<and>
    live_bufs m' = live_bufs m \<and> s_buf m' = Some buf \<and> affinity m' = CPU_SET to_node {}"
  by (rule measurement_result [OF assms])

definition ex_meter :: mgen_env where
  "ex_meter = \<lparr>e_file = [CPU0_CPUFREQ_PATH \<mapsto> show_nat 1000000 @ [newline]],
     e_beyond = (\<lambda>i. []), e_nprocs = 8, e_signal = (\<lambda>s. True), e_bind = (\<lambda>cs. 0),
     e_clock = (\<lambda>k. \<lparr>tv_sec = int k, tv_usec = 0\<rparr>), e_tsc = (\<lambda>k. of_nat k * 1000000000), e_time = 1,
     e_rand = (\<lambda>s k. k), e_alloc = (\<lambda>n i. Some 4096)\<rparr>"

lemma ex_meter_calibrated:
  "\<exists>mc. calibrated ex_meter ex_mgen 0 mc \<and> s_clkofns mc = Fin 1 \<and> s_nsofclk mc = Fin 1"
proof -
  have 1: "dbl_of_u64 (of_nat 1000000 * KHZ) = Fin 1000000000" by (simp add: KHZ_def dbl_of_u64_def)
  have "calibrate_cpuinfo ex_meter m = Inr (-1, m)" for m
    by (simp add: calibrate_cpuinfo_def ex_meter_def CPU0_CPUFREQ_PATH_def)
  moreover have "calibrate_cpufreq ex_meter m = (0, set_clock (of_nat 1000000 * KHZ) m)" for m
    by (rule calibrate_cpufreq_reads) (simp_all add: ex_meter_def)
  ultimately show ?thesis
    by (simp add: calibrated_def calibrate_def set_clock_def Let_def 1 NS_SEC_def dbl_of_int_small dbl_op_defs del: of_nat_numeral)
qed

lemma ex_meter_clock: "s_clkofns mc = Fin 1 \<Longrightarrow> dbl_to_u64 (dbl_of_int NS_SEC * s_clkofns mc) = Inr 1000000000"
  by (simp add: dbl_to_u64_def NS_SEC_def dbl_of_int_small dbl_op_defs)

theorem measurement_returns_witness:
  "\<exists>lat m'. get_numa_latency ex_meter 0 3 ex_mgen = Some (Inr (lat, m')) \<and> live_bufs m' = {} \<and> s_buf m' = Some 4096 \<and>
     affinity m' = {3}"
proof -
  obtain mc where mc: "calibrated ex_meter ex_mgen 0 mc" "s_clkofns mc = Fin 1" using ex_meter_calibrated by blast
  show ?thesis
    using measurement_returns [OF _ _ _ mc(1) ex_meter_clock [OF mc(2)], of 0 3 4096 1] fair_counter
    by (auto simp: ex_meter_def ex_mgen_def CPU_SET_def handled_signals_def)
qed

subsection \<open>The buffer is freed a second time\<close>

lemma leave_frees:
  "leave ret m = Inr (r, m') \<Longrightarrow> s_buf m' = Some buf \<Longrightarrow> buf \<notin> live_bufs m'"
  by (auto simp: leave_def release_buf_def buf_release_def res_simps split: option.splits if_splits)

lemma latency_frees:
  assumes "get_numa_latency env from_node to_node m = Some (Inr (lat, m'))" "s_buf m' = Some buf"
  shows "buf \<notin> live_bufs m'"
proof -
  have "\<exists>ret m4. leave ret m4 = Inr (lat, m')"
    using assms(1) unfolding get_numa_latency_def Let_def
    by (auto simp: res_simps split: if_splits option.splits sum.splits prod.splits)
  then show ?thesis using leave_frees assms(2) by blast
qed

text \<open>C37. \<open>get_numa_latency\<close> frees its buffer but keeps its address, and its signal handlers stay installed: after any
  call that has got a buffer, an interrupt of the daemon frees the buffer again, and so does the next call if it
  stops before it asks for a buffer of its own: for a node that is -1, or when a signal handler cannot be installed.\<close>

theorem buffer_is_freed_twice:
  assumes "get_numa_latency env from_node to_node m = Some (Inr (lat, m'))" "s_buf m' = Some buf"
    and "from_node' = -1 \<or> to_node' = -1 \<or> \<not> list_all (e_signal env') handled_signals"
  shows "sigint_handler m' = Inl Bad_Free \<and> get_numa_latency env' from_node' to_node' m' = Some (Inl Bad_Free)"
proof -
  have "buf \<notin> live_bufs m'" by (rule latency_frees [OF assms(1,2)])
  then show ?thesis using assms(2,3)
    by (auto simp: sigint_handler_def get_numa_latency_def leave_def release_buf_def buf_release_def Let_def)
qed

lemma ex_meter_measures:
  "\<exists>lat m'. get_numa_latency ex_meter 0 3 ex_mgen = Some (Inr (lat, m')) \<and> s_buf m' = Some 4096"
proof -
  obtain mc where mc: "calibrated ex_meter ex_mgen 0 mc" "s_clkofns mc = Fin 1" using ex_meter_calibrated by blast
  show ?thesis
    using measurement_result [OF _ _ _ mc(1) ex_meter_clock [OF mc(2)], of 0 3 4096 1] fair_counter
    by (auto simp: ex_meter_def ex_mgen_def CPU_SET_def handled_signals_def)
qed

theorem buffer_is_freed_twice_witness:
  "\<exists>lat m'. get_numa_latency ex_meter 0 3 ex_mgen = Some (Inr (lat, m')) \<and> sigint_handler m' = Inl Bad_Free \<and>
     get_numa_latency ex_meter (-1) 3 m' = Some (Inl Bad_Free)"
proof -
  obtain lat m' where m': "get_numa_latency ex_meter 0 3 ex_mgen = Some (Inr (lat, m'))" "s_buf m' = Some 4096"
    using ex_meter_measures by blast
  then show ?thesis using buffer_is_freed_twice [OF m', of "-1" 3 ex_meter] by blast
qed

subsection \<open>A failed measurement\<close>

lemma bind_failure:
  assumes "from_node \<noteq> -1" "to_node \<noteq> -1" "list_all (e_signal env) handled_signals"
    and "calibrated env m k mc" "dbl_to_u64 (dbl_of_int NS_SEC * s_clkofns mc) = Inr clk"
    and "e_alloc env MGEN_BUF_SIZE from_node = Some buf" "fair (e_rand env (e_time env))"
    and "e_bind env (CPU_SET to_node {}) < 0"
  shows "\<exists>m'. get_numa_latency env from_node to_node m = Some (Inr (Fin (-1), m'))"
proof -
  have mc: "s_randseed mc = 0" using calibrate_keeps assms(4) unfolding calibrated_def by fastforce
  obtain m3 where m3: "buf_create env from_node mc = Some (Some buf, m3)" "live_bufs m3 = insert buf (live_bufs mc)"
    "s_clkofns m3 = s_clkofns mc"
    using rand_array_returns [OF assms(7,6) mc] by auto
  have "dependent_read env k buf to_node MEAS_TIME_DEFAULT (m3\<lparr>s_buf := Some buf\<rparr>) =
      Some (Inr (Fin (-1), m3\<lparr>s_buf := Some buf\<rparr>))"
    using assms(5,8) m3(3) by (simp add: dependent_read_def processor_bind_cases uminus_dbl_def)
  moreover have "leave r (m3\<lparr>s_buf := Some buf\<rparr>) = Inr (r, m3\<lparr>s_buf := Some buf, live_bufs := live_bufs m3 - {buf}\<rparr>)" for r
    using m3(2) by (simp add: leave_def release_buf_def buf_release_def)
  ultimately show ?thesis using assms(1,2,3,4) m3(1) by (simp add: get_numa_latency_def calibrated_def)
qed

lemma first_cpu_nonneg: "0 \<le> get_node_first_cpu nc i"
proof (cases "nc i")
  case (Pair err cpus)
  have "\<forall>c\<in>set (mask_cpus cpus). 0 \<le> c" by (simp add: mask_cpus_iff)
  then show ?thesis by (auto simp: get_node_first_cpu_def Pair split: list.split)
qed

lemma least_first:
  assumes "sorted_wrt (\<lambda>p q. \<not> snd q < snd p) xs" "x \<in> set xs" "\<And>y. y \<in> set xs \<Longrightarrow> y \<noteq> x \<Longrightarrow> snd x < snd y"
  shows "hd xs = x"
  using assms by (cases xs) auto

text \<open>C30. A failed measurement makes a node the nearest: when the thread cannot be bound to the first CPU of a node,
  the latency -1 is stored like a measured one, no error is reported, and the node stands at the head of the list
  the strategy searches for the nearest target, before the node itself.\<close>

theorem failed_measurement_ranks_first:
  assumes "std_sort compare_pairs_second srt" "n = nat (numa_number nu)" "cpu_node_mapping nu = []"
    and "\<forall>i<n. 0 \<le> fst (nc (int i))" "\<forall>i j. lat i j \<noteq> NaN"
    and "\<forall>i<n. \<forall>j<n. i \<noteq> j \<longrightarrow> set (mask_cpus (snd (nc (int i)))) \<inter> set (mask_cpus (snd (nc (int j)))) = {}"
    and "i < n" "j < n" "cpu = get_node_first_cpu nc (int j)"
    and "get_numa_latency env (int i) cpu m = Some (Inr (lat (int i) cpu, m'))"
    and "\<forall>j'<n. j' \<noteq> j \<longrightarrow> Fin 0 \<le> lat (int i) (get_node_first_cpu nc (int j'))"
    and "list_all (e_signal env) handled_signals" "calibrated env m k mc"
    and "dbl_to_u64 (dbl_of_int NS_SEC * s_clkofns mc) = Inr clk" "e_alloc env MGEN_BUF_SIZE (int i) = Some buf"
    and "fair (e_rand env (e_time env))" "e_bind env (CPU_SET cpu {}) < 0"
  shows "\<exists>w nu'. init_numa_info srt nc lat g None cw nu = (0, w, nu') \<and>
    hd (sorted_lat_node_list (numa_nodes nu' ! i)) = (int j, Fin (-1))"
proof -
  have "cpu \<noteq> -1" using first_cpu_nonneg [of nc "int j"] assms(9) by simp
  then have lat: "lat (int i) cpu = Fin (-1)"
    using bind_failure [OF _ _ assms(12,13,14,15,16,17)] assms(10) by auto
  from init_numa_info_result [OF assms(1-6), of g cw] obtain w nu' where
    r: "init_numa_info srt nc lat g None cw nu = (0, w, nu')"
      "mset (sorted_lat_node_list (numa_nodes nu' ! i)) =
        mset (map (\<lambda>j. (int j, lat (int i) (get_node_first_cpu nc (int j)))) [0..<n])"
      "sorted_wrt (\<lambda>p q. \<not> snd q < snd p) (sorted_lat_node_list (numa_nodes nu' ! i))"
    using assms(7) by auto
  have set: "set (sorted_lat_node_list (numa_nodes nu' ! i)) =
      (\<lambda>j. (int j, lat (int i) (get_node_first_cpu nc (int j)))) ` {..<n}"
    using arg_cong [OF r(2), of set_mset] by (simp add: atLeast0LessThan)
  have "snd (int j, Fin (-1)) < snd y" if y: "y \<in> set (sorted_lat_node_list (numa_nodes nu' ! i))" "y \<noteq> (int j, Fin (-1))" for y
  proof -
    obtain j' where j': "j' < n" "y = (int j', lat (int i) (get_node_first_cpu nc (int j')))" using y(1) unfolding set by auto
    then have "j' \<noteq> j" using y(2) lat assms(9) by auto
    then have "Fin 0 \<le> snd y" using assms(11) j' by simp
    moreover have "Fin (-1) < Fin 0" by (simp add: less_dbl_def)
    ultimately show ?thesis using dbl_less_le_trans by simp
  qed
  moreover have "(int j, Fin (-1)) \<in> set (sorted_lat_node_list (numa_nodes nu' ! i))"
    unfolding set using assms(8,9) lat by force
  ultimately have "hd (sorted_lat_node_list (numa_nodes nu' ! i)) = (int j, Fin (-1))"
    by (intro least_first [OF r(3)])
  then show ?thesis using r(1) by blast
qed

text \<open>A host on which the thread may not run on CPU 2, the first one of node 1.\<close>

definition ex_bad_meter :: mgen_env where
  "ex_bad_meter = ex_meter\<lparr>e_bind := (\<lambda>cs. if 2 \<in> cs then -1 else 0)\<rparr>"

lemma ex_bad_meter_fails:
  "\<exists>mc m'. calibrated ex_bad_meter ex_mgen 0 mc \<and> s_clkofns mc = Fin 1 \<and>
     get_numa_latency ex_bad_meter 0 2 ex_mgen = Some (Inr (Fin (-1), m'))"
proof -
  have "calibrate ex_bad_meter m = calibrate ex_meter m" if "calibrate_cpufreq ex_meter m = (0, set_clock (of_nat 1000000 * KHZ) m)" for m
    using that by (simp add: calibrate_def calibrate_cpuinfo_def calibrate_cpufreq_def ex_bad_meter_def ex_meter_def CPU0_CPUFREQ_PATH_def)
  moreover have "calibrate_cpufreq ex_meter m = (0, set_clock (of_nat 1000000 * KHZ) m)" for m
    by (rule calibrate_cpufreq_reads) (simp_all add: ex_meter_def)
  ultimately have "calibrated ex_bad_meter ex_mgen 0 mc \<longleftrightarrow> calibrated ex_meter ex_mgen 0 mc" for mc
    by (simp add: calibrated_def) (simp add: ex_bad_meter_def)
  then obtain mc where mc: "calibrated ex_bad_meter ex_mgen 0 mc" "s_clkofns mc = Fin 1" using ex_meter_calibrated by blast
  have "\<exists>m'. get_numa_latency ex_bad_meter 0 2 ex_mgen = Some (Inr (Fin (-1), m'))"
    by (rule bind_failure [OF _ _ _ mc(1) ex_meter_clock [OF mc(2)], where buf = 4096])
      (simp_all add: ex_bad_meter_def ex_meter_def fair_counter CPU_SET_def handled_signals_def)
  then show ?thesis using mc by blast
qed

theorem failed_measurement_ranks_first_witness:
  "\<exists>w nu'. init_numa_info (insertion_sort compare_pairs_second) ex_node_cpus
      (\<lambda>i c. if c = 2 then Fin (-1) else Fin 80) (\<lambda>_ _. NaN) None True ex_numa = (0, w, nu') \<and>
    hd (sorted_lat_node_list (numa_nodes nu' ! 0)) = (1, Fin (-1))"
proof -
  obtain mc m' where mc: "calibrated ex_bad_meter ex_mgen 0 mc" "s_clkofns mc = Fin 1"
    "get_numa_latency ex_bad_meter 0 2 ex_mgen = Some (Inr (Fin (-1), m'))" using ex_bad_meter_fails by blast
  have cpu: "get_node_first_cpu ex_node_cpus 1 = 2" "get_node_first_cpu ex_node_cpus 0 = 0"
    by code_simp+
  have 3: "\<forall>j'<2. j' \<noteq> 1 \<longrightarrow> Fin 0 \<le> (\<lambda>i c. if c = 2 then Fin (-1) else Fin 80) (int 0) (get_node_first_cpu ex_node_cpus (int j'))"
  proof (intro allI impI)
    fix j' :: nat assume "j' < 2" "j' \<noteq> 1"
    then have "j' = 0" by linarith
    then show "Fin 0 \<le> (\<lambda>i c. if c = 2 then Fin (-1) else Fin 80) (int 0) (get_node_first_cpu ex_node_cpus (int j'))"
      by (simp add: cpu less_eq_dbl_def)
  qed
  have "\<exists>w nu'. init_numa_info (insertion_sort compare_pairs_second) ex_node_cpus
      (\<lambda>i c. if c = 2 then Fin (-1) else Fin 80) (\<lambda>_ _. NaN) None True ex_numa = (0, w, nu') \<and>
    hd (sorted_lat_node_list (numa_nodes nu' ! 0)) = (int 1, Fin (-1))"
    by (rule failed_measurement_ranks_first [where n = 2 and env = ex_bad_meter and m = ex_mgen and m' = m' and k = 0 and mc = mc
          and clk = 1000000000 and buf = 4096 and cpu = 2, OF insertion.std_sort_axioms])
      (use mc 3 cpu ex_node_cpus_disjoint ex_meter_clock [OF mc(2)] in
       \<open>simp_all add: ex_numa_def ex_bad_meter_def ex_meter_def fair_counter CPU_SET_def handled_signals_def\<close>,
       simp add: ex_node_cpus_def)
  then show ?thesis by simp
qed

end
