(* ===== verification/Spec2Isabelle.thy ===== *)
theory Spec2Isabelle
  imports Program Rounds Mgen
begin

text \<open>
  A model of vNAMS, a daemon that balances virtual machines over the NUMA nodes of
  a host, and the properties that make it correct.

  \<^bold>\<open>The program.\<close> \<open>main\<close> creates the daemon (class \<open>Nuiod\<close>) and calls \<open>start\<close>. \<open>init\<close>
  reads \<open>/etc/nuiod.conf\<close>, registers a handler for the events of libvirt, fills a
  record for every running machine, opens \<open>/proc/stat\<close>, asks for the node of the
  network card and, in a second thread, finds the CPUs and the latencies of the
  nodes. Then the loop runs for ever: handle the events, refresh which machine runs
  on which CPU, monitor, let the strategy decide on a node for every busy machine,
  and pin the machines to free CPUs of these nodes. The strategy is behind the
  interface \<open>ScheduleStrategy\<close>; there is one, \<open>SimpleStrategy\<close>.

  \<^bold>\<open>The theories\<close>, with the files under \<open>src/\<close> they model:
    \<^item> \<open>Prelude\<close>, \<open>Binary64\<close>, \<open>RoundingError\<close>, \<open>StdLib\<close>, \<open>CLib\<close>: what C++ gives. Faults and results, the
      conversions of integers, loops that wait; doubles as rationals, infinities and
      NaN with rounding to nearest, and the error of a few roundings; \<open>std::sort\<close> (locale \<open>std_sort\<close>) and \<open>std::map\<close>
      (locale \<open>ordered_map\<close>); the conversions of \<open>scanf\<close> and \<open>printf\<close>, \<open>strtol\<close>, \<open>strtok\<close>, \<open>fgets\<close>.
    \<^item> \<open>VMInfo\<close>: \<open>include/VM_info.h\<close>, \<open>Numa_node.h\<close>, \<open>Decision.h\<close>. \<open>NuiodState\<close>: the members of
      \<open>Nuiod\<close> (\<open>include/Nuiod.h\<close>) and what the host answers.
    \<^item> \<open>SimpleStrategy\<close>, \<open>Balance\<close>, \<open>Smoothing\<close>, \<open>Scheduling\<close>: \<open>src/SimpleStrategy.cpp\<close>. The definitions and
      the classification of machines; the loop that moves machines to less busy
      nodes; the state of a machine's traffic over time; the whole schedule, and
      the contract \<open>schedule_strategy\<close> that the daemon relies on, which the strategy
      is shown to meet.
    \<^item> \<open>CpuMonitor\<close>, \<open>MemMonitor\<close>, \<open>IOMonitor\<close>, \<open>PerfMonitor\<close>: the files of these names. What is
      read, what the text means, and every failure.
    \<^item> \<open>Migrate\<close>: \<open>src/Thread_migrate.cpp\<close> and \<open>src/Memory_migrate.cpp\<close>.
    \<^item> \<open>NumaInfo\<close>, \<open>CpuMapping\<close>, \<open>Config\<close>, \<open>Lifecycle\<close>, \<open>Daemon\<close>: the parts of \<open>src/Nuiod.cpp\<close>. Nodes and
      latencies with the file they are kept in; which machine is on which CPU, and
      the carrying out of decisions; the configuration file; the records of machines
      and the events; monitoring, start and main loop. \<open>Rounds\<close>: where the machines run after
      a round. \<open>Program\<close>: \<open>src/main.cpp\<close>, and a run of the whole program.
    \<^item> \<open>MgenBuffer\<close>, \<open>MgenClock\<close>, \<open>Mgen\<close>: \<open>src/mgen.cpp\<close>. The ring of pointers that is walked, the
      calibration of the time stamp counter, one measurement of a latency.

  \<^bold>\<open>How the model corresponds to the code.\<close> A class is a record, its methods are
  functions from a state to a result and a new state, with the names of the source.
  A part of a long method has a definition of its own, composed in the order of the
  code. The result type has a fault for everything that would stop the program or be
  undefined: an index or pointer out of range, a missing key, an end iterator, a
  null pointer, memory freed twice, signed overflow where numbers from outside meet, an
  exception, \<open>exit\<close>. Integers that wrap are
  words; an \<open>int\<close> that holds a size or index is an integer, converted where the code
  converts. Buffers have their size: a line longer than a buffer is read in pieces, a
  path is cut off, an unbounded \<open>%s\<close> that is too long is a fault. What the program
  asks of libvirt, libnuma, the files under \<open>/proc\<close>, \<open>/sys\<close> and \<open>/etc\<close>, the clock, the
  counter and \<open>rand\<close> is an argument: functions, records of answers (\<open>host\<close>, \<open>services\<close>,
  \<open>mgen_env\<close>) and sequences of readings. So are the order in which \<open>std::sort\<close> leaves
  equal elements and the contents of variables that are read before they are written.

  \<^bold>\<open>Loops.\<close> Loops over data are recursive functions or folds. The balancing loop, the
  random array, the waits for the clock and the timed loop are partial functions into
  options, with \<open>None\<close> for a loop that does not return; each has a lemma that says when
  it returns: the balancing loop always, as the sum of squares of the loads falls; the
  random array when every remainder is drawn again and again; the timed loop when two
  readings of the counter in a row are late enough. The main loop is a list of rounds
  of any length, as it has no end of its own.

  \<^bold>\<open>What is shown.\<close>
    \<^item> The daemon: the main loop keeps the state well-formed, and no round faults on a host that
      answers and no event that is about a known machine or starts a new one; \<open>init\<close> establishes this; the
      whole program, from \<open>main\<close> on, runs for as many rounds as wanted when the host gives what it needs. The
      event handler implements the life cycle of a machine, its fault included. A round spreads the busy machines
      over the nodes as far as the strategy promises, when the nodes have room, and never
      puts two machines on one CPU.
    \<^item> The strategy: every busy machine gets one decision for a node that exists, the
      loads end at most one apart when there are many machines, no step raises the
      highest load, a balanced placement stays as it is.
    \<^item> The mapping of CPUs: it agrees with the host after a refresh, and carrying out
      decisions keeps it so, puts machines on free CPUs of their nodes, and has nothing
      left to do the second time.
    \<^item> The monitors: what is stored is what the text says, with the exact arithmetic of
      the rates and percentages.
    \<^item> The latencies: the pointers form one ring through the whole buffer, a measurement
      ends and is the time per load, and the file a run writes is read back by the next.
    \<^item> The configuration: a file written from a list of settings has their effect.
    \<^item> Where the code does not do what it means to, a theorem states what happens instead:
      an event about an unknown machine, an uninitialised state, a branch that moves one machine too
      many, a configured threshold that has no effect, two machines on one CPU, a machine started twice, counters that go backwards, more CPUs than at
      the start, an unreadable \<open>/proc/stat\<close>, a failed measurement, a buffer freed twice, a
      processor name without a frequency. More such theorems stand in the theories
      of the monitors, of the configuration and of the life cycle.

  \<^bold>\<open>Not modelled.\<close> Output to the terminal and to \<open>stderr\<close>; \<open>libvirt_error_handle\<close> and \<open>virConnectCloseCallBack\<close>, which
  print; the destructor of \<open>Nuiod\<close>, which is never reached; \<open>latency_calculate\<close>, whose
  values nothing uses; which registers the inline assembler of \<open>buf_read\<close> leaves changed (its loop is modelled as
  the instructions say). The thread that \<open>init\<close> starts writes only members that nothing reads before it is joined,
  so it is run at the join. Memory for vectors and maps is always there; \<open>time_t\<close> does
  not overflow. Floating point follows IEEE 754 with 53 bits and rounding to nearest.
\<close>

end
